(* ===== verification/Pimd_Prelude.thy ===== *)
theory Pimd_Prelude
  imports Main "HOL-Library.Word" "HOL-Library.Monad_Syntax"
begin

text \<open>
  Shared ground of the development: the machine integers of the daemon, the byte order of the
  wire and of the host, bounds-checked reads of a message buffer, and the generic list and word
  lemmas the components use.

  The host is little-endian (the byte order of every platform the daemon's CI covers), so an
  address "in network order" is the 32-bit value whose bytes in memory are the bytes of the
  address, and \<open>ntohl\<close> reverses them.  A buffer is the list of its bytes, a pointer into it is an
  offset, and every read goes through \<open>rd\<close>, which has the value \<open>None\<close> outside the buffer: a
  function of the model that returns \<open>Some\<close> has read nothing it does not own.
\<close>

unbundle bit_operations_syntax

type_synonym u8 = "8 word"
type_synonym u16 = "16 word"
type_synonym u32 = "32 word"
type_synonym u64 = "64 word"
type_synonym bytes = "u8 list"

named_theorems wire_simps \<open>evaluation of reads on a buffer that is long enough\<close>
named_theorems put_simps \<open>encoders as a sequence of chunks handed to the writer\<close>


section \<open>Bytes and words\<close>

definition be16 :: "u8 \<Rightarrow> u8 \<Rightarrow> u16" where
  "be16 a b = push_bit 8 (ucast a) OR ucast b"

definition be32 :: "u8 \<Rightarrow> u8 \<Rightarrow> u8 \<Rightarrow> u8 \<Rightarrow> u32" where
  "be32 a b c d =
     push_bit 24 (ucast a) OR push_bit 16 (ucast b) OR push_bit 8 (ucast c) OR ucast d"

definition le32 :: "u8 \<Rightarrow> u8 \<Rightarrow> u8 \<Rightarrow> u8 \<Rightarrow> u32" where
  "le32 a b c d =
     ucast a OR push_bit 8 (ucast b) OR push_bit 16 (ucast c) OR push_bit 24 (ucast d)"

definition byte_at :: "nat \<Rightarrow> u32 \<Rightarrow> u8" where
  "byte_at k x = ucast (drop_bit (8 * k) x)"

definition ntohl :: "u32 \<Rightarrow> u32" where
  "ntohl x = be32 (byte_at 0 x) (byte_at 1 x) (byte_at 2 x) (byte_at 3 x)"

abbreviation (input) htonl :: "u32 \<Rightarrow> u32" where
  "htonl \<equiv> ntohl"

text \<open>The bytes of a value as it lies in the memory of the host (\<open>memcpy\<close> from it).\<close>

definition mem32 :: "u32 \<Rightarrow> bytes" where
  "mem32 x = [byte_at 0 x, byte_at 1 x, byte_at 2 x, byte_at 3 x]"

lemma le32_be32: "le32 a b c d = be32 d c b a"
  by (simp add: le32_def be32_def ac_simps)

lemma bit_byte_at: "bit (byte_at k x) n \<longleftrightarrow> n < 8 \<and> bit x (8 * k + n)"
  by (auto simp: byte_at_def bit_simps)

lemma bit_be32: "bit (be32 a b c d) n \<longleftrightarrow>
  (if n < 8 then bit d n else if n < 16 then bit c (n - 8)
   else if n < 24 then bit b (n - 16) else n < 32 \<and> bit a (n - 24))"
  by (auto simp: be32_def bit_simps dest: bit_imp_le_length)

lemma byte_at_be32 [simp]:
  "byte_at 3 (be32 a b c d) = a" "byte_at 2 (be32 a b c d) = b"
  "byte_at (Suc 0) (be32 a b c d) = c" "byte_at 0 (be32 a b c d) = d"
  by (rule bit_word_eqI; simp add: bit_byte_at bit_be32)+

lemma be32_byte_at [simp]:
  "be32 (byte_at 3 x) (byte_at 2 x) (byte_at (Suc 0) x) (byte_at 0 x) = x"
  by (rule bit_word_eqI) (auto simp: bit_byte_at bit_be32)

lemma le32_byte_at [simp]:
  "le32 (byte_at 0 x) (byte_at (Suc 0) x) (byte_at 2 x) (byte_at 3 x) = x"
  by (simp add: le32_be32)

lemma ntohl_ntohl [simp]: "ntohl (ntohl x) = x"
  by (simp add: ntohl_def)

lemma ntohl_inject [simp]: "ntohl x = ntohl y \<longleftrightarrow> x = y"
  by (metis ntohl_ntohl)

lemma ntohl_eq_iff: "ntohl x = y \<longleftrightarrow> x = ntohl y"
  by (metis ntohl_ntohl)

lemma bit_ntohl: "bit (ntohl x) n \<longleftrightarrow>
  (if n < 8 then bit x (24 + n) else if n < 16 then bit x (n + 8)
   else if n < 24 then bit x (n - 8) else n < 32 \<and> bit x (n - 24))"
  by (auto simp: ntohl_def bit_be32 bit_byte_at add.commute)

lemma ntohl_and: "ntohl (x AND y) = ntohl x AND ntohl y"
  by (rule bit_word_eqI) (auto simp: bit_ntohl bit_simps)

lemma ntohl_zero [simp]: "ntohl 0 = 0"
  by (simp add: ntohl_def be32_def byte_at_def)

lemma ntohl_zero_iff [simp]: "ntohl x = 0 \<longleftrightarrow> x = 0"
  using ntohl_inject [of x 0] by (simp del: ntohl_inject)

lemma length_mem32 [simp]: "length (mem32 x) = 4"
  by (simp add: mem32_def)

lemma be16_bytes [simp]: "be16 (ucast (drop_bit 8 v)) (ucast v) = v"
  by (rule bit_word_eqI) (auto simp: be16_def bit_simps)


section \<open>Reading a buffer\<close>

definition rd :: "bytes \<Rightarrow> nat \<Rightarrow> u8 option" where
  "rd msg i = (if i < length msg then Some (msg ! i) else None)"

lemma rd_Some [simp]: "i < length msg \<Longrightarrow> rd msg i = Some (msg ! i)"
  by (simp add: rd_def)

lemma rd_append [simp]:
  "rd (pre @ msg) (length pre + i) = rd msg i"
  "rd (pre @ msg) (Suc (length pre + i)) = rd msg (Suc i)"
  "rd (pre @ msg) (Suc (Suc (length pre + i))) = rd msg (Suc (Suc i))"
  by (simp_all add: rd_def nth_append)

text \<open>
  The \<open>GET_*\<close> macros of \<^verbatim>\<open>pimd.h\<close>: each reads at the pointer and leaves it behind what it
  read.  \<open>GET_NETLONG\<close> is its little-endian variant, which is also what \<open>memcpy\<close> into a
  \<open>uint32_t\<close> does.
\<close>

definition get_byte :: "bytes \<Rightarrow> nat \<Rightarrow> (u8 \<times> nat) option" where
  "get_byte msg p = do { v \<leftarrow> rd msg p; Some (v, p + 1) }"

definition get_hostshort :: "bytes \<Rightarrow> nat \<Rightarrow> (u16 \<times> nat) option" where
  "get_hostshort msg p = do {
     a \<leftarrow> rd msg p;
     b \<leftarrow> rd msg (p + 1);
     Some (be16 a b, p + 2) }"

definition get_hostlong :: "bytes \<Rightarrow> nat \<Rightarrow> (u32 \<times> nat) option" where
  "get_hostlong msg p = do {
     a \<leftarrow> rd msg p;
     b \<leftarrow> rd msg (p + 1);
     c \<leftarrow> rd msg (p + 2);
     d \<leftarrow> rd msg (p + 3);
     Some (be32 a b c d, p + 4) }"

definition get_netlong :: "bytes \<Rightarrow> nat \<Rightarrow> (u32 \<times> nat) option" where
  "get_netlong msg p = do {
     a \<leftarrow> rd msg p;
     b \<leftarrow> rd msg (p + 1);
     c \<leftarrow> rd msg (p + 2);
     d \<leftarrow> rd msg (p + 3);
     Some (le32 a b c d, p + 4) }"

lemma get_byte_Some [wire_simps]:
  "p < length msg \<Longrightarrow> get_byte msg p = Some (msg ! p, Suc p)"
  by (simp add: get_byte_def)

lemma get_hostshort_Some [wire_simps]:
  "p + 2 \<le> length msg \<Longrightarrow> get_hostshort msg p = Some (be16 (msg ! p) (msg ! (p + 1)), p + 2)"
  by (simp add: get_hostshort_def)

lemma get_hostlong_Some [wire_simps]:
  "p + 4 \<le> length msg \<Longrightarrow> get_hostlong msg p =
     Some (be32 (msg ! p) (msg ! (p + 1)) (msg ! (p + 2)) (msg ! (p + 3)), p + 4)"
  by (simp add: get_hostlong_def)

lemma get_netlong_Some [wire_simps]:
  "p + 4 \<le> length msg \<Longrightarrow> get_netlong msg p =
     Some (le32 (msg ! p) (msg ! (p + 1)) (msg ! (p + 2)) (msg ! (p + 3)), p + 4)"
  by (simp add: get_netlong_def)

text \<open>A read depends on the bytes it reads and on nothing before or behind them.\<close>

lemma get_shift:
  "get_byte (pre @ msg) (length pre + p) = map_option (apsnd ((+) (length pre))) (get_byte msg p)"
  "get_hostshort (pre @ msg) (length pre + p) =
     map_option (apsnd ((+) (length pre))) (get_hostshort msg p)"
  "get_hostlong (pre @ msg) (length pre + p) =
     map_option (apsnd ((+) (length pre))) (get_hostlong msg p)"
  "get_netlong (pre @ msg) (length pre + p) =
     map_option (apsnd ((+) (length pre))) (get_netlong msg p)"
  unfolding get_byte_def get_hostshort_def get_hostlong_def get_netlong_def
  by (simp_all add: add.assoc split: bind_splits)


section \<open>Small facts\<close>

lemma unat_ucast_up:
  assumes "LENGTH('a) \<le> LENGTH('b)"
  shows "unat (ucast (x :: 'a::len word) :: 'b::len word) = unat x"
proof -
  have "unat x < 2 ^ LENGTH('a)" by simp
  also have "\<dots> \<le> (2 :: nat) ^ LENGTH('b)" using assms by simp
  finally show ?thesis by (simp add: unsigned_ucast_eq take_bit_nat_eq_self_iff)
qed

lemma unat_ucast_mod: "unat (ucast x :: 'b::len word) = unat x mod 2 ^ LENGTH('b)"
  by (simp add: unsigned_ucast_eq take_bit_eq_mod)

lemma unat_not: "unat (NOT (x :: 'a::len word)) = 2 ^ LENGTH('a) - 1 - unat x"
proof -
  have "NOT x = - 1 - x" by (simp add: not_eq_complement)
  moreover have "x \<le> - 1" by simp
  ultimately show ?thesis by (simp add: unat_sub unsigned_minus_1_eq_mask mask_eq_exp_minus_1)
qed

lemma unat_drop_bit_div: "unat (drop_bit n x) = unat x div 2 ^ n"
  by (metis drop_bit_eq_div unat_drop_bit_eq)

lemma unat_and_mask_mod: "unat (x AND mask n) = unat x mod 2 ^ n"
  by (metis take_bit_eq_mask take_bit_eq_mod unsigned_take_bit_eq)

lemma unat_le_max8: "unat (x :: u8) \<le> 255"
  using unsigned_less [of x, where ?'a = nat] by simp

lemma unat_le_max16: "unat (x :: u16) \<le> 65535"
  using unsigned_less [of x, where ?'a = nat] by simp

end
