(* ===== verification/Inet.thy ===== *)
theory Inet
  imports Pimd_Prelude
begin

text \<open>
  The address helpers of \<^verbatim>\<open>src/inet.c\<close> and the mask macros of \<^verbatim>\<open>src/pimd.h\<close>: which addresses,
  masks and subnets are credible, the conversion between mask lengths and masks, the printing
  and parsing of addresses, and the Internet checksum.
\<close>


section \<open>Address classes\<close>

text \<open>The \<open>IN_*\<close> macros of \<open><netinet/in.h>\<close>, on host order.\<close>

definition in_classa :: "u32 \<Rightarrow> bool" where
  "in_classa a \<longleftrightarrow> a AND 0x80000000 = 0"

definition in_classb :: "u32 \<Rightarrow> bool" where
  "in_classb a \<longleftrightarrow> a AND 0xc0000000 = 0x80000000"

definition in_classc :: "u32 \<Rightarrow> bool" where
  "in_classc a \<longleftrightarrow> a AND 0xe0000000 = 0xc0000000"

definition in_classd :: "u32 \<Rightarrow> bool" where
  "in_classd a \<longleftrightarrow> a AND 0xf0000000 = 0xe0000000"

definition in_badclass :: "u32 \<Rightarrow> bool" where
  "in_badclass a \<longleftrightarrow> a AND 0xf0000000 = 0xf0000000"

abbreviation in_multicast :: "u32 \<Rightarrow> bool" where
  "in_multicast \<equiv> in_classd"

abbreviation (input) inaddr_any_n :: u32 where
  "inaddr_any_n \<equiv> 0"


section \<open>Credible addresses, masks and subnets\<close>

definition inet_valid_host :: "u32 \<Rightarrow> bool" where
  "inet_valid_host naddr =
     (let addr = ntohl naddr in
      \<not> (in_multicast addr \<or> in_badclass addr \<or>
         addr AND 0xff000000 = 0x7f000000 \<or>
         addr AND 0xff000000 = 0))"

definition inet_valid_mask :: "u32 \<Rightarrow> bool" where
  "inet_valid_mask m = (if NOT (((m AND - m) - 1) OR m) \<noteq> 0 then False else True)"

definition inet_valid_subnet :: "u32 \<Rightarrow> u32 \<Rightarrow> bool" where
  "inet_valid_subnet nsubnet nmask =
     (let subnet = ntohl nsubnet; m = ntohl nmask in
      if subnet AND m \<noteq> subnet then False
      else if subnet = 0 then m = 0
      else if in_classa subnet \<and>
        (m < 0xff000000 \<or> subnet AND 0xff000000 = 0x7f000000 \<or> subnet AND 0xff000000 = 0)
      then False
      else if \<not> in_classa subnet \<and> (in_classd subnet \<or> in_badclass subnet) then False
      else if subnet AND NOT m \<noteq> 0 then False
      else if \<not> inet_valid_mask m then False
      else True)"


section \<open>Mask lengths and masks\<close>

definition masklen_to_mask :: "nat \<Rightarrow> u32" where
  "masklen_to_mask masklen =
     (let tmp_len = (if 32 < masklen then 32 else masklen) in
      if tmp_len \<noteq> 0 then htonl (push_bit (32 - tmp_len) (NOT 0)) else 0)"

fun mask_to_masklen_loop :: "u32 \<Rightarrow> nat \<Rightarrow> nat" where
  "mask_to_masklen_loop tmp_mask 0 = 0"
| "mask_to_masklen_loop tmp_mask (Suc n) =
     (if tmp_mask AND 1 \<noteq> 0 then Suc n else mask_to_masklen_loop (drop_bit 1 tmp_mask) n)"

definition mask_to_masklen :: "u32 \<Rightarrow> nat" where
  "mask_to_masklen m = mask_to_masklen_loop (ntohl m) 32"


section \<open>Printing and parsing\<close>

text \<open>\<open>%u\<close> and \<open>%x\<close> of \<open>printf\<close>, and \<open>snprintf\<close> into a buffer of \<open>len\<close> bytes.\<close>

definition digit_char :: "nat \<Rightarrow> char" where
  "digit_char d = char_of (if d < 10 then 48 + d else 87 + d)"

fun show_base :: "nat \<Rightarrow> nat \<Rightarrow> string" where
  "show_base b n =
     (if b < 2 \<or> n < b then [digit_char n] else show_base b (n div b) @ [digit_char (n mod b)])"

declare show_base.simps [simp del]

abbreviation show_dec :: "nat \<Rightarrow> string" where
  "show_dec \<equiv> show_base 10"

abbreviation show_hex :: "nat \<Rightarrow> string" where
  "show_hex \<equiv> show_base 16"

definition snprintf :: "nat \<Rightarrow> string \<Rightarrow> string" where
  "snprintf len s = take (len - 1) s"

definition inet_fmt :: "u32 \<Rightarrow> nat \<Rightarrow> string" where
  "inet_fmt addr len =
     snprintf len (show_dec (unat (byte_at 0 addr)) @ ''.'' @ show_dec (unat (byte_at 1 addr)) @ ''.'' @
                   show_dec (unat (byte_at 2 addr)) @ ''.'' @ show_dec (unat (byte_at 3 addr)))"

text \<open>
  \<open>sscanf\<close> with \<open>%u\<close>: leading white space, an optional sign, at least one digit; the value is
  that of \<open>strtoul\<close>, clamped to 64 bits, negated after a minus sign and cut to 32 bits.
\<close>

definition is_space :: "char \<Rightarrow> bool" where
  "is_space c \<longleftrightarrow> of_char c \<in> {9, 10, 11, 12, 13, 32 :: nat}"

definition is_digit :: "char \<Rightarrow> bool" where
  "is_digit c \<longleftrightarrow> 48 \<le> (of_char c :: nat) \<and> of_char c \<le> (57 :: nat)"

definition digits_val :: "string \<Rightarrow> nat" where
  "digits_val ds = foldl (\<lambda>acc c. 10 * acc + (of_char c - 48)) 0 ds"

definition scan_sign :: "string \<Rightarrow> bool \<times> string" where
  "scan_sign s = (case s of [] \<Rightarrow> (False, [])
     | c # cs \<Rightarrow> if c = CHR ''-'' then (True, cs) else if c = CHR ''+'' then (False, cs)
                else (False, c # cs))"

definition scan_u :: "string \<Rightarrow> (u32 \<times> string) option" where
  "scan_u s =
     (let (neg, t) = scan_sign (dropWhile is_space s);
          ds = takeWhile is_digit t;
          v = of_nat (min (digits_val ds) (2 ^ 64 - 1)) :: u64
      in if ds = [] then None
         else Some (ucast (if neg then - v else v), dropWhile is_digit t))"

definition scan_dot :: "string \<Rightarrow> string option" where
  "scan_dot s = (case s of c # cs \<Rightarrow> (if c = CHR ''.'' then Some cs else None) | [] \<Rightarrow> None)"

definition scan_dot_u :: "string \<Rightarrow> (u32 \<times> string) option" where
  "scan_dot_u s = do { t \<leftarrow> scan_dot s; scan_u t }"

definition inet_sscanf :: "string \<Rightarrow> int \<times> u32 \<times> u32 \<times> u32 \<times> u32" where
  "inet_sscanf s =
     (case scan_u s of
        None \<Rightarrow> (if dropWhile is_space s = [] then - 1 else 0, 0, 0, 0, 0)
      | Some (a0, s1) \<Rightarrow>
     (case scan_dot_u s1 of
        None \<Rightarrow> (1, a0, 0, 0, 0)
      | Some (a1, s2) \<Rightarrow>
     (case scan_dot_u s2 of
        None \<Rightarrow> (2, a0, a1, 0, 0)
      | Some (a2, s3) \<Rightarrow>
     (case scan_dot_u s3 of
        None \<Rightarrow> (3, a0, a1, a2, 0)
      | Some (a3, s4) \<Rightarrow> (if s4 = [] then 4 else 5, a0, a1, a2, a3)))))"

definition inet_parse :: "string \<Rightarrow> int \<Rightarrow> u32" where
  "inet_parse s n =
     (let (i, a0, a1, a2, a3) = inet_sscanf s in
      if i < n \<or> 4 < i \<or> 255 < a0 \<or> 255 < a1 \<or> 255 < a2 \<or> 255 < a3
      then 0xffffffff
      else le32 (ucast a0) (ucast a1) (ucast a2) (ucast a3))"

definition forgemask :: "u32 \<Rightarrow> u32" where
  "forgemask a =
     (if in_classa a then 0xff000000 else if in_classb a then 0xffff0000
      else if in_classc a then 0xffffff00 else 0)"

definition domask_bit :: "u32 \<Rightarrow> int" where
  "domask_bit m =
     (case find (bit m) [0..<32] of
        None \<Rightarrow> 0
      | Some b \<Rightarrow> if list_all (bit m) [Suc b..<32] then int b else - 1)"

definition domask :: "nat \<Rightarrow> u32 \<Rightarrow> u32 \<Rightarrow> string" where
  "domask len addr m =
     (if m = 0 \<or> forgemask addr = m then []
      else if domask_bit m = - 1 then snprintf len (''&0x'' @ show_hex (unat m))
      else snprintf len (''/'' @ show_dec (nat (32 - domask_bit m))))"

text \<open>
  \<open>MAXHOSTNAMELEN + 4\<close>, the size of the static line of \<open>netname\<close>, with the 64 of Linux; other
  systems have more.
\<close>

definition netname_size :: nat where
  "netname_size = 68"

definition netname :: "u32 \<Rightarrow> u32 \<Rightarrow> string" where
  "netname addr m =
     (let i = ntohl addr;
          line = snprintf netname_size
            (show_dec (unat (byte_at 3 i)) @ ''.'' @ show_dec (unat (byte_at 2 i)) @ ''.'' @
             show_dec (unat (byte_at 1 i)) @ ''.'' @ show_dec (unat (byte_at 0 i)))
      in line @ domask (netname_size - length line) i (ntohl m))"


section \<open>The Internet checksum\<close>

definition le16 :: "u8 \<Rightarrow> u8 \<Rightarrow> u16" where
  "le16 a b = be16 b a"

text \<open>The 16-bit words of the buffer as the host reads them, the odd byte last.\<close>

fun cksum_sum :: "u32 \<Rightarrow> bytes \<Rightarrow> u32" where
  "cksum_sum acc (a # b # w) = cksum_sum (acc + ucast (le16 a b)) w"
| "cksum_sum acc [a] = acc + ucast a"
| "cksum_sum acc [] = acc"

definition inet_cksum :: "bytes \<Rightarrow> u16" where
  "inet_cksum bs =
     (let acc = cksum_sum 0 bs;
          acc = drop_bit 16 acc + (acc AND 0xffff);
          acc = acc + drop_bit 16 acc
      in NOT (ucast acc))"


text \<open>The unwrapped sum of the words, and the two folds of the carries on it.\<close>

fun wsum :: "bytes \<Rightarrow> nat" where
  "wsum (a # b # w) = unat (le16 a b) + wsum w"
| "wsum [a] = unat a"
| "wsum [] = 0"

definition cfold :: "nat \<Rightarrow> nat" where
  "cfold S = (let f = S div 65536 + S mod 65536 in (f + f div 65536) mod 65536)"


section \<open>Masks\<close>

lemma mask_loop_lowest:
  "(\<And>i. i < k \<Longrightarrow> \<not> bit m i) \<Longrightarrow> bit m k \<Longrightarrow> k < n \<Longrightarrow> mask_to_masklen_loop m n = n - k"
proof (induction m n arbitrary: k rule: mask_to_masklen_loop.induct)
  case (2 m n)
  show ?case
  proof (cases k)
    case 0
    with "2.prems" show ?thesis by (simp add: and_one_eq bit_0 odd_iff_mod_2_eq_one)
  next
    case (Suc j)
    have "\<not> bit m 0" using "2.prems"(1) [of 0] Suc by simp
    then have e: "m AND 1 = 0" by (simp add: and_one_eq bit_0 even_iff_mod_2_eq_zero)
    have "mask_to_masklen_loop (drop_bit 1 m) n = n - j"
    proof (rule "2.IH")
      show "\<not> m AND 1 \<noteq> 0" using e by simp
      show "\<not> bit (drop_bit 1 m) i" if "i < j" for i
        using "2.prems"(1) [of "Suc i"] Suc that by (simp add: bit_simps)
      show "bit (drop_bit 1 m) j" using "2.prems"(2) Suc by (simp add: bit_simps)
      show "j < n" using "2.prems"(3) Suc by simp
    qed
    with e Suc show ?thesis by simp
  qed
qed simp

lemma mask_loop_le: "mask_to_masklen_loop m n \<le> n"
  by (induction m n rule: mask_to_masklen_loop.induct) (simp_all add: le_SucI)

lemma not_mask32 [simp]: "NOT (mask 32 :: u32) = 0"
  by (rule bit_word_eqI) (auto simp: bit_simps)

lemma ntohl_masklen_to_mask:
  "n \<le> 32 \<Longrightarrow> ntohl (masklen_to_mask n) = push_bit (32 - n) (- 1)"
  by (auto simp: masklen_to_mask_def)

lemma mask_to_masklen_inverse:
  assumes "n \<le> 32"
  shows "mask_to_masklen (masklen_to_mask n) = n"
proof (cases "n = 0")
  case True
  then show ?thesis by (simp add: mask_to_masklen_def masklen_to_mask_def) code_simp
next
  case False
  have "mask_to_masklen_loop (push_bit (32 - n) (- 1)) 32 = 32 - (32 - n)"
    using False assms by (intro mask_loop_lowest) (auto simp: bit_simps)
  with assms show ?thesis by (simp add: mask_to_masklen_def ntohl_masklen_to_mask)
qed

lemma masklen_to_mask_less:
  assumes "m < n" "n \<le> 32"
  shows "masklen_to_mask m < masklen_to_mask n"
proof -
  have le: "m \<le> 32" using assms by simp
  have "push_bit (32 - m) (- 1 :: u32) AND push_bit (32 - n) (- 1) = push_bit (32 - m) (- 1)"
    using assms by (intro bit_word_eqI) (auto simp: bit_simps)
  then have "ntohl (masklen_to_mask m AND masklen_to_mask n) = ntohl (masklen_to_mask m)"
    unfolding ntohl_and ntohl_masklen_to_mask [OF le] ntohl_masklen_to_mask [OF assms(2)] .
  then have "masklen_to_mask m AND masklen_to_mask n = masklen_to_mask m" by simp
  then have "masklen_to_mask m \<le> masklen_to_mask n" by (metis word_and_le1)
  moreover have "masklen_to_mask m \<noteq> masklen_to_mask n"
    using assms mask_to_masklen_inverse [of m] mask_to_masklen_inverse [of n] by auto
  ultimately show ?thesis by simp
qed

lemma lowest_bit:
  fixes m :: u32 assumes "m \<noteq> 0"
  obtains k where "k < 32" "bit m k" "\<And>i. i < k \<Longrightarrow> \<not> bit m i"
proof -
  from assms obtain n where n: "bit m n" by (metis bit_eq_iff bit_0_eq bot_apply bot_bool_def)
  let ?k = "LEAST n. bit m n"
  have "bit m ?k" using n by (rule LeastI)
  moreover have "\<not> bit m i" if "i < ?k" for i using that by (rule not_less_Least)
  moreover have "?k < 32" using bit_imp_le_length [OF \<open>bit m ?k\<close>] by simp
  ultimately show thesis using that by blast
qed

lemma and_minus_lowest:
  fixes m :: u32
  assumes "bit m k" "\<And>i. i < k \<Longrightarrow> \<not> bit m i"
  shows "m AND - m = push_bit k 1"
proof (rule bit_word_eqI)
  have m1: "- m = NOT (m - 1)" by (simp add: minus_eq_not_minus_1)
  define u where "u = drop_bit k m"
  have "bit m n \<longleftrightarrow> bit (push_bit k u) n" if "n < 32" for n
    using that assms(2) [of n] by (cases "n < k") (auto simp: u_def bit_simps)
  then have m: "m = push_bit k u" by (intro bit_word_eqI) simp
  have odd: "odd u" using assms(1) by (simp add: u_def bit_iff_odd_drop_bit)
  have "- m = push_bit k (- u)" unfolding m by (simp add: push_bit_eq_mult)
  moreover have "u AND - u = 1"
  proof -
    have "- u = NOT (u - 1)" by (simp add: minus_eq_not_minus_1)
    moreover have "u - 1 = u XOR 1" using odd by (simp add: xor_one_eq)
    ultimately show ?thesis using odd by (auto intro!: bit_word_eqI simp: bit_simps bit_0 bit_1_iff even_and_iff even_not_iff even_xor_iff)
  qed
  ultimately have "m AND - m = push_bit k 1"
    using m by (metis push_bit_and)
  then show "bit (m AND - m) n = bit (push_bit k 1 :: u32) n" for n by simp
qed

lemma not_eq_zero: "NOT x = 0 \<longleftrightarrow> x = - 1" for x :: u32
  by (metis bit.double_compl bit.compl_zero)

lemma inet_valid_mask_prefix:
  "inet_valid_mask m \<longleftrightarrow> (\<exists>n \<le> 32. m = push_bit (32 - n) (- 1))"
proof (cases "m = 0")
  case True
  then have "m = push_bit (32 - 0) (- 1)" by simp
  with True show ?thesis by (auto simp: inet_valid_mask_def intro: exI [of _ 0])
next
  case False
  then obtain k where k: "k < 32" "bit m k" "\<And>i. i < k \<Longrightarrow> \<not> bit m i" using lowest_bit [OF False] by blast
  have "m AND - m = push_bit k 1" using k(2,3) by (rule and_minus_lowest)
  then have low: "(m AND - m) - 1 = mask k"
    by (simp add: mask_eq_exp_minus_1 push_bit_eq_mult)
  have "inet_valid_mask m \<longleftrightarrow> mask k OR m = - 1"
    unfolding inet_valid_mask_def low not_eq_zero by simp
  also have "\<dots> \<longleftrightarrow> m = push_bit k (- 1)"
  proof
    assume h: "mask k OR m = - 1"
    have "bit m i \<longleftrightarrow> k \<le> i" if "i < 32" for i
    proof -
      have "bit (mask k OR m) i" using h that by simp
      then show ?thesis using k(3) [of i] by (cases "i < k") (auto simp: bit_simps)
    qed
    then show "m = push_bit k (- 1)" by (intro bit_word_eqI) (auto simp: bit_simps)
  next
    assume h: "m = push_bit k (- 1)"
    show "mask k OR m = - 1" by (rule bit_word_eqI) (auto simp: h bit_simps)
  qed
  also have "\<dots> \<longleftrightarrow> (\<exists>n \<le> 32. m = push_bit (32 - n) (- 1))"
  proof
    assume "m = push_bit k (- 1)"
    then show "\<exists>n \<le> 32. m = push_bit (32 - n) (- 1)" using k(1) by (intro exI [of _ "32 - k"]) simp
  next
    assume "\<exists>n \<le> 32. m = push_bit (32 - n) (- 1)"
    then obtain n where n: "n \<le> 32" "m = push_bit (32 - n) (- 1)" by blast
    with k(2) have "32 - n \<le> k" by (auto simp: bit_simps not_less)
    moreover have "bit m (32 - n)" using n k(1) calculation by (simp add: bit_simps)
    then have "k \<le> 32 - n" using k(3) not_le by blast
    ultimately show "m = push_bit k (- 1)" using n by simp
  qed
  finally show ?thesis .
qed


section \<open>Address classes by the first octet\<close>

lemma unat_and_not_mask: "unat (x AND NOT (mask n)) = 2 ^ n * (unat x div 2 ^ n)"
proof -
  have "x AND NOT (mask n) = push_bit n (drop_bit n x)"
    by (rule bit_eqI) (auto simp: bit_simps)
  also have "\<dots> = x - take_bit n x" by (metis add_diff_cancel_right' bits_ident)
  finally have e: "x AND NOT (mask n) = x - take_bit n x" .
  have t: "unat (take_bit n x) = unat x mod 2 ^ n"
    by (metis take_bit_eq_mod unsigned_take_bit_eq)
  then have "take_bit n x \<le> x" by (simp add: word_le_nat_alt)
  with t show ?thesis by (simp add: e unat_sub minus_mod_eq_mult_div)
qed

lemma high_masks:
  "(0xf0000000 :: u32) = NOT (mask 28)" "(0xff000000 :: u32) = NOT (mask 24)"
  by code_simp+

lemma in_classd_iff: "in_classd a \<longleftrightarrow> unat a div 2 ^ 28 = 14"
  unfolding in_classd_def high_masks(1) word_unat_eq_iff unat_and_not_mask by auto

lemma in_badclass_iff: "in_badclass a \<longleftrightarrow> unat a div 2 ^ 28 = 15"
  unfolding in_badclass_def word_unat_eq_iff
  by (simp only: high_masks(1) unat_and_not_mask) (auto simp: unat_not mask_eq_exp_minus_1)

lemma high_octet_iff:
  "a AND 0xff000000 = 0x7f000000 \<longleftrightarrow> unat a div 2 ^ 24 = 127"
  "a AND 0xff000000 = 0 \<longleftrightarrow> unat a div 2 ^ 24 = 0" for a :: u32
  unfolding high_masks(2) word_unat_eq_iff unat_and_not_mask by auto

lemma unat_first_octet: "unat (byte_at 0 a) = unat (ntohl a) div 2 ^ 24"
proof -
  have "byte_at 0 a = byte_at 3 (ntohl a)" by (simp add: ntohl_def)
  also have "unat \<dots> = unat (ntohl a) div 2 ^ 24 mod 2 ^ 8"
    by (simp add: byte_at_def unat_ucast_mod unat_drop_bit_div)
  also have "\<dots> = unat (ntohl a) div 2 ^ 24"
    using unsigned_less [of "ntohl a", where ?'a = nat] by (simp add: less_mult_imp_div_less)
  finally show ?thesis .
qed

lemma inet_valid_host_octet:
  "inet_valid_host a \<longleftrightarrow>
     unat (byte_at 0 a) \<noteq> 0 \<and> unat (byte_at 0 a) \<noteq> 127 \<and> unat (byte_at 0 a) < 224"
proof -
  let ?b = "unat (ntohl a) div 2 ^ 24"
  have "unat (ntohl a) div 2 ^ 28 = ?b div 16" by (simp add: div_mult2_eq [symmetric])
  moreover have "?b < 256" using unat_first_octet [of a] unat_le_max8 [of "byte_at 0 a"] by simp
  moreover have "b div 16 \<noteq> 14 \<and> b div 16 \<noteq> 15 \<longleftrightarrow> b < 224" if "b < 256" for b :: nat
    using that by auto
  ultimately show ?thesis
    unfolding inet_valid_host_def Let_def in_classd_iff in_badclass_iff high_octet_iff unat_first_octet
    by auto
qed

lemma unat_mask_le: "k \<le> 32 \<Longrightarrow> unat (mask k :: u32) = 2 ^ k - 1"
proof -
  assume "k \<le> 32"
  then have "unat (mask k :: u32) = nat (mask k)"
    by (simp flip: nat_uint_eq add: uint_mask_eq min_absorb2)
  then show ?thesis by (simp add: mask_eq_exp_minus_1 nat_diff_distrib nat_power_eq)
qed

lemma unat_host_mask: "n \<le> 32 \<Longrightarrow> unat (ntohl (masklen_to_mask n)) = 2 ^ 32 - 2 ^ (32 - n)"
  by (simp add: ntohl_masklen_to_mask unat_not unat_mask_le)

lemma host_mask_less:
  assumes "m \<le> 32" "n \<le> 32"
  shows "ntohl (masklen_to_mask m) < ntohl (masklen_to_mask n) \<longleftrightarrow> m < n"
proof -
  have "(2::nat) ^ (32 - m) \<le> 2 ^ 32" by (rule power_increasing) auto
  moreover have "(2::nat) ^ (32 - n) \<le> 2 ^ 32" by (rule power_increasing) auto
  moreover have "(2::nat) ^ (32 - n) < 2 ^ (32 - m) \<longleftrightarrow> m < n"
    using assms by (subst power_strict_increasing_iff) auto
  ultimately show ?thesis
    unfolding word_less_nat_alt unat_host_mask [OF assms(1)] unat_host_mask [OF assms(2)] by linarith
qed

lemma net_mask_less:
  assumes "m \<le> 32" "n \<le> 32"
  shows "masklen_to_mask m < masklen_to_mask n \<longleftrightarrow> m < n"
  using masklen_to_mask_less [of m n] masklen_to_mask_less [of n m] assms
  by (metis linorder_neqE_nat order_less_asym order_less_irrefl)

lemma in_classa_iff: "in_classa a \<longleftrightarrow> unat a div 2 ^ 24 < 128"
proof -
  have "(0x80000000 :: u32) = NOT (mask 31)" by code_simp
  then have "in_classa a \<longleftrightarrow> 2 ^ 31 * (unat a div 2 ^ 31) = 0"
    unfolding in_classa_def by (metis unat_and_not_mask unat_eq_0)
  then show ?thesis by (auto simp: div_eq_0_iff less_mult_imp_div_less div_less_iff_less_mult)
qed

lemma valid_mask_masklen: "inet_valid_mask (ntohl m) \<longleftrightarrow> (\<exists>n \<le> 32. m = masklen_to_mask n)"
  unfolding inet_valid_mask_prefix using ntohl_masklen_to_mask ntohl_inject by metis

lemma inet_valid_subnet_iff:
  "inet_valid_subnet s m \<longleftrightarrow> s = 0 \<and> m = 0 \<or>
     (\<exists>n \<le> 32. m = masklen_to_mask n \<and> s AND m = s \<and> inet_valid_host s \<and>
        (unat (byte_at 0 s) < 128 \<longrightarrow> 8 \<le> n))"
proof (cases "s = 0")
  case True
  then show ?thesis
    by (auto simp: inet_valid_subnet_def inet_valid_host_octet byte_at_def)
next
  case False
  let ?b = "unat (ntohl s) div 2 ^ 24"
  have sub: "ntohl s AND ntohl m = ntohl s \<longleftrightarrow> s AND m = s"
    by (metis ntohl_and ntohl_inject)
  have dead: "ntohl s AND NOT (ntohl m) = 0" if "ntohl s AND ntohl m = ntohl s"
    by (metis and.assoc and.right_neutral and_zero_eq bit.conj_cancel_right that)
  have cls: "in_classd (ntohl s) \<or> in_badclass (ntohl s) \<longleftrightarrow> \<not> ?b < 224"
  proof -
    have "unat (ntohl s) div 2 ^ 28 = ?b div 16" by (simp add: div_mult2_eq [symmetric])
    moreover have "?b < 256" using unat_first_octet [of s] unat_le_max8 [of "byte_at 0 s"] by simp
    moreover have "b div 16 = 14 \<or> b div 16 = 15 \<longleftrightarrow> \<not> b < 224" if "b < 256" for b :: nat
      using that by auto
    ultimately show ?thesis unfolding in_classd_iff in_badclass_iff by simp
  qed
  have m8: "ntohl m < 0xff000000 \<longleftrightarrow> n < 8" if "n \<le> 32" "m = masklen_to_mask n" for n
  proof -
    have "(0xff000000 :: u32) = ntohl (masklen_to_mask 8)" by code_simp
    then show ?thesis using host_mask_less [of n 8] that by simp
  qed
  show ?thesis
    unfolding inet_valid_subnet_def Let_def inet_valid_host_octet unat_first_octet
      in_classa_iff high_octet_iff valid_mask_masklen cls sub
    using False dead sub m8 by auto
qed


section \<open>Printing and parsing are inverse\<close>

lemma show_dec_digits: "\<forall>c \<in> set (show_dec n). is_digit c"
proof (induction "10::nat" n rule: show_base.induct)
  case (1 n)
  have d: "is_digit (digit_char d)" if "d < 10" for d
    using that by (simp add: is_digit_def digit_char_def)
  show ?case
  proof (cases "n < 10")
    case True
    then show ?thesis by (subst show_base.simps) (simp add: d)
  next
    case False
    with 1 show ?thesis by (subst show_base.simps) (auto simp: d)
  qed
qed

lemma show_dec_nonempty [simp]: "show_dec n \<noteq> []"
  by (subst show_base.simps) simp

lemma digits_val_show_dec: "digits_val (show_dec n) = n"
proof (induction "10::nat" n rule: show_base.induct)
  case (1 n)
  have d: "of_char (digit_char d) - 48 = d" if "d < 10" for d :: nat
    using that by (simp add: digit_char_def)
  show ?case
  proof (cases "n < 10")
    case True
    then show ?thesis by (subst show_base.simps) (simp add: digits_val_def d)
  next
    case False
    with 1 show ?thesis by (subst show_base.simps) (simp add: digits_val_def d)
  qed
qed

lemma length_show_dec: "n < 256 \<Longrightarrow> length (show_dec n) \<le> 3"
  by (simp add: show_base.simps [of 10 n] show_base.simps [of 10 "n div 10"]
      show_base.simps [of 10 "n div 10 div 10"])

lemma is_digit_not [simp]: "is_digit c \<Longrightarrow> \<not> is_space c" "is_digit c \<Longrightarrow> c \<noteq> CHR ''-''"
   "is_digit c \<Longrightarrow> c \<noteq> CHR ''+''" "\<not> is_digit CHR ''.''"
  by (auto simp: is_digit_def is_space_def)

lemma scan_u_show_dec:
  assumes "n < 2 ^ 32" and "rest = [] \<or> \<not> is_digit (hd rest)"
  shows "scan_u (show_dec n @ rest) = Some (of_nat n, rest)"
proof -
  obtain c cs where sh: "show_dec n = c # cs" by (cases "show_dec n") auto
  with show_dec_digits [of n] have c: "is_digit c" by simp
  have ds: "takeWhile is_digit (show_dec n @ rest) = show_dec n"
    using assms(2) show_dec_digits [of n] by (cases rest) (auto simp: takeWhile_append)
  have dr: "dropWhile is_digit (show_dec n @ rest) = rest"
    using assms(2) show_dec_digits [of n] by (cases rest) (auto simp: dropWhile_append)
  have sg: "scan_sign (dropWhile is_space (show_dec n @ rest)) = (False, show_dec n @ rest)"
    using c by (simp add: sh scan_sign_def)
  have "min n (2 ^ 64 - 1) = n" using assms(1) by simp
  moreover have "ucast (of_nat n :: u64) = (of_nat n :: u32)"
    using assms(1) by (simp add: word_unat_eq_iff unat_ucast_mod unat_of_nat take_bit_eq_mod)
  ultimately show ?thesis
    by (simp add: scan_u_def sg ds dr digits_val_show_dec)
qed

lemma scan_dot_u_show_dec:
  assumes "n < 2 ^ 32" and "rest = [] \<or> \<not> is_digit (hd rest)"
  shows "scan_dot_u (CHR ''.'' # show_dec n @ rest) = Some (of_nat n, rest)"
  by (simp add: scan_dot_u_def scan_dot_def scan_u_show_dec [OF assms])

lemma inet_fmt_full:
  assumes "16 \<le> len"
  shows "inet_fmt a len =
    show_dec (unat (byte_at 0 a)) @ CHR ''.'' # show_dec (unat (byte_at 1 a)) @ CHR ''.'' #
      show_dec (unat (byte_at 2 a)) @ CHR ''.'' # show_dec (unat (byte_at 3 a))"
proof -
  have b: "length (show_dec (unat (byte_at k a))) \<le> 3" for k
    using unat_le_max8 [of "byte_at k a"] by (intro length_show_dec) simp
  show ?thesis
    using assms b [of 0] b [of 1] b [of 2] b [of 3]
    by (simp add: inet_fmt_def snprintf_def)
qed

lemma inet_parse_inet_fmt:
  assumes "16 \<le> len"
  shows "inet_parse (inet_fmt a len) 4 = a"
proof -
  have n: "unat (byte_at k a) < 2 ^ 32" for k
    using unat_le_max8 [of "byte_at k a"] by simp
  have w: "\<not> 255 < (ucast (byte_at k a) :: u32)"
     "ucast (ucast (byte_at k a) :: u32) = byte_at k a" for k
    using unat_le_max8 [of "byte_at k a"]
    by (simp_all add: word_less_nat_alt word_unat_eq_iff unat_ucast_mod)
  have "inet_sscanf (inet_fmt a len) =
     (4, of_nat (unat (byte_at 0 a)), of_nat (unat (byte_at 1 a)),
         of_nat (unat (byte_at 2 a)), of_nat (unat (byte_at 3 a)))"
    unfolding inet_fmt_full [OF assms] inet_sscanf_def
    using n scan_dot_u_show_dec [where rest = "[]"]
    by (simp add: scan_u_show_dec scan_dot_u_show_dec)
  then show ?thesis using w by (simp add: inet_parse_def)
qed

lemma domask_bit_prefix:
  assumes "k < 32"
  shows "domask_bit (push_bit k (- 1)) = int k"
proof -
  have "find (bit (push_bit k (- 1) :: u32)) [0..<32] = Some k"
    using assms by (auto simp: find_Some_iff bit_simps intro!: exI [of _ k])
  moreover have "list_all (bit (push_bit k (- 1) :: u32)) [Suc k..<32]"
    by (auto simp: list_all_iff bit_simps)
  ultimately show ?thesis by (simp add: domask_bit_def)
qed

lemma netname_prefix:
  assumes "0 < n" and "n \<le> 32" and "forgemask (ntohl addr) \<noteq> ntohl (masklen_to_mask n)"
  shows "netname addr (masklen_to_mask n) = inet_fmt addr 16 @ ''/'' @ show_dec n"
proof -
  have line: "snprintf netname_size
            (show_dec (unat (byte_at 3 (ntohl addr))) @ ''.'' @ show_dec (unat (byte_at 2 (ntohl addr))) @ ''.'' @
             show_dec (unat (byte_at 1 (ntohl addr))) @ ''.'' @ show_dec (unat (byte_at 0 (ntohl addr))))
     = inet_fmt addr netname_size"
    by (simp add: inet_fmt_def ntohl_def)
  have e: "inet_fmt addr netname_size = inet_fmt addr 16"
    by (simp add: inet_fmt_full netname_size_def)
  have l: "length (inet_fmt addr 16) \<le> 15" by (simp add: inet_fmt_def snprintf_def)
  have m: "ntohl (masklen_to_mask n) \<noteq> 0" "ntohl (masklen_to_mask n) = push_bit (32 - n) (- 1)"
    using assms(1,2) masklen_to_mask_less [of 0 n] ntohl_masklen_to_mask [of n] by auto
  have "length (show_dec n) \<le> 3" using assms(2) by (intro length_show_dec) simp
  then have "domask (netname_size - length (inet_fmt addr 16)) (ntohl addr) (ntohl (masklen_to_mask n))
     = ''/'' @ show_dec n"
    using assms m l domask_bit_prefix [of "32 - n"]
    by (simp add: domask_def snprintf_def netname_size_def nat_diff_distrib)
  then show ?thesis by (simp only: netname_def Let_def line e)
qed


section \<open>The checksum verifies itself\<close>

lemma wsum_le: "wsum bs \<le> 65535 * (Suc (length bs) div 2)"
proof (induction bs rule: wsum.induct)
  case (1 a b w)
  with unat_le_max16 [of "le16 a b"] show ?case by simp
next
  case (2 a)
  from unat_le_max8 [of a] show ?case by simp
qed simp

lemma wsum_append: "even (length xs) \<Longrightarrow> wsum (xs @ ys) = wsum xs + wsum ys"
  by (induction xs rule: wsum.induct) auto

lemma unat_cksum_sum:
  "unat s + wsum bs < 2 ^ 32 \<Longrightarrow> unat (cksum_sum s bs) = unat s + wsum bs"
proof (induction s bs rule: cksum_sum.induct)
  case (1 s a b w)
  have "unat (ucast (le16 a b) :: u32) = unat (le16 a b)"
    by (simp add: unat_ucast_up)
  moreover have "unat (s + ucast (le16 a b)) = unat s + unat (ucast (le16 a b) :: u32)"
    using 1 calculation by (simp add: unat_word_ariths)
  ultimately show ?case using 1 by simp
next
  case (2 s a)
  have "unat (ucast a :: u32) = unat a"
    by (simp add: unat_ucast_up)
  with 2 show ?case by (simp add: unat_word_ariths)
qed simp

lemma unat_inet_cksum:
  assumes "wsum bs < 2 ^ 32"
  shows "unat (inet_cksum bs) = 65535 - cfold (wsum bs)"
proof -
  define s where "s = cksum_sum 0 bs"
  have us: "unat s = wsum bs"
    unfolding s_def using unat_cksum_sum [of 0 bs] assms by simp
  define t where "t = drop_bit 16 s + (s AND 0xffff)"
  have m: "(0xffff :: u32) = mask 16"
    by (simp add: mask_eq_exp_minus_1)
  have d: "unat (drop_bit 16 s) = wsum bs div 65536"
    by (simp add: unat_drop_bit_div us)
  have tb: "unat (s AND mask 16) = wsum bs mod 65536"
    by (simp add: unat_and_mask_mod us)
  have ut: "unat t = wsum bs div 65536 + wsum bs mod 65536"
    unfolding t_def m using d tb assms by (subst unat_word_ariths) (simp add: div_less less_mult_imp_div_less)
  define r where "r = t + drop_bit 16 t"
  have dr: "unat (drop_bit 16 t) = unat t div 65536"
    by (simp add: unat_drop_bit_div)
  have tb: "unat t < 2 * 65536"
    unfolding ut using assms by simp
  have ur: "unat r = unat t + unat t div 65536"
    unfolding r_def using dr tb by (subst unat_word_ariths) simp
  have "inet_cksum bs = NOT (ucast r)"
    by (simp add: inet_cksum_def Let_def s_def t_def r_def)
  moreover have "unat (ucast r :: u16) = unat r mod 65536"
    by (simp add: unsigned_ucast_eq take_bit_eq_mod)
  moreover have "unat (NOT x :: u16) = 65535 - unat x" for x
    by (simp add: unat_not)
  ultimately show ?thesis
    using ur ut by (simp add: cfold_def Let_def)
qed

lemma cfold_multiple:
  assumes "0 < S" "S < 2 ^ 32" "S mod 65535 = 0"
  shows "cfold S = 65535"
proof -
  from assms(3) obtain k where k: "S = 65535 * k" by (auto simp: dvd_def mod_eq_0_iff_dvd)
  with assms have "1 \<le> k" "k \<le> 65537" by auto
  show ?thesis
  proof (cases "k = 65537")
    case True
    then show ?thesis by (simp add: k cfold_def Let_def)
  next
    case False
    with \<open>1 \<le> k\<close> \<open>k \<le> 65537\<close> have "S = 65536 * (k - 1) + (65536 - k)" "65536 - k < 65536"
      by (auto simp: k)
    then have "S div 65536 = k - 1" "S mod 65536 = 65536 - k"
      by auto
    then show ?thesis using \<open>1 \<le> k\<close> \<open>k \<le> 65537\<close> False by (simp add: cfold_def Let_def)
  qed
qed

lemma cfold_cong:
  assumes "S < 2 ^ 32"
  shows "cfold S mod 65535 = S mod 65535" "cfold S \<le> 65535" "cfold S = 65535 \<Longrightarrow> 0 < S"
proof -
  define q r where "q = S div 65536" and "r = S mod 65536"
  have S: "S = 65536 * q + r" "q < 65536" "r < 65536"
    using assms by (auto simp: q_def r_def)
  have c: "cfold S = (if q + r < 65536 then q + r else q + r - 65535)"
  proof (cases "q + r < 65536")
    case True
    then show ?thesis by (simp add: cfold_def Let_def q_def [symmetric] r_def [symmetric])
  next
    case False
    have "(q + r) div 65536 = 1" by (rule div_nat_eqI) (use False S(2,3) in simp_all)
    moreover have "(q + r + 1) mod 65536 = q + r + 1 - 65536"
      using False S(2,3) by (simp add: le_mod_geq)
    ultimately show ?thesis using False by (simp add: cfold_def Let_def q_def [symmetric] r_def [symmetric])
  qed
  have "S = (q + r) + 65535 * q" using S(1) by simp
  then have "S mod 65535 = (q + r) mod 65535" by (metis mod_mult_self2)
  moreover have "(q + r - 65535) mod 65535 = (q + r) mod 65535" if "65536 \<le> q + r"
    using that by (simp add: le_mod_geq)
  ultimately show "cfold S mod 65535 = S mod 65535"
    by (simp add: c)
  show "cfold S \<le> 65535" unfolding c using S(2,3) by auto
  show "cfold S = 65535 \<Longrightarrow> 0 < S" by (rule ccontr) (simp add: cfold_def)
qed

lemma cfold_add_complement:
  assumes "S + 65535 < 2 ^ 32"
  shows "cfold (S + (65535 - cfold S)) = 65535"
proof (rule cfold_multiple)
  note c = cfold_cong [of S]
  show "0 < S + (65535 - cfold S)" using assms c(2,3) by (cases "cfold S = 65535") auto
  show "S + (65535 - cfold S) < 2 ^ 32" using assms by simp
  have "(S + (65535 - cfold S)) mod 65535 = (cfold S + (65535 - cfold S)) mod 65535"
    using c(1) assms by (metis add_lessD1 mod_add_left_eq)
  also have "\<dots> = 0" using c(2) assms by simp
  finally show "(S + (65535 - cfold S)) mod 65535 = 0" .
qed

lemma inet_cksum_complement:
  assumes "even (length pre)" and "length pre + length post + 2 \<le> 131068"
    and c: "c = inet_cksum (pre @ [0, 0] @ post)"
  shows "inet_cksum (pre @ [ucast c, ucast (drop_bit 8 c)] @ post) = 0"
proof -
  let ?z = "pre @ [0, 0] @ post" and ?f = "pre @ [ucast c, ucast (drop_bit 8 c)] @ post"
  define S where "S = wsum pre + wsum post"
  have z: "wsum ?z = S" by (simp add: wsum_append assms S_def le16_def be16_def)
  have "S \<le> 65535 * (Suc (length ?z) div 2)" unfolding z [symmetric] by (rule wsum_le)
  also have "\<dots> \<le> 65535 * 65534" using assms(2) by simp
  finally have S: "S + 65535 < 2 ^ 32" by simp
  have uc: "unat c = 65535 - cfold S" unfolding c using unat_inet_cksum [of ?z] S by (simp only: z)
  have f: "wsum ?f = S + unat c"
    by (simp add: wsum_append assms(1) S_def le16_def)
  have "wsum ?f < 2 ^ 32" using f uc S by simp
  then have "unat (inet_cksum ?f) = 65535 - cfold (S + unat c)"
    unfolding f [symmetric] by (rule unat_inet_cksum)
  also have "\<dots> = 0" unfolding uc using cfold_add_complement [OF S] by simp
  finally show ?thesis by (simp add: unat_eq_0)
qed


section \<open>Properties\<close>

text \<open>
  C33: A message whose checksum field holds the checksum computed with that field zero has the
  checksum zero, which is what a receiver tests: for any message of up to 131070 bytes with the
  field at an even offset, of an even or an odd length.
\<close>
theorem cksum_verifies:
  assumes "even (length pre)" "length pre + length post + 2 \<le> 131068"
    and "c = inet_cksum (pre @ [0, 0] @ post)"
  shows "inet_cksum (pre @ [ucast c, ucast (drop_bit 8 c)] @ post) = 0"
  by (rule inet_cksum_complement) (use assms in auto)

theorem cksum_verifies_witness:
  "inet_cksum ([0x20, 0] @ [ucast (inet_cksum ([0x20, 0] @ [0, 0] @ [7])), ucast (drop_bit 8 (inet_cksum ([0x20, 0] @ [0, 0] @ [7])))] @ [7]) = 0"
  by (rule cksum_verifies) simp_all

text \<open>
  C34: The bit trick that validates a mask is right, and the two macros that convert masks are each
  other's inverse on the masks it accepts: a mask is valid exactly when it is the prefix mask of the
  length \<open>MASK_TO_MASKLEN\<close> reads off it.  Masks compared as they lie in memory, in network order,
  compare as their lengths do.
\<close>
theorem mask_conversions:
  "(inet_valid_mask (ntohl m) \<longleftrightarrow> masklen_to_mask (mask_to_masklen m) = m) \<and>
   (inet_valid_mask (ntohl m) \<and> inet_valid_mask (ntohl m') \<and> m < m' \<longleftrightarrow>
     inet_valid_mask (ntohl m) \<and> inet_valid_mask (ntohl m') \<and> mask_to_masklen m < mask_to_masklen m')"
proof -
  have *: "inet_valid_mask (ntohl x) \<longleftrightarrow> mask_to_masklen x \<le> 32 \<and> masklen_to_mask (mask_to_masklen x) = x" for x
    using mask_to_masklen_inverse by (auto simp: valid_mask_masklen)
  have le: "mask_to_masklen x \<le> 32" for x
    by (simp add: mask_to_masklen_def mask_loop_le)
  have "inet_valid_mask (ntohl m) \<longleftrightarrow> masklen_to_mask (mask_to_masklen m) = m" using * le by blast
  moreover have "inet_valid_mask (ntohl m) \<and> inet_valid_mask (ntohl m') \<and> m < m' \<longleftrightarrow>
     inet_valid_mask (ntohl m) \<and> inet_valid_mask (ntohl m') \<and> mask_to_masklen m < mask_to_masklen m'"
    using * [of m] * [of m'] net_mask_less [OF le [of m] le [of m']] by metis
  ultimately show ?thesis by blast
qed

text \<open>
  A printed address reads back as the address it was printed from, in every buffer of at least
  sixteen bytes.
\<close>
theorem inet_fmt_roundtrip:
  assumes "16 \<le> len"
  shows "inet_parse (inet_fmt a len) 4 = a"
  by (rule inet_parse_inet_fmt) fact

theorem inet_fmt_roundtrip_witness:
  "inet_parse (inet_fmt 0x0100000a 16) 4 = 0x0100000a"
  by (rule inet_fmt_roundtrip) simp

text \<open>
  The subnet check accepts the default route and exactly the prefixes with no host bits whose
  first octet is that of a host address: not zero, not 127, below 224, with a class A network at
  least eight bits long.
\<close>
theorem valid_subnet_exactly:
  "inet_valid_subnet s m \<longleftrightarrow> s = 0 \<and> m = 0 \<or>
     (\<exists>n. n \<le> 32 \<and> m = masklen_to_mask n \<and> s AND m = s \<and>
        unat (byte_at 0 s) \<noteq> 0 \<and> unat (byte_at 0 s) \<noteq> 127 \<and> unat (byte_at 0 s) < 224 \<and>
        (128 \<le> unat (byte_at 0 s) \<or> 8 \<le> n))"
  unfolding inet_valid_subnet_iff inet_valid_host_octet
  by (intro disj_cong refl iff_exI) (auto simp: not_less)

end
