(* ===== verification/Pim_Encode.thy ===== *)
theory Pim_Encode
  imports Inet
begin

text \<open>
  The bounded writer and the message builders of \<^verbatim>\<open>src/pim_encode.c\<close>.  A writer is a position in
  the memory it writes to, the room left there and the sticky \<open>full\<close> flag.  The copy of
  \<open>pim_put\<close> fails (\<open>None\<close>) outside the memory, so that "the writer never writes past the end of
  its buffer" is that no builder has the value \<open>None\<close>.

  \<open>byte_sink\<close> is the contract of the writer: a chunk that fits is appended, one that does not
  leaves everything but the flag alone.  Each builder is shown to be a sequence of chunks handed to
  the writer, and its behaviour follows from the contract.
\<close>


section \<open>The writer\<close>

record pim_writer =
  w_mem :: bytes
  w_p :: nat
  w_left :: nat
  w_full :: bool

definition memcpy_at :: "bytes \<Rightarrow> nat \<Rightarrow> bytes \<Rightarrow> bytes option" where
  "memcpy_at mem p src =
     (if p + length src \<le> length mem
      then Some (take p mem @ src @ drop (p + length src) mem) else None)"

definition pim_writer_init :: "bytes \<Rightarrow> nat \<Rightarrow> nat \<Rightarrow> pim_writer" where
  "pim_writer_init mem buf len = \<lparr>w_mem = mem, w_p = buf, w_left = len, w_full = False\<rparr>"

definition pim_writer_room :: "pim_writer \<Rightarrow> nat \<Rightarrow> bool" where
  "pim_writer_room w n \<longleftrightarrow> \<not> w_full w \<and> n \<le> w_left w"

definition pim_writer_used :: "pim_writer \<Rightarrow> nat \<Rightarrow> nat" where
  "pim_writer_used w buf = w_p w - buf"

definition pim_put :: "pim_writer \<Rightarrow> bytes \<Rightarrow> (bool \<times> pim_writer) option" where
  "pim_put w src =
     (if \<not> pim_writer_room w (length src) then Some (False, w\<lparr>w_full := True\<rparr>)
      else do {
        mem \<leftarrow> memcpy_at (w_mem w) (w_p w) src;
        Some (True, w\<lparr>w_mem := mem, w_p := w_p w + length src, w_left := w_left w - length src\<rparr>) })"

definition pim_put_bytes :: "pim_writer \<Rightarrow> bytes \<Rightarrow> (bool \<times> pim_writer) option" where
  "pim_put_bytes w src = pim_put w src"

definition pim_put_u8 :: "pim_writer \<Rightarrow> u8 \<Rightarrow> (bool \<times> pim_writer) option" where
  "pim_put_u8 w val = pim_put w [val]"

definition pim_put_u16 :: "pim_writer \<Rightarrow> u16 \<Rightarrow> (bool \<times> pim_writer) option" where
  "pim_put_u16 w val = pim_put w [ucast (drop_bit 8 val AND 0xff), ucast (val AND 0xff)]"

definition pim_put_u32 :: "pim_writer \<Rightarrow> u32 \<Rightarrow> (bool \<times> pim_writer) option" where
  "pim_put_u32 w val =
     pim_put w [ucast (drop_bit 24 val AND 0xff), ucast (drop_bit 16 val AND 0xff),
                ucast (drop_bit 8 val AND 0xff), ucast (val AND 0xff)]"


section \<open>Encoded addresses\<close>

abbreviation (input) addrf_ipv4 :: u8 where "addrf_ipv4 \<equiv> 1"
abbreviation (input) addrt_ipv4 :: u8 where "addrt_ipv4 \<equiv> 0"

definition pim_put_euaddr :: "pim_writer \<Rightarrow> u32 \<Rightarrow> (bool \<times> pim_writer) option" where
  "pim_put_euaddr w addr = pim_put w ([addrf_ipv4, addrt_ipv4] @ mem32 addr)"

definition pim_put_egaddr :: "pim_writer \<Rightarrow> u32 \<Rightarrow> u8 \<Rightarrow> u8 \<Rightarrow> (bool \<times> pim_writer) option" where
  "pim_put_egaddr w addr masklen reserved =
     (let m = masklen_to_mask (unat masklen); addr = addr AND m in
      pim_put w ([addrf_ipv4, addrt_ipv4, reserved, masklen] @ mem32 addr))"

definition pim_put_esaddr :: "pim_writer \<Rightarrow> u32 \<Rightarrow> u8 \<Rightarrow> u8 \<Rightarrow> (bool \<times> pim_writer) option" where
  "pim_put_esaddr w addr masklen flags =
     (let m = masklen_to_mask (unat masklen); addr = addr AND m in
      pim_put w ([addrf_ipv4, addrt_ipv4, flags, masklen] @ mem32 addr))"


section \<open>Message bodies\<close>

definition pim_encode_register_stop :: "pim_writer \<Rightarrow> u32 \<Rightarrow> u32 \<Rightarrow> (bool \<times> pim_writer) option" where
  "pim_encode_register_stop w grp source = do {
     (_, w) \<leftarrow> pim_put_egaddr w grp 32 0;
     (_, w) \<leftarrow> pim_put_euaddr w source;
     Some (\<not> w_full w, w) }"

definition pim_encode_assert ::
    "pim_writer \<Rightarrow> u32 \<Rightarrow> u32 \<Rightarrow> u32 \<Rightarrow> u32 \<Rightarrow> (bool \<times> pim_writer) option" where
  "pim_encode_assert w grp source preference metric = do {
     (_, w) \<leftarrow> pim_encode_register_stop w grp source;
     (_, w) \<leftarrow> pim_put_u32 w preference;
     (_, w) \<leftarrow> pim_put_u32 w metric;
     Some (\<not> w_full w, w) }"

definition pim_encode_bsr_hdr ::
    "pim_writer \<Rightarrow> u16 \<Rightarrow> u8 \<Rightarrow> u8 \<Rightarrow> u32 \<Rightarrow> (bool \<times> pim_writer) option" where
  "pim_encode_bsr_hdr w frag_tag hash_masklen priority bsr = do {
     (_, w) \<leftarrow> pim_put_u16 w frag_tag;
     (_, w) \<leftarrow> pim_put_u8 w hash_masklen;
     (_, w) \<leftarrow> pim_put_u8 w priority;
     (_, w) \<leftarrow> pim_put_euaddr w bsr;
     Some (\<not> w_full w, w) }"

definition pim_encode_bsr_group ::
    "pim_writer \<Rightarrow> u32 \<Rightarrow> u8 \<Rightarrow> u8 \<Rightarrow> u8 \<Rightarrow> (bool \<times> pim_writer) option" where
  "pim_encode_bsr_group w grp masklen rp_count frag_rp_count = do {
     (_, w) \<leftarrow> pim_put_egaddr w grp masklen 0;
     (_, w) \<leftarrow> pim_put_u8 w rp_count;
     (_, w) \<leftarrow> pim_put_u8 w frag_rp_count;
     (_, w) \<leftarrow> pim_put_u16 w 0;
     Some (\<not> w_full w, w) }"

definition pim_encode_bsr_rp :: "pim_writer \<Rightarrow> u32 \<Rightarrow> u16 \<Rightarrow> u8 \<Rightarrow> (bool \<times> pim_writer) option" where
  "pim_encode_bsr_rp w rp holdtime priority = do {
     (_, w) \<leftarrow> pim_put_euaddr w rp;
     (_, w) \<leftarrow> pim_put_u16 w holdtime;
     (_, w) \<leftarrow> pim_put_u8 w priority;
     (_, w) \<leftarrow> pim_put_u8 w 0;
     Some (\<not> w_full w, w) }"

text \<open>
  \<open>*num_groups\<close>, \<open>*cnt\<close> and \<open>*hdr\<close> of the C are the positions the builders hand back for the
  caller to fill in later.
\<close>

definition pim_encode_jp_hdr :: "pim_writer \<Rightarrow> u32 \<Rightarrow> u16 \<Rightarrow> (bool \<times> nat \<times> pim_writer) option" where
  "pim_encode_jp_hdr w upstream holdtime = do {
     (_, w) \<leftarrow> pim_put_euaddr w upstream;
     (_, w) \<leftarrow> pim_put_u8 w 0;
     let num_groups = w_p w;
     (_, w) \<leftarrow> pim_put_u8 w 0;
     (_, w) \<leftarrow> pim_put_u16 w holdtime;
     Some (\<not> w_full w, num_groups, w) }"

definition pim_encode_jp_group ::
    "pim_writer \<Rightarrow> u32 \<Rightarrow> u8 \<Rightarrow> u16 \<Rightarrow> u16 \<Rightarrow> bytes \<Rightarrow> bytes \<Rightarrow> (bool \<times> pim_writer) option" where
  "pim_encode_jp_group w grp masklen num_joins num_prunes joins prunes = do {
     (_, w) \<leftarrow> pim_put_egaddr w grp masklen 0;
     (_, w) \<leftarrow> pim_put_u16 w num_joins;
     (_, w) \<leftarrow> pim_put_u16 w num_prunes;
     (_, w) \<leftarrow> pim_put_bytes w joins;
     (_, w) \<leftarrow> pim_put_bytes w prunes;
     Some (\<not> w_full w, w) }"

definition pim_encode_jp_source :: "pim_writer \<Rightarrow> u32 \<Rightarrow> u8 \<Rightarrow> u8 \<Rightarrow> (bool \<times> pim_writer) option" where
  "pim_encode_jp_source w source masklen flags = pim_put_esaddr w source masklen flags"

text \<open>The loop of \<open>pim_encode_hello\<close> over the secondary addresses.\<close>

fun pim_put_secaddrs :: "pim_writer \<Rightarrow> u32 list \<Rightarrow> pim_writer option" where
  "pim_put_secaddrs w [] = Some w"
| "pim_put_secaddrs w (a # secaddrs) = do {
     (_, w) \<leftarrow> pim_put_euaddr w a;
     pim_put_secaddrs w secaddrs }"

definition pim_encode_hello ::
    "pim_writer \<Rightarrow> u16 \<Rightarrow> u16 \<Rightarrow> u16 \<Rightarrow> u32 \<Rightarrow> u32 \<Rightarrow> u32 list \<Rightarrow> (bool \<times> pim_writer) option" where
  "pim_encode_hello w holdtime propagation_delay override_interval dr_prio genid secaddrs = do {
     (_, w) \<leftarrow> pim_put_u16 w 1;
     (_, w) \<leftarrow> pim_put_u16 w 2;
     (_, w) \<leftarrow> pim_put_u16 w holdtime;
     (_, w) \<leftarrow> pim_put_u16 w 2;
     (_, w) \<leftarrow> pim_put_u16 w 4;
     (_, w) \<leftarrow> pim_put_u16 w (propagation_delay AND NOT 0x8000);
     (_, w) \<leftarrow> pim_put_u16 w override_interval;
     (_, w) \<leftarrow> pim_put_u16 w 19;
     (_, w) \<leftarrow> pim_put_u16 w 4;
     (_, w) \<leftarrow> pim_put_u32 w dr_prio;
     (_, w) \<leftarrow> pim_put_u16 w 20;
     (_, w) \<leftarrow> pim_put_u16 w 4;
     (_, w) \<leftarrow> pim_put_u32 w genid;
     (if secaddrs = [] then Some (\<not> w_full w, w)
      else if 0xffff div 6 < length secaddrs then Some (False, w\<lparr>w_full := True\<rparr>)
      else do {
        (_, w) \<leftarrow> pim_put_u16 w 24;
        (_, w) \<leftarrow> pim_put_u16 w (of_nat (length secaddrs * 6));
        w \<leftarrow> pim_put_secaddrs w secaddrs;
        Some (\<not> w_full w, w) }) }"

definition pim_encode_crp_hdr :: "pim_writer \<Rightarrow> u8 \<Rightarrow> u16 \<Rightarrow> u32 \<Rightarrow> (bool \<times> nat \<times> pim_writer) option" where
  "pim_encode_crp_hdr w priority holdtime rp = do {
     let cnt = w_p w;
     (_, w) \<leftarrow> pim_put_u8 w 0;
     (_, w) \<leftarrow> pim_put_u8 w priority;
     (_, w) \<leftarrow> pim_put_u16 w holdtime;
     (_, w) \<leftarrow> pim_put_euaddr w rp;
     Some (\<not> w_full w, cnt, w) }"

definition pim_encode_crp_prefix :: "pim_writer \<Rightarrow> u32 \<Rightarrow> u8 \<Rightarrow> (bool \<times> pim_writer) option" where
  "pim_encode_crp_prefix w grp masklen = pim_put_egaddr w grp masklen 0"

definition pim_encode_null_register ::
    "pim_writer \<Rightarrow> u32 \<Rightarrow> u32 \<Rightarrow> u8 \<Rightarrow> (bool \<times> nat \<times> pim_writer) option" where
  "pim_encode_null_register w source grp ttl = do {
     (_, w) \<leftarrow> pim_put_u32 w 0x40000000;
     let hdr = w_p w;
     (_, w) \<leftarrow> pim_put_u8 w (push_bit 4 4 OR drop_bit 2 20);
     (_, w) \<leftarrow> pim_put_u8 w 0;
     (_, w) \<leftarrow> pim_put_u16 w 20;
     (_, w) \<leftarrow> pim_put_u16 w 0;
     (_, w) \<leftarrow> pim_put_u16 w 0;
     (_, w) \<leftarrow> pim_put_u8 w ttl;
     (_, w) \<leftarrow> pim_put_u8 w 103;
     (_, w) \<leftarrow> pim_put_u16 w 0;
     (_, w) \<leftarrow> pim_put_bytes w (mem32 source);
     (_, w) \<leftarrow> pim_put_bytes w (mem32 grp);
     Some (\<not> w_full w, hdr, w) }"


section \<open>Auto-RP\<close>

definition autorp_encode_hdr :: "pim_writer \<Rightarrow> u32 \<Rightarrow> u32 \<Rightarrow> u16 \<Rightarrow> (bool \<times> pim_writer) option" where
  "autorp_encode_hdr w type rpcnt holdtime = do {
     (_, w) \<leftarrow> pim_put_u8 w (ucast (push_bit 4 (1 AND 0x0f) OR (type AND 0x0f)));
     (_, w) \<leftarrow> pim_put_u8 w (ucast rpcnt);
     (_, w) \<leftarrow> pim_put_u16 w holdtime;
     (_, w) \<leftarrow> pim_put_u32 w 0;
     Some (\<not> w_full w, w) }"

definition autorp_encode_rp :: "pim_writer \<Rightarrow> u32 \<Rightarrow> u32 \<Rightarrow> (bool \<times> pim_writer) option" where
  "autorp_encode_rp w rp_addr grpcnt = do {
     (_, w) \<leftarrow> pim_put_bytes w (mem32 rp_addr);
     (_, w) \<leftarrow> pim_put_u8 w (2 AND 0x03);
     (_, w) \<leftarrow> pim_put_u8 w (ucast grpcnt);
     Some (\<not> w_full w, w) }"

definition autorp_encode_grp :: "pim_writer \<Rightarrow> u32 \<Rightarrow> u8 \<Rightarrow> bool \<Rightarrow> (bool \<times> pim_writer) option" where
  "autorp_encode_grp w group_addr masklen negative = do {
     (_, w) \<leftarrow> pim_put_u8 w (if negative then 1 else 0);
     (_, w) \<leftarrow> pim_put_u8 w masklen;
     (_, w) \<leftarrow> pim_put_bytes w (mem32 group_addr);
     Some (\<not> w_full w, w) }"


section \<open>The bytes of the fields\<close>

text \<open>What each field looks like on the wire, apart from any writer.\<close>

definition be16b :: "u16 \<Rightarrow> bytes" where
  "be16b v = [ucast (drop_bit 8 v), ucast v]"

definition be32b :: "u32 \<Rightarrow> bytes" where
  "be32b v = [byte_at 3 v, byte_at 2 v, byte_at 1 v, byte_at 0 v]"

definition euaddr_bytes :: "u32 \<Rightarrow> bytes" where
  "euaddr_bytes a = [addrf_ipv4, addrt_ipv4] @ mem32 a"

definition eaddr_bytes :: "u32 \<Rightarrow> u8 \<Rightarrow> u8 \<Rightarrow> bytes" where
  "eaddr_bytes a masklen r =
     [addrf_ipv4, addrt_ipv4, r, masklen] @ mem32 (a AND masklen_to_mask (unat masklen))"

definition hello_chunks :: "u16 \<Rightarrow> u16 \<Rightarrow> u16 \<Rightarrow> u32 \<Rightarrow> u32 \<Rightarrow> u32 list \<Rightarrow> bytes list" where
  "hello_chunks holdtime pd oi dr_prio genid sec =
     map be16b [1, 2, holdtime, 2, 4, pd AND NOT 0x8000, oi, 19, 4] @ [be32b dr_prio] @
     map be16b [20, 4] @ [be32b genid] @
     (if sec = [] then [] else map be16b [24, of_nat (length sec * 6)] @ map euaddr_bytes sec)"


section \<open>The contract of a byte sink\<close>

text \<open>
  What a builder relies on, whatever the sink is: \<open>out\<close> is what has been written, \<open>room\<close> what
  still fits.  \<open>puts\<close> hands a list of chunks to a sink one after the other.
\<close>

fun puts :: "('w \<Rightarrow> bytes \<Rightarrow> (bool \<times> 'w) option) \<Rightarrow> 'w \<Rightarrow> bytes list \<Rightarrow> 'w option" where
  "puts put w [] = Some w"
| "puts put w (c # cs) = do { (_, w) \<leftarrow> put w c; puts put w cs }"

locale byte_sink =
  fixes put :: "'w \<Rightarrow> bytes \<Rightarrow> (bool \<times> 'w) option"
    and out :: "'w \<Rightarrow> bytes"
    and room :: "'w \<Rightarrow> nat"
    and full :: "'w \<Rightarrow> bool"
    and invar :: "'w \<Rightarrow> bool"
  assumes put_fits: "invar w \<Longrightarrow> \<not> full w \<Longrightarrow> length c \<le> room w \<Longrightarrow>
      \<exists>w'. put w c = Some (True, w') \<and> invar w' \<and> \<not> full w' \<and> out w' = out w @ c \<and>
           room w' = room w - length c"
    and put_stuck: "invar w \<Longrightarrow> full w \<or> room w < length c \<Longrightarrow>
      \<exists>w'. put w c = Some (False, w') \<and> invar w' \<and> full w' \<and> out w' = out w \<and> room w' = room w"
begin

lemma puts_full:
  assumes "invar w" and "full w"
  shows "\<exists>w'. puts put w cs = Some w' \<and> invar w' \<and> full w' \<and> out w' = out w \<and> room w' = room w"
  using assms
proof (induction cs arbitrary: w)
  case (Cons c cs)
  with put_stuck [of w c] obtain w1 where w1: "put w c = Some (False, w1)" "invar w1" "full w1"
    "out w1 = out w" "room w1 = room w" by blast
  with Cons.IH [of w1] show ?case by auto
qed simp

text \<open>Chunks that fit together are all written, in order.\<close>

lemma puts_fit:
  assumes "invar w" and "\<not> full w" and "length (concat cs) \<le> room w"
  shows "\<exists>w'. puts put w cs = Some w' \<and> invar w' \<and> \<not> full w' \<and> out w' = out w @ concat cs \<and>
     room w' = room w - length (concat cs)"
  using assms
proof (induction cs arbitrary: w)
  case (Cons c cs)
  with put_fits [of w c] obtain w1 where w1: "put w c = Some (True, w1)" "invar w1" "\<not> full w1"
    "out w1 = out w @ c" "room w1 = room w - length c" by auto
  with Cons.IH [of w1] Cons.prems(3) show ?case by auto
qed simp

text \<open>Chunks that do not fit leave the sink full, with a prefix of the chunks written.\<close>

lemma puts_overflow:
  assumes "invar w" and "full w \<or> room w < length (concat cs)"
  shows "\<exists>w' k. puts put w cs = Some w' \<and> invar w' \<and> full w' \<and> out w' = out w @ concat (take k cs) \<and>
     room w' = room w - length (concat (take k cs))"
  using assms
proof (induction cs arbitrary: w)
  case Nil
  then show ?case by simp
next
  case (Cons c cs)
  show ?case
  proof (cases "full w \<or> room w < length c")
    case True
    then obtain w1 where w1: "put w c = Some (False, w1)" "invar w1" "full w1" "out w1 = out w"
      "room w1 = room w" using put_stuck Cons.prems(1) by blast
    with puts_full [of w1 cs] show ?thesis by (auto intro!: exI [of _ 0])
  next
    case False
    then obtain w1 where w1: "put w c = Some (True, w1)" "invar w1" "\<not> full w1" "out w1 = out w @ c"
      "room w1 = room w - length c" using put_fits [of w c] Cons.prems(1) by auto
    then have "full w1 \<or> room w1 < length (concat cs)" using Cons.prems(2) False by auto
    from Cons.IH [OF w1(2) this] obtain w' k where "puts put w1 cs = Some w'" "invar w'" "full w'"
      "out w' = out w1 @ concat (take k cs)" "room w' = room w1 - length (concat (take k cs))" by blast
    with w1 show ?thesis by (intro exI [of _ w'] exI [of _ "Suc k"]) auto
  qed
qed

lemma puts_total: "invar w \<Longrightarrow> \<exists>w'. puts put w cs = Some w' \<and> invar w'"
  using puts_fit [of w cs] puts_overflow [of w cs] by (metis not_le)

end


section \<open>The writer meets the contract\<close>

text \<open>
  A writer started at \<open>start\<close> over \<open>cap\<close> bytes of a memory that was \<open>orig\<close>: it is inside its
  buffer, the memory before the buffer and from the write position on is what it was.
\<close>

definition writer_inv :: "nat \<Rightarrow> nat \<Rightarrow> bytes \<Rightarrow> pim_writer \<Rightarrow> bool" where
  "writer_inv start cap orig w \<longleftrightarrow>
     length (w_mem w) = length orig \<and> start + cap \<le> length orig \<and> start \<le> w_p w \<and>
     w_p w + w_left w = start + cap \<and>
     take start (w_mem w) = take start orig \<and> drop (w_p w) (w_mem w) = drop (w_p w) orig"

definition written :: "nat \<Rightarrow> pim_writer \<Rightarrow> bytes" where
  "written start w = take (w_p w - start) (drop start (w_mem w))"

lemma written_put:
  assumes "start \<le> p" and "p \<le> length mem"
  shows "take (p + length c - start) (drop start (take p mem @ c @ rest)) =
     take (p - start) (drop start mem) @ c"
proof -
  have "length (take (p - start) (drop start mem)) = p - start" using assms by simp
  moreover have "p + length c - start = (p - start) + length c" using assms by simp
  moreover have "drop start (take p mem @ c @ rest) = take (p - start) (drop start mem) @ c @ rest"
    using assms by (simp add: drop_take)
  ultimately show ?thesis by simp
qed

lemma pim_put_fits:
  assumes inv: "writer_inv start cap orig w" and "\<not> w_full w" and "length c \<le> w_left w"
  shows "\<exists>w'. pim_put w c = Some (True, w') \<and> writer_inv start cap orig w' \<and> \<not> w_full w' \<and>
     written start w' = written start w @ c \<and> w_left w' = w_left w - length c"
proof -
  let ?m = "take (w_p w) (w_mem w) @ c @ drop (w_p w + length c) (w_mem w)"
  let ?w = "w\<lparr>w_mem := ?m, w_p := w_p w + length c, w_left := w_left w - length c\<rparr>"
  have p: "w_p w + length c \<le> length (w_mem w)" "start \<le> w_p w" "w_p w \<le> length (w_mem w)"
    using assms by (auto simp: writer_inv_def)
  have "pim_put w c = Some (True, ?w)"
    using assms p by (simp add: pim_put_def pim_writer_room_def memcpy_at_def)
  moreover have "drop (length c) (drop (w_p w) (w_mem w)) = drop (length c) (drop (w_p w) orig)"
    using inv by (simp only: writer_inv_def)
  then have "drop (w_p w + length c) (w_mem w) = drop (w_p w + length c) orig"
    by (simp add: add.commute)
  then have "writer_inv start cap orig ?w"
    using assms p by (simp add: writer_inv_def min_absorb2)
  moreover have "w_mem ?w = ?m" "w_p ?w = w_p w + length c" by simp_all
  then have "written start ?w = written start w @ c"
    unfolding written_def by (simp only: written_put [OF p(2,3)])
  ultimately show ?thesis using assms(2) by (intro exI [of _ ?w]) simp
qed

lemma pim_put_stuck:
  assumes "writer_inv start cap orig w" and "w_full w \<or> w_left w < length c"
  shows "\<exists>w'. pim_put w c = Some (False, w') \<and> writer_inv start cap orig w' \<and> w_full w' \<and>
     written start w' = written start w \<and> w_left w' = w_left w"
  using assms by (auto simp: pim_put_def pim_writer_room_def writer_inv_def written_def)

interpretation ws: byte_sink pim_put "written start" w_left w_full "writer_inv start cap orig"
  for start cap orig
  by unfold_locales (auto intro: pim_put_fits pim_put_stuck)


section \<open>Builders as sequences of chunks\<close>

lemma ucast_and_ff: "ucast (x AND 0xff) = (ucast x :: u8)" for x :: "'a::len word"
proof -
  have "ucast (x AND mask 8) = (ucast x :: u8)"
    by (rule bit_word_eqI) (auto simp: bit_simps dest: bit_imp_le_length)
  then show ?thesis by (simp add: mask_eq_exp_minus_1)
qed

lemma put_chunks [put_simps]:
  "pim_put_bytes w c = pim_put w c"
  "pim_put_u8 w v8 = pim_put w [v8]"
  "pim_put_u16 w v16 = pim_put w (be16b v16)"
  "pim_put_u32 w v32 = pim_put w (be32b v32)"
  "pim_put_euaddr w a = pim_put w (euaddr_bytes a)"
  "pim_put_egaddr w a ml r = pim_put w (eaddr_bytes a ml r)"
  "pim_put_esaddr w a ml r = pim_put w (eaddr_bytes a ml r)"
  by (simp_all add: pim_put_bytes_def pim_put_u8_def pim_put_u16_def pim_put_u32_def pim_put_euaddr_def
      pim_put_egaddr_def pim_put_esaddr_def be16b_def be32b_def euaddr_bytes_def eaddr_bytes_def
      ucast_and_ff byte_at_def)

lemma puts_append: "puts put w (xs @ ys) = do { w \<leftarrow> puts put w xs; puts put w ys }"
  by (induction xs arbitrary: w) (auto simp: split_def)

lemma put_secaddrs_chunks: "pim_put_secaddrs w as = puts pim_put w (map euaddr_bytes as)"
  by (induction as arbitrary: w) (simp_all add: put_simps)

lemma register_stop_chunks:
  "pim_encode_register_stop w grp source = do {
     w \<leftarrow> puts pim_put w [eaddr_bytes grp 32 0, euaddr_bytes source];
     Some (\<not> w_full w, w) }"
  by (simp add: pim_encode_register_stop_def put_simps split_def)

lemma assert_chunks:
  "pim_encode_assert w grp source preference metric = do {
     w \<leftarrow> puts pim_put w [eaddr_bytes grp 32 0, euaddr_bytes source, be32b preference, be32b metric];
     Some (\<not> w_full w, w) }"
  by (simp add: pim_encode_assert_def pim_encode_register_stop_def put_simps split_def)

lemma bsr_hdr_chunks:
  "pim_encode_bsr_hdr w frag_tag hash_masklen priority bsr = do {
     w \<leftarrow> puts pim_put w [be16b frag_tag, [hash_masklen], [priority], euaddr_bytes bsr];
     Some (\<not> w_full w, w) }"
  by (simp add: pim_encode_bsr_hdr_def put_simps split_def)

lemma bsr_group_chunks:
  "pim_encode_bsr_group w grp masklen rp_count frag_rp_count = do {
     w \<leftarrow> puts pim_put w [eaddr_bytes grp masklen 0, [rp_count], [frag_rp_count], be16b 0];
     Some (\<not> w_full w, w) }"
  by (simp add: pim_encode_bsr_group_def put_simps split_def)

lemma bsr_rp_chunks:
  "pim_encode_bsr_rp w rp holdtime priority = do {
     w \<leftarrow> puts pim_put w [euaddr_bytes rp, be16b holdtime, [priority], [0]];
     Some (\<not> w_full w, w) }"
  by (simp add: pim_encode_bsr_rp_def put_simps split_def)

lemma jp_hdr_chunks:
  "pim_encode_jp_hdr w upstream holdtime = do {
     w1 \<leftarrow> puts pim_put w [euaddr_bytes upstream, [0]];
     w \<leftarrow> puts pim_put w1 [[0], be16b holdtime];
     Some (\<not> w_full w, w_p w1, w) }"
  by (simp add: pim_encode_jp_hdr_def put_simps split_def)

lemma jp_group_chunks:
  "pim_encode_jp_group w grp masklen num_joins num_prunes joins prunes = do {
     w \<leftarrow> puts pim_put w [eaddr_bytes grp masklen 0, be16b num_joins, be16b num_prunes, joins, prunes];
     Some (\<not> w_full w, w) }"
  by (simp add: pim_encode_jp_group_def put_simps split_def)

lemma hello_puts:
  "pim_encode_hello w holdtime pd oi dr_prio genid sec =
     (if 0xffff div 6 < length sec
      then do { w \<leftarrow> puts pim_put w (hello_chunks holdtime pd oi dr_prio genid []);
                Some (False, w\<lparr>w_full := True\<rparr>) }
      else do { w \<leftarrow> puts pim_put w (hello_chunks holdtime pd oi dr_prio genid sec);
                Some (\<not> w_full w, w) })"
  by (simp add: pim_encode_hello_def put_simps split_def hello_chunks_def put_secaddrs_chunks
      cong: if_cong)

lemma crp_hdr_chunks:
  "pim_encode_crp_hdr w priority holdtime rp = do {
     w' \<leftarrow> puts pim_put w [[0], [priority], be16b holdtime, euaddr_bytes rp];
     Some (\<not> w_full w', w_p w, w') }"
  by (simp add: pim_encode_crp_hdr_def put_simps split_def)

lemma null_register_chunks:
  "pim_encode_null_register w source grp ttl = do {
     w1 \<leftarrow> puts pim_put w [be32b 0x40000000];
     w \<leftarrow> puts pim_put w1 ([[0x45], [0]] @ map be16b [20, 0, 0] @ [[ttl], [103]] @ [be16b 0] @
       [mem32 source, mem32 grp]);
     Some (\<not> w_full w, w_p w1, w) }"
  by (simp add: pim_encode_null_register_def put_simps split_def)

lemma autorp_chunks:
  "autorp_encode_hdr w type rpcnt holdtime = do {
     w \<leftarrow> puts pim_put w [[ucast (push_bit 4 (1 AND 0x0f) OR (type AND 0x0f))], [ucast rpcnt],
       be16b holdtime, be32b 0];
     Some (\<not> w_full w, w) }"
  "autorp_encode_rp w rp_addr grpcnt = do {
     w \<leftarrow> puts pim_put w [mem32 rp_addr, [2], [ucast grpcnt]];
     Some (\<not> w_full w, w) }"
  "autorp_encode_grp w group_addr masklen negative = do {
     w \<leftarrow> puts pim_put w [[if negative then 1 else 0], [masklen], mem32 group_addr];
     Some (\<not> w_full w, w) }"
  by (simp_all add: autorp_encode_hdr_def autorp_encode_rp_def autorp_encode_grp_def put_simps split_def)


section \<open>Properties\<close>

lemma written_all_or_full:
  assumes inv: "writer_inv start cap orig w" and "\<not> w_full w"
  shows "\<exists>w'. puts pim_put w cs = Some w' \<and> writer_inv start cap orig w' \<and>
    w_full w' = (w_left w < length (concat cs)) \<and> (w_full w' \<or> written start w' = written start w @ concat cs)"
proof (cases "length (concat cs) \<le> w_left w")
  case True
  then show ?thesis using ws.puts_fit [OF inv assms(2), of cs] by auto
next
  case False
  then show ?thesis using ws.puts_overflow [OF inv, of cs] by auto
qed

text \<open>
  What a builder that writes the message \<open>m\<close> owes its caller.
\<close>

definition put_whole :: "nat \<Rightarrow> nat \<Rightarrow> bytes \<Rightarrow> pim_writer \<Rightarrow> (bool \<times> pim_writer) option \<Rightarrow> bytes \<Rightarrow> bool" where
  "put_whole start cap orig w r m \<longleftrightarrow> (\<exists>ok w'. r = Some (ok, w') \<and> writer_inv start cap orig w' \<and>
     ok = (length m \<le> w_left w) \<and> (\<not> ok \<or> written start w' = written start w @ m))"

lemma puts_whole:
  assumes "writer_inv start cap orig w" "\<not> w_full w" "concat cs = m"
  shows "put_whole start cap orig w (do { w' \<leftarrow> puts pim_put w cs; Some (\<not> w_full w', w') }) m"
  using written_all_or_full [OF assms(1,2), of cs] assms(3) by (auto simp: put_whole_def not_less)

text \<open>
  C22: A builder never writes outside the buffer it was given, whatever the values and however small
  the buffer: it returns, keeps the bytes before and behind the buffer, reports success exactly when
  the whole message fitted, and then has appended exactly its message.  Stated of the builders of an
  Assert, a Register-Stop, a Join/Prune group, a Bootstrap header and RP record, and a Hello of at
  most 10922 secondary addresses.
\<close>
theorem builders_bounded:
  assumes "writer_inv start cap orig w" "\<not> w_full w" "length sec \<le> 10922"
  shows "put_whole start cap orig w (pim_encode_assert w g s pref metric)
      (eaddr_bytes g 32 0 @ euaddr_bytes s @ be32b pref @ be32b metric) \<and>
    put_whole start cap orig w (pim_encode_register_stop w g s) (eaddr_bytes g 32 0 @ euaddr_bytes s) \<and>
    put_whole start cap orig w (pim_encode_jp_group w g ml nj np joins prunes)
      (eaddr_bytes g ml 0 @ be16b nj @ be16b np @ joins @ prunes) \<and>
    put_whole start cap orig w (pim_encode_bsr_hdr w tag hm prio addr) (be16b tag @ [hm, prio] @ euaddr_bytes addr) \<and>
    put_whole start cap orig w (pim_encode_bsr_rp w addr ht prio) (euaddr_bytes addr @ be16b ht @ [prio, 0]) \<and>
    put_whole start cap orig w (pim_encode_hello w ht pd oi dp gid sec) (concat (hello_chunks ht pd oi dp gid sec))"
proof -
  have "\<not> 0xffff div 6 < length sec" using assms(3) by simp
  then have hello: "pim_encode_hello w ht pd oi dp gid sec =
      do { w \<leftarrow> puts pim_put w (hello_chunks ht pd oi dp gid sec); Some (\<not> w_full w, w) }"
    by (simp only: hello_puts if_False)
  show ?thesis
    unfolding assert_chunks register_stop_chunks jp_group_chunks bsr_hdr_chunks bsr_rp_chunks hello
    by (intro conjI puts_whole assms(1,2)) simp_all
qed

theorem builders_bounded_witness:
  "\<exists>ok w'. pim_encode_register_stop (pim_writer_init [9, 9, 9, 9] 1 2) 1 2 = Some (ok, w') \<and> writer_inv 1 2 [9, 9, 9, 9] w' \<and> \<not> ok"
proof -
  let ?w = "pim_writer_init [9, 9, 9, 9] 1 2"
  have "writer_inv 1 2 [9, 9, 9, 9] ?w" "\<not> w_full ?w" "length ([] :: u32 list) \<le> 10922"
    by (simp_all add: writer_inv_def pim_writer_init_def)
  from builders_bounded [OF this, of 1 2 0 0 0 0 0 "[]" "[]" 0 0 0 0 0 0 0 0 0]
  have "put_whole 1 2 [9, 9, 9, 9] ?w (pim_encode_register_stop ?w 1 2) (eaddr_bytes 1 32 0 @ euaddr_bytes 2)" by blast
  then show ?thesis by (auto simp: put_whole_def pim_writer_init_def eaddr_bytes_def euaddr_bytes_def)
qed

end
