(* ===== verification/Pim_Parse.thy ===== *)
theory Pim_Parse
  imports Inet
begin

text \<open>
  The decoders of \<^verbatim>\<open>src/pim_parse.c\<close>: bytes in, fields out.  A message is the list of its bytes,
  the \<open>len\<close> argument of the C is its length, a pointer into it is an offset and a null pointer is
  \<open>None\<close> in the fields that may be null.  Every byte is read with \<open>rd\<close>, so a decoder that has
  the value \<open>Some\<close> has stayed inside the message.  The return codes of the C are datatypes.
\<close>


section \<open>Encoded addresses\<close>

record pim_encod_uni_addr =
  eua_addr_family :: u8
  eua_encod_type :: u8
  eua_unicast_addr :: u32

record pim_encod_grp_addr =
  ega_addr_family :: u8
  ega_encod_type :: u8
  ega_reserved :: u8
  ega_masklen :: u8
  ega_mcast_addr :: u32

record pim_encod_src_addr =
  esa_addr_family :: u8
  esa_encod_type :: u8
  esa_flags :: u8
  esa_masklen :: u8
  esa_src_addr :: u32

definition get_euaddr :: "bytes \<Rightarrow> nat \<Rightarrow> (pim_encod_uni_addr \<times> nat) option" where
  "get_euaddr msg p = do {
     (family, p) \<leftarrow> get_byte msg p;
     (etype, p) \<leftarrow> get_byte msg p;
     (a, p) \<leftarrow> get_netlong msg p;
     Some (\<lparr>eua_addr_family = family, eua_encod_type = etype, eua_unicast_addr = a\<rparr>, p) }"

definition get_egaddr :: "bytes \<Rightarrow> nat \<Rightarrow> (pim_encod_grp_addr \<times> nat) option" where
  "get_egaddr msg p = do {
     (family, p) \<leftarrow> get_byte msg p;
     (etype, p) \<leftarrow> get_byte msg p;
     (reserved, p) \<leftarrow> get_byte msg p;
     (masklen, p) \<leftarrow> get_byte msg p;
     (a, p) \<leftarrow> get_netlong msg p;
     Some (\<lparr>ega_addr_family = family, ega_encod_type = etype, ega_reserved = reserved,
            ega_masklen = masklen, ega_mcast_addr = a\<rparr>, p) }"

definition get_esaddr :: "bytes \<Rightarrow> nat \<Rightarrow> (pim_encod_src_addr \<times> nat) option" where
  "get_esaddr msg p = do {
     (family, p) \<leftarrow> get_byte msg p;
     (etype, p) \<leftarrow> get_byte msg p;
     (flags, p) \<leftarrow> get_byte msg p;
     (masklen, p) \<leftarrow> get_byte msg p;
     (a, p) \<leftarrow> get_netlong msg p;
     Some (\<lparr>esa_addr_family = family, esa_encod_type = etype, esa_flags = flags,
            esa_masklen = masklen, esa_src_addr = a\<rparr>, p) }"


section \<open>The cursor\<close>

record pim_cursor =
  c_p :: nat
  c_left :: nat

definition cursor_step :: "'z pim_cursor_scheme \<Rightarrow> nat \<Rightarrow> 'z pim_cursor_scheme" where
  "cursor_step c n = c\<lparr>c_p := c_p c + n, c_left := c_left c - n\<rparr>"


section \<open>Hello\<close>

record pim_hello_opts =
  ho_holdtime :: u16
  ho_holdtime_present :: bool
  ho_dr_prio :: u32
  ho_dr_prio_present :: bool
  ho_genid :: u32
  ho_lan_delay_present :: bool
  ho_tracking_support :: bool
  ho_propagation_delay :: u16
  ho_override_interval :: u16
  ho_addr_list :: "nat option"
  ho_addr_list_len :: u16
  ho_bad_type :: u16
  ho_bad_len :: u16
  ho_addr_list_refused :: nat
  ho_bad_family :: u8
  ho_bad_etype :: u8

definition hello_opts_zero :: pim_hello_opts where
  "hello_opts_zero =
     \<lparr>ho_holdtime = 0, ho_holdtime_present = False, ho_dr_prio = 0, ho_dr_prio_present = False,
      ho_genid = 0, ho_lan_delay_present = False, ho_tracking_support = False,
      ho_propagation_delay = 0, ho_override_interval = 0, ho_addr_list = None, ho_addr_list_len = 0,
      ho_bad_type = 0, ho_bad_len = 0, ho_addr_list_refused = 0, ho_bad_family = 0, ho_bad_etype = 0\<rparr>"

datatype hello_rc = PIM_HELLO_OK | PIM_HELLO_SHORT | PIM_HELLO_BADOPTLEN | PIM_HELLO_OPT | PIM_HELLO_END

definition pim_parse_hello_opt ::
    "bytes \<Rightarrow> pim_cursor \<Rightarrow> pim_hello_opts \<Rightarrow> (hello_rc \<times> pim_cursor \<times> pim_hello_opts) option" where
  "pim_parse_hello_opt msg c opts =
     (if c_left c < 4 then Some (PIM_HELLO_END, c, opts)
      else do {
        (opt_type, data) \<leftarrow> get_hostshort msg (c_p c);
        (opt_len, data) \<leftarrow> get_hostshort msg data;
        let rec_len = 4 + unat opt_len;
        let next = cursor_step c rec_len;
        let badlen = Some (PIM_HELLO_BADOPTLEN, c, opts\<lparr>ho_bad_type := opt_type, ho_bad_len := opt_len\<rparr>);
        (if c_left c < rec_len
         then Some (PIM_HELLO_SHORT, c, opts\<lparr>ho_bad_type := opt_type, ho_bad_len := opt_len\<rparr>)
         else if opt_type = 1 then
           (if opt_len \<noteq> 2 then badlen
            else do {
              (v, data) \<leftarrow> get_hostshort msg data;
              Some (PIM_HELLO_OPT, next, opts\<lparr>ho_holdtime_present := True, ho_holdtime := v\<rparr>) })
         else if opt_type = 19 then
           (if opt_len \<noteq> 4 then badlen
            else do {
              (v, data) \<leftarrow> get_hostlong msg data;
              Some (PIM_HELLO_OPT, next, opts\<lparr>ho_dr_prio_present := True, ho_dr_prio := v\<rparr>) })
         else if opt_type = 20 then
           (if opt_len \<noteq> 4 then badlen
            else do {
              (v, data) \<leftarrow> get_hostlong msg data;
              Some (PIM_HELLO_OPT, next, opts\<lparr>ho_genid := v\<rparr>) })
         else if opt_type = 2 then
           (if opt_len \<noteq> 4 then badlen
            else do {
              (delay, data) \<leftarrow> get_hostshort msg data;
              (oi, data) \<leftarrow> get_hostshort msg data;
              Some (PIM_HELLO_OPT, next,
                opts\<lparr>ho_lan_delay_present := True,
                     ho_tracking_support := (delay AND 0x8000 \<noteq> 0),
                     ho_propagation_delay := delay AND NOT 0x8000,
                     ho_override_interval := oi\<rparr>) })
         else if opt_type = 24 then
           Some (PIM_HELLO_OPT, next, opts\<lparr>ho_addr_list := Some data, ho_addr_list_len := opt_len\<rparr>)
         else Some (PIM_HELLO_OPT, next, opts)) })"

text \<open>
  The loop over the entries of an Address List: the first entry that is not IPv4, if there is one.
  The C counts a \<open>uint16_t\<close> up in steps of six to the length, a multiple of six here and so at most
  65532, which the counter reaches without wrapping.
\<close>

fun hello_addrs_loop :: "bytes \<Rightarrow> nat \<Rightarrow> nat \<Rightarrow> (u8 \<times> u8) option option" where
  "hello_addrs_loop msg p 0 = Some None"
| "hello_addrs_loop msg p (Suc n) = do {
     family \<leftarrow> rd msg p;
     etype \<leftarrow> rd msg (p + 1);
     (if family \<noteq> 1 \<or> etype \<noteq> 0 then Some (Some (family, etype))
      else hello_addrs_loop msg (p + 6) n) }"

definition hello_addrs_refuse :: "pim_hello_opts \<Rightarrow> pim_hello_opts" where
  "hello_addrs_refuse opts =
     opts\<lparr>ho_bad_len := ho_addr_list_len opts, ho_addr_list := None, ho_addr_list_len := 0\<rparr>"

definition pim_parse_hello_addrs :: "bytes \<Rightarrow> nat \<Rightarrow> pim_hello_opts \<Rightarrow> pim_hello_opts option" where
  "pim_parse_hello_addrs msg data opts =
     (if unat (ho_addr_list_len opts) mod 6 \<noteq> 0
      then Some (hello_addrs_refuse (opts\<lparr>ho_addr_list_refused := 1\<rparr>))
      else do {
        bad \<leftarrow> hello_addrs_loop msg data (unat (ho_addr_list_len opts) div 6);
        (case bad of
           None \<Rightarrow> Some opts
         | Some (family, etype) \<Rightarrow>
             Some (hello_addrs_refuse (opts\<lparr>ho_addr_list_refused := 2, ho_bad_family := family,
               ho_bad_etype := etype\<rparr>))) })"

lemma hello_opt_decreases:
  "pim_parse_hello_opt msg c opts = Some (PIM_HELLO_OPT, c', opts') \<Longrightarrow> c_left c' < c_left c"
  by (auto simp: pim_parse_hello_opt_def cursor_step_def Let_def split: if_splits bind_splits)

function pim_hello_walk ::
    "bytes \<Rightarrow> pim_cursor \<Rightarrow> pim_hello_opts \<Rightarrow> (hello_rc \<times> pim_cursor \<times> pim_hello_opts) option" where
  "pim_hello_walk msg c opts =
     (case pim_parse_hello_opt msg c opts of
        None \<Rightarrow> None
      | Some (rc, c', opts') \<Rightarrow>
          if rc = PIM_HELLO_OPT then pim_hello_walk msg c' opts' else Some (rc, c', opts'))"
  by pat_completeness auto
termination
  by (relation "measure (\<lambda>(msg, c, opts). c_left c)") (auto dest: hello_opt_decreases)

declare pim_hello_walk.simps [simp del]

definition pim_parse_hello :: "bytes \<Rightarrow> (hello_rc \<times> pim_hello_opts) option" where
  "pim_parse_hello msg =
     (if length msg < 4 then Some (PIM_HELLO_SHORT, hello_opts_zero)
      else do {
        (rc, _, opts) \<leftarrow> pim_hello_walk msg \<lparr>c_p = 4, c_left = length msg - 4\<rparr> hello_opts_zero;
        (if rc \<noteq> PIM_HELLO_END then Some (rc, opts)
         else case ho_addr_list opts of
           None \<Rightarrow> Some (PIM_HELLO_OK, opts)
         | Some data \<Rightarrow> do {
             opts \<leftarrow> pim_parse_hello_addrs msg data opts;
             Some (PIM_HELLO_OK, opts) }) })"

definition pim_hello_addr :: "bytes \<Rightarrow> pim_hello_opts \<Rightarrow> nat \<Rightarrow> u32 option" where
  "pim_hello_addr msg opts i = do {
     data \<leftarrow> ho_addr_list opts;
     (eua, _) \<leftarrow> get_euaddr msg (data + i * 6);
     Some (eua_unicast_addr eua) }"


section \<open>Join/Prune\<close>

record pim_jp =
  jp_upstream :: u32
  jp_holdtime :: u16
  jp_num_groups :: u8
  jp_groups :: "nat option"
  jp_bad_family :: u8
  jp_bad_etype :: u8
  jp_bad_masklen :: u8

record pim_jp_grp =
  jpg_group :: u32
  jpg_masklen :: u8
  jpg_num_j :: u16
  jpg_num_p :: u16
  jpg_srcs :: nat

record pim_jp_src =
  jps_addr :: u32
  jps_flags :: u8
  jps_masklen :: u8

datatype jp_rc = PIM_JP_OK | PIM_JP_SHORT | PIM_JP_UPSTREAM | PIM_JP_NOGROUPS | PIM_JP_TRUNCATED
  | PIM_JP_GRP_MASKLEN | PIM_JP_GRP_FAMILY | PIM_JP_SRC_FAMILY | PIM_JP_SRC_MASKLEN

definition jp_zero :: pim_jp where
  "jp_zero = \<lparr>jp_upstream = 0, jp_holdtime = 0, jp_num_groups = 0, jp_groups = None,
              jp_bad_family = 0, jp_bad_etype = 0, jp_bad_masklen = 0\<rparr>"

definition pim_join_prune_minlen :: nat where
  "pim_join_prune_minlen = 4 + 6 + 4"

definition pim_jp_grp_set_len :: nat where
  "pim_jp_grp_set_len = 8 + 4"

text \<open>The cursor the C leaves alone when the header is refused is returned here as it came in.\<close>

definition pim_parse_jp_hdr :: "bytes \<Rightarrow> pim_cursor \<Rightarrow> pim_jp \<Rightarrow> (jp_rc \<times> pim_cursor \<times> pim_jp) option" where
  "pim_parse_jp_hdr msg c jp =
     (if length msg < pim_join_prune_minlen then Some (PIM_JP_SHORT, c, jp)
      else do {
        (eua, data) \<leftarrow> get_euaddr msg 4;
        let data = data + 1;
        (ng, data) \<leftarrow> get_byte msg data;
        (ht, data) \<leftarrow> get_hostshort msg data;
        let jp = jp\<lparr>jp_num_groups := ng, jp_holdtime := ht\<rparr>;
        (if eua_addr_family eua \<noteq> 1 \<or> eua_encod_type eua \<noteq> 0
         then Some (PIM_JP_UPSTREAM, c,
                jp\<lparr>jp_bad_family := eua_addr_family eua, jp_bad_etype := eua_encod_type eua\<rparr>)
         else if ng = 0 then Some (PIM_JP_NOGROUPS, c, jp)
         else Some (PIM_JP_OK, \<lparr>c_p = data, c_left = length msg - pim_join_prune_minlen\<rparr>,
                jp\<lparr>jp_upstream := eua_unicast_addr eua, jp_groups := Some data\<rparr>)) })"

definition pim_parse_jp_set ::
    "bytes \<Rightarrow> pim_cursor \<Rightarrow> pim_jp \<Rightarrow> (jp_rc \<times> pim_cursor \<times> pim_cursor \<times> pim_jp) option" where
  "pim_parse_jp_set msg c jp =
     (let none = \<lparr>c_p = 0, c_left = 0\<rparr> in
      if c_left c < pim_jp_grp_set_len then Some (PIM_JP_TRUNCATED, c, none, jp)
      else do {
        let p = c_p c;
        masklen \<leftarrow> rd msg (p + 3);
        family \<leftarrow> rd msg p;
        etype \<leftarrow> rd msg (p + 1);
        (if 32 < masklen then Some (PIM_JP_GRP_MASKLEN, c, none, jp\<lparr>jp_bad_masklen := masklen\<rparr>)
         else if family \<noteq> 1 \<or> etype \<noteq> 0
         then Some (PIM_JP_GRP_FAMILY, c, none, jp\<lparr>jp_bad_family := family, jp_bad_etype := etype\<rparr>)
         else do {
           let p = p + 8;
           (num_j, p) \<leftarrow> get_hostshort msg p;
           (num_p, p) \<leftarrow> get_hostshort msg p;
           let srclen = (unat num_j + unat num_p) * 8;
           (if c_left c - pim_jp_grp_set_len < srclen then Some (PIM_JP_TRUNCATED, c, none, jp)
            else Some (PIM_JP_OK, cursor_step c (pim_jp_grp_set_len + srclen),
                   \<lparr>c_p = p, c_left = srclen\<rparr>, jp)) }) })"

text \<open>The loop over the sources of a set, \<open>left\<close> bytes in steps of eight.\<close>

function pim_parse_jp_srcs :: "bytes \<Rightarrow> nat \<Rightarrow> nat \<Rightarrow> pim_jp \<Rightarrow> (jp_rc \<times> pim_jp) option" where
  "pim_parse_jp_srcs msg p left jp =
     (if left = 0 then Some (PIM_JP_OK, jp)
      else do {
        family \<leftarrow> rd msg p;
        etype \<leftarrow> rd msg (p + 1);
        masklen \<leftarrow> rd msg (p + 3);
        (if family \<noteq> 1 \<or> etype \<noteq> 0
         then Some (PIM_JP_SRC_FAMILY, jp\<lparr>jp_bad_family := family, jp_bad_etype := etype\<rparr>)
         else if masklen \<noteq> 32 then Some (PIM_JP_SRC_MASKLEN, jp\<lparr>jp_bad_masklen := masklen\<rparr>)
         else pim_parse_jp_srcs msg (p + 8) (left - 8) jp) })"
  by pat_completeness auto
termination
  by (relation "measure (\<lambda>(msg, p, left, jp). left)") auto

declare pim_parse_jp_srcs.simps [simp del]

fun pim_parse_jp_sets :: "bytes \<Rightarrow> nat \<Rightarrow> pim_cursor \<Rightarrow> pim_jp \<Rightarrow> (jp_rc \<times> pim_jp) option" where
  "pim_parse_jp_sets msg 0 c jp = Some (PIM_JP_OK, jp)"
| "pim_parse_jp_sets msg (Suc n) c jp = do {
     (rc, c, srcs, jp) \<leftarrow> pim_parse_jp_set msg c jp;
     (rc, jp) \<leftarrow> (if rc = PIM_JP_OK then pim_parse_jp_srcs msg (c_p srcs) (c_left srcs) jp
                  else Some (rc, jp));
     (if rc \<noteq> PIM_JP_OK then Some (rc, jp) else pim_parse_jp_sets msg n c jp) }"

definition pim_parse_jp :: "bytes \<Rightarrow> (jp_rc \<times> pim_jp) option" where
  "pim_parse_jp msg = do {
     (rc, c, jp) \<leftarrow> pim_parse_jp_hdr msg \<lparr>c_p = 0, c_left = 0\<rparr> jp_zero;
     (if rc \<noteq> PIM_JP_OK then Some (rc, jp)
      else pim_parse_jp_sets msg (unat (jp_num_groups jp)) c jp) }"

definition pim_jp_group :: "bytes \<Rightarrow> nat \<Rightarrow> (nat \<times> pim_jp_grp) option" where
  "pim_jp_group msg at = do {
     (ega, p) \<leftarrow> get_egaddr msg at;
     (num_j, p) \<leftarrow> get_hostshort msg p;
     (num_p, p) \<leftarrow> get_hostshort msg p;
     Some (p + (unat num_j + unat num_p) * 8,
       \<lparr>jpg_group = ega_mcast_addr ega, jpg_masklen = ega_masklen ega, jpg_num_j = num_j,
        jpg_num_p = num_p, jpg_srcs = p\<rparr>) }"

definition pim_jp_source :: "bytes \<Rightarrow> pim_jp_grp \<Rightarrow> nat \<Rightarrow> pim_jp_src option" where
  "pim_jp_source msg grp i = do {
     (esa, _) \<leftarrow> get_esaddr msg (jpg_srcs grp + i * 8);
     Some \<lparr>jps_addr = esa_src_addr esa, jps_flags = esa_flags esa, jps_masklen = esa_masklen esa\<rparr> }"


section \<open>Bootstrap\<close>

record pim_bsr =
  bsr_frag_tag :: u16
  bsr_hash_masklen :: u8
  bsr_priority :: u8
  bsr_bsr :: u32
  bsr_no_forward :: int
  bsr_sets :: "nat option"
  bsr_num_sets :: nat
  bsr_bad_family :: u8
  bsr_bad_etype :: u8
  bsr_bad_masklen :: u8
  bsr_bad_count :: u8

record pim_bsr_grp =
  bg_grp :: pim_encod_grp_addr
  bg_rp_count :: u8
  bg_frag_rp_count :: u8
  bg_rps :: nat

record pim_bsr_rp_t =
  br_addr :: u32
  br_holdtime :: u16
  br_priority :: u8

datatype bsr_rc = PIM_BSR_OK | PIM_BSR_SHORT | PIM_BSR_FAMILY | PIM_BSR_HASH_MASKLEN
  | PIM_BSR_GRP_MASKLEN | PIM_BSR_GRP_FAMILY | PIM_BSR_TRUNCATED

definition bsr_zero :: pim_bsr where
  "bsr_zero = \<lparr>bsr_frag_tag = 0, bsr_hash_masklen = 0, bsr_priority = 0, bsr_bsr = 0,
     bsr_no_forward = 0, bsr_sets = None, bsr_num_sets = 0, bsr_bad_family = 0,
     bsr_bad_etype = 0, bsr_bad_masklen = 0, bsr_bad_count = 0\<rparr>"

definition pim_bootstrap_minlen :: nat where
  "pim_bootstrap_minlen = 4 + 4 + 6"

definition pim_bsr_grp_set_len :: nat where
  "pim_bsr_grp_set_len = 8 + 4"

definition pim_bsr_rp_len :: nat where
  "pim_bsr_rp_len = 6 + 4"

text \<open>\<open>pim_reserved\<close> is the second byte of the PIM header.\<close>

definition pim_parse_bsr_hdr :: "bytes \<Rightarrow> pim_cursor \<Rightarrow> pim_bsr \<Rightarrow> (bsr_rc \<times> pim_cursor \<times> pim_bsr) option" where
  "pim_parse_bsr_hdr msg c bsr =
     (if length msg < pim_bootstrap_minlen then Some (PIM_BSR_SHORT, c, bsr)
      else do {
        reserved \<leftarrow> rd msg 1;
        (tag, data) \<leftarrow> get_hostshort msg 4;
        (hm, data) \<leftarrow> get_byte msg data;
        (prio, data) \<leftarrow> get_byte msg data;
        (eua, data) \<leftarrow> get_euaddr msg data;
        let bsr = bsr\<lparr>bsr_no_forward := uint (reserved AND 0x80), bsr_frag_tag := tag,
                      bsr_hash_masklen := hm, bsr_priority := prio, bsr_bsr := eua_unicast_addr eua\<rparr>;
        (if eua_addr_family eua \<noteq> 1 \<or> eua_encod_type eua \<noteq> 0
         then Some (PIM_BSR_FAMILY, c,
                bsr\<lparr>bsr_bad_family := eua_addr_family eua, bsr_bad_etype := eua_encod_type eua\<rparr>)
         else if 32 < hm then Some (PIM_BSR_HASH_MASKLEN, c, bsr)
         else Some (PIM_BSR_OK, \<lparr>c_p = data, c_left = length msg - pim_bootstrap_minlen\<rparr>,
                bsr\<lparr>bsr_sets := Some data\<rparr>)) })"

definition pim_parse_bsr_set :: "bytes \<Rightarrow> pim_cursor \<Rightarrow> pim_bsr \<Rightarrow> (bsr_rc \<times> pim_cursor \<times> pim_bsr) option" where
  "pim_parse_bsr_set msg c bsr = do {
     let p = c_p c;
     masklen \<leftarrow> rd msg (p + 3);
     (if 32 < masklen then Some (PIM_BSR_GRP_MASKLEN, c, bsr\<lparr>bsr_bad_masklen := masklen\<rparr>)
      else do {
        family \<leftarrow> rd msg p;
        etype \<leftarrow> rd msg (p + 1);
        (if family \<noteq> 1 \<or> etype \<noteq> 0
         then Some (PIM_BSR_GRP_FAMILY, c, bsr\<lparr>bsr_bad_family := family, bsr_bad_etype := etype\<rparr>)
         else do {
           cnt \<leftarrow> rd msg (p + 8 + 1);
           let rplen = unat cnt * pim_bsr_rp_len;
           (if c_left c - pim_bsr_grp_set_len < rplen
            then Some (PIM_BSR_TRUNCATED, c, bsr\<lparr>bsr_bad_count := cnt\<rparr>)
            else Some (PIM_BSR_OK, cursor_step c (pim_bsr_grp_set_len + rplen), bsr)) }) }) }"

lemma bsr_set_decreases:
  "pim_parse_bsr_set msg c bsr = Some (PIM_BSR_OK, c', bsr') \<Longrightarrow>
     pim_bsr_grp_set_len + pim_bsr_rp_len \<le> c_left c \<Longrightarrow> c_left c' < c_left c"
  by (auto simp: pim_parse_bsr_set_def cursor_step_def pim_bsr_grp_set_len_def Let_def
      split: if_splits bind_splits)

function pim_bsr_walk :: "bytes \<Rightarrow> pim_cursor \<Rightarrow> pim_bsr \<Rightarrow> (bsr_rc \<times> pim_cursor \<times> pim_bsr) option" where
  "pim_bsr_walk msg c bsr =
     (if pim_bsr_grp_set_len + pim_bsr_rp_len \<le> c_left c then
        (case pim_parse_bsr_set msg c bsr of
           None \<Rightarrow> None
         | Some (rc, c', bsr') \<Rightarrow>
             if rc \<noteq> PIM_BSR_OK then Some (rc, c', bsr')
             else pim_bsr_walk msg c' (bsr'\<lparr>bsr_num_sets := bsr_num_sets bsr' + 1\<rparr>))
      else Some (PIM_BSR_OK, c, bsr))"
  by pat_completeness auto
termination
  by (relation "measure (\<lambda>(msg, c, bsr). c_left c)") (auto dest: bsr_set_decreases)

declare pim_bsr_walk.simps [simp del]

definition pim_parse_bsr :: "bytes \<Rightarrow> (bsr_rc \<times> pim_bsr) option" where
  "pim_parse_bsr msg = do {
     (rc, c, bsr) \<leftarrow> pim_parse_bsr_hdr msg \<lparr>c_p = 0, c_left = 0\<rparr> bsr_zero;
     (if rc \<noteq> PIM_BSR_OK then Some (rc, bsr)
      else do {
        (rc, _, bsr) \<leftarrow> pim_bsr_walk msg c bsr;
        Some (rc, bsr) }) }"

definition pim_bsr_group :: "bytes \<Rightarrow> nat \<Rightarrow> (nat \<times> pim_bsr_grp) option" where
  "pim_bsr_group msg at = do {
     (ega, p) \<leftarrow> get_egaddr msg at;
     (cnt, p) \<leftarrow> get_byte msg p;
     (frag, p) \<leftarrow> get_byte msg p;
     let p = p + 2;
     Some (p + unat frag * pim_bsr_rp_len,
       \<lparr>bg_grp = ega, bg_rp_count = cnt, bg_frag_rp_count = frag, bg_rps = p\<rparr>) }"

definition pim_bsr_rp :: "bytes \<Rightarrow> pim_bsr_grp \<Rightarrow> nat \<Rightarrow> pim_bsr_rp_t option" where
  "pim_bsr_rp msg grp i = do {
     (eua, p) \<leftarrow> get_euaddr msg (bg_rps grp + i * pim_bsr_rp_len);
     (ht, p) \<leftarrow> get_hostshort msg p;
     (prio, p) \<leftarrow> get_byte msg p;
     Some \<lparr>br_addr = eua_unicast_addr eua, br_holdtime = ht, br_priority = prio\<rparr> }"


section \<open>Candidate-RP-Advertisement\<close>

record pim_crp =
  crp_prefix_cnt :: u8
  crp_priority :: u8
  crp_holdtime :: u16
  crp_rp :: u32
  crp_prefixes :: "nat option"
  crp_num_prefixes :: u8
  crp_bad_family :: u8
  crp_bad_etype :: u8

datatype crp_rc = PIM_CRP_OK | PIM_CRP_SHORT | PIM_CRP_FAMILY

definition crp_zero :: pim_crp where
  "crp_zero = \<lparr>crp_prefix_cnt = 0, crp_priority = 0, crp_holdtime = 0, crp_rp = 0,
     crp_prefixes = None, crp_num_prefixes = 0, crp_bad_family = 0, crp_bad_etype = 0\<rparr>"

definition pim_cand_rp_adv_minlen :: nat where
  "pim_cand_rp_adv_minlen = 4 + 4 + 6"

definition pim_parse_crp :: "bytes \<Rightarrow> (crp_rc \<times> pim_crp) option" where
  "pim_parse_crp msg =
     (if length msg < pim_cand_rp_adv_minlen then Some (PIM_CRP_SHORT, crp_zero)
      else do {
        (cnt, data) \<leftarrow> get_byte msg 4;
        (prio, data) \<leftarrow> get_byte msg data;
        (ht, data) \<leftarrow> get_hostshort msg data;
        (eua, data) \<leftarrow> get_euaddr msg data;
        let crp = crp_zero\<lparr>crp_prefix_cnt := cnt, crp_priority := prio, crp_holdtime := ht,
                           crp_rp := eua_unicast_addr eua\<rparr>;
        let fit = (length msg - pim_cand_rp_adv_minlen) div 8;
        (if eua_addr_family eua \<noteq> 1 \<or> eua_encod_type eua \<noteq> 0
         then Some (PIM_CRP_FAMILY,
                crp\<lparr>crp_bad_family := eua_addr_family eua, crp_bad_etype := eua_encod_type eua\<rparr>)
         else Some (PIM_CRP_OK,
                crp\<lparr>crp_prefixes := Some data,
                    crp_num_prefixes := (if fit < unat cnt then of_nat fit else cnt)\<rparr>)) })"

definition pim_crp_prefix :: "bytes \<Rightarrow> pim_crp \<Rightarrow> nat \<Rightarrow> pim_encod_grp_addr option" where
  "pim_crp_prefix msg crp i = do {
     data \<leftarrow> crp_prefixes crp;
     (ega, _) \<leftarrow> get_egaddr msg (data + i * 8);
     Some ega }"


section \<open>Register\<close>

record pim_reg =
  reg_is_null :: bool
  reg_body :: "nat option"
  reg_inner :: "nat option"
  reg_avail :: nat
  reg_inner_version :: u8
  reg_inner_tos :: u8
  reg_inner_len :: u16
  reg_inner_src :: u32
  reg_inner_grp :: u32
  reg_whole :: bool
  reg_null_hlen :: nat
  reg_bad_hlen :: nat

datatype reg_rc = PIM_REG_OK | PIM_REG_SHORT | PIM_REG_VERSION | PIM_REG_NULL_HLEN

definition reg_zero :: pim_reg where
  "reg_zero = \<lparr>reg_is_null = False, reg_body = None, reg_inner = None, reg_avail = 0,
     reg_inner_version = 0, reg_inner_tos = 0, reg_inner_len = 0, reg_inner_src = 0,
     reg_inner_grp = 0, reg_whole = False, reg_null_hlen = 0, reg_bad_hlen = 0\<rparr>"

definition pim_register_minlen :: nat where
  "pim_register_minlen = 4 + 4 + 20"

definition pim_parse_register :: "bytes \<Rightarrow> (reg_rc \<times> pim_reg) option" where
  "pim_parse_register msg =
     (if length msg < pim_register_minlen then Some (PIM_REG_SHORT, reg_zero)
      else do {
        (flags, p) \<leftarrow> get_hostlong msg 4;
        let is_null = (flags AND 0x40000000 \<noteq> 0);
        vhl \<leftarrow> rd msg p;
        tos \<leftarrow> rd msg (p + 1);
        (ilen, _) \<leftarrow> get_hostshort msg (p + 2);
        (src, _) \<leftarrow> get_netlong msg (p + 12);
        (dst, _) \<leftarrow> get_netlong msg (p + 16);
        sum1 \<leftarrow> rd msg (p + 10);
        sum2 \<leftarrow> rd msg (p + 10 + 1);
        let reg = reg_zero\<lparr>reg_body := Some 4, reg_is_null := is_null, reg_inner := Some p,
              reg_avail := length msg - 4 - 4, reg_inner_version := drop_bit 4 vhl,
              reg_inner_tos := tos, reg_inner_len := ilen, reg_inner_src := src, reg_inner_grp := dst\<rparr>;
        let hlen = unat (vhl AND 0x0f) * 4;
        (if drop_bit 4 vhl \<noteq> 4 \<and> \<not> is_null then Some (PIM_REG_VERSION, reg)
         else if is_null \<and> sum1 OR sum2 \<noteq> 0 \<and> (hlen < 20 \<or> reg_avail reg < hlen)
         then Some (PIM_REG_NULL_HLEN, reg\<lparr>reg_bad_hlen := hlen\<rparr>)
         else Some (PIM_REG_OK,
                reg\<lparr>reg_null_hlen := (if is_null \<and> sum1 OR sum2 \<noteq> 0 then hlen else 0),
                    reg_whole := (\<not> is_null \<and> 20 \<le> unat ilen \<and> unat ilen \<le> reg_avail reg)\<rparr>)) })"


section \<open>Register-Stop and Assert\<close>

record pim_sg_msg =
  sg_group :: u32
  sg_source :: u32
  sg_preference :: u32
  sg_metric :: u32

datatype sg_rc = PIM_SG_OK | PIM_SG_SHORT | PIM_SG_FAMILY

definition sg_zero :: pim_sg_msg where
  "sg_zero = \<lparr>sg_group = 0, sg_source = 0, sg_preference = 0, sg_metric = 0\<rparr>"

definition pim_register_stop_minlen :: nat where
  "pim_register_stop_minlen = 4 + 8 + 6"

definition pim_assert_minlen :: nat where
  "pim_assert_minlen = 4 + 8 + 6 + 2 * 4"

definition pim_parse_sg :: "bytes \<Rightarrow> nat \<Rightarrow> pim_sg_msg \<Rightarrow> (sg_rc \<times> nat \<times> pim_sg_msg) option" where
  "pim_parse_sg msg minlen sg =
     (if length msg < minlen then Some (PIM_SG_SHORT, 0, sg)
      else do {
        (ega, p) \<leftarrow> get_egaddr msg 4;
        (eua, p) \<leftarrow> get_euaddr msg p;
        let sg = sg\<lparr>sg_group := ega_mcast_addr ega, sg_source := eua_unicast_addr eua\<rparr>;
        (if ega_addr_family ega \<noteq> 1 \<or> ega_encod_type ega \<noteq> 0 \<or>
            eua_addr_family eua \<noteq> 1 \<or> eua_encod_type eua \<noteq> 0
         then Some (PIM_SG_FAMILY, p, sg)
         else Some (PIM_SG_OK, p, sg)) })"

definition pim_parse_register_stop :: "bytes \<Rightarrow> (sg_rc \<times> pim_sg_msg) option" where
  "pim_parse_register_stop msg = do {
     (rc, _, rs) \<leftarrow> pim_parse_sg msg pim_register_stop_minlen sg_zero;
     Some (rc, rs) }"

definition pim_parse_assert :: "bytes \<Rightarrow> (sg_rc \<times> pim_sg_msg) option" where
  "pim_parse_assert msg = do {
     (rc, p, as) \<leftarrow> pim_parse_sg msg pim_assert_minlen sg_zero;
     (if rc \<noteq> PIM_SG_OK then Some (rc, as)
      else do {
        (pref, p) \<leftarrow> get_hostlong msg p;
        (metric, p) \<leftarrow> get_hostlong msg p;
        Some (PIM_SG_OK, as\<lparr>sg_preference := pref, sg_metric := metric\<rparr>) }) }"



section \<open>Reads that fit\<close>

lemma get_euaddr_Some [wire_simps]:
  "p + 6 \<le> length msg \<Longrightarrow> get_euaddr msg p =
     Some (\<lparr>eua_addr_family = msg ! p, eua_encod_type = msg ! (p + 1),
            eua_unicast_addr = le32 (msg ! (p + 2)) (msg ! (p + 3)) (msg ! (p + 4)) (msg ! (p + 5))\<rparr>,
           p + 6)"
  by (simp add: get_euaddr_def get_byte_Some get_netlong_Some eval_nat_numeral)

lemma get_egaddr_Some [wire_simps]:
  "p + 8 \<le> length msg \<Longrightarrow> get_egaddr msg p =
     Some (\<lparr>ega_addr_family = msg ! p, ega_encod_type = msg ! (p + 1), ega_reserved = msg ! (p + 2),
            ega_masklen = msg ! (p + 3),
            ega_mcast_addr = le32 (msg ! (p + 4)) (msg ! (p + 5)) (msg ! (p + 6)) (msg ! (p + 7))\<rparr>,
           p + 8)"
  by (simp add: get_egaddr_def get_byte_Some get_netlong_Some eval_nat_numeral)

lemma get_esaddr_Some [wire_simps]:
  "p + 8 \<le> length msg \<Longrightarrow> get_esaddr msg p =
     Some (\<lparr>esa_addr_family = msg ! p, esa_encod_type = msg ! (p + 1), esa_flags = msg ! (p + 2),
            esa_masklen = msg ! (p + 3),
            esa_src_addr = le32 (msg ! (p + 4)) (msg ! (p + 5)) (msg ! (p + 6)) (msg ! (p + 7))\<rparr>,
           p + 8)"
  by (simp add: get_esaddr_def get_byte_Some get_netlong_Some eval_nat_numeral)


section \<open>Walks over the records of a message\<close>

text \<open>
  What the decoders share: a cursor whose bytes are the rest of the message, a step that reads one
  record at it and either answers that there may be more, having moved the cursor past at least one
  byte, or ends the walk with a verdict.  From these laws every walk returns, and what a step keeps
  of the fields decoded so far the walk keeps.
\<close>

definition cursor_ok :: "bytes \<Rightarrow> 'z pim_cursor_scheme \<Rightarrow> bool" where
  "cursor_ok msg c \<longleftrightarrow> c_p c + c_left c = length msg"

lemma cursor_ok_step [simp]: "cursor_ok msg c \<Longrightarrow> n \<le> c_left c \<Longrightarrow> cursor_ok msg (cursor_step c n)"
  by (simp add: cursor_ok_def cursor_step_def)

locale record_walk =
  fixes ready :: "'z pim_cursor_scheme \<Rightarrow> bool"
    and step :: "bytes \<Rightarrow> 'z pim_cursor_scheme \<Rightarrow> 's \<Rightarrow> ('rc \<times> 'z pim_cursor_scheme \<times> 's) option"
    and more stop :: 'rc
    and upd :: "'s \<Rightarrow> 's"
    and walk :: "bytes \<Rightarrow> 'z pim_cursor_scheme \<Rightarrow> 's \<Rightarrow> ('rc \<times> 'z pim_cursor_scheme \<times> 's) option"
  assumes walk_unfold: "walk msg c s =
      (if ready c then
         (case step msg c s of
            None \<Rightarrow> None
          | Some (rc, c', s') \<Rightarrow> if rc = more then walk msg c' (upd s') else Some (rc, c', s'))
       else Some (stop, c, s))"
    and step_safe: "cursor_ok msg c \<Longrightarrow> ready c \<Longrightarrow>
      \<exists>rc c' s'. step msg c s = Some (rc, c', s') \<and> cursor_ok msg c'"
    and step_advances: "ready c \<Longrightarrow> step msg c s = Some (more, c', s') \<Longrightarrow> c_left c' < c_left c"
begin

text \<open>
  A fact \<open>P\<close> of cursor and fields that a continuing step keeps, and that a last step or the end of the
  walk turns into \<open>Q\<close>, holds of what the walk returns.
\<close>

lemma walk_rule:
  assumes more: "\<And>c s c' s'. cursor_ok msg c \<Longrightarrow> ready c \<Longrightarrow> P c s \<Longrightarrow>
      step msg c s = Some (more, c', s') \<Longrightarrow> P c' (upd s')"
    and last: "\<And>c s rc c' s'. cursor_ok msg c \<Longrightarrow> ready c \<Longrightarrow> P c s \<Longrightarrow>
      step msg c s = Some (rc, c', s') \<Longrightarrow> rc \<noteq> more \<Longrightarrow> Q rc c' s'"
    and stop: "\<And>c s. cursor_ok msg c \<Longrightarrow> \<not> ready c \<Longrightarrow> P c s \<Longrightarrow> Q stop c s"
  shows "cursor_ok msg c \<Longrightarrow> P c s \<Longrightarrow>
    \<exists>rc c' s'. walk msg c s = Some (rc, c', s') \<and> cursor_ok msg c' \<and> Q rc c' s'"
proof (induction "c_left c" arbitrary: c s rule: less_induct)
  case less
  show ?case
  proof (cases "ready c")
    case True
    then obtain rc c1 s1 where st: "step msg c s = Some (rc, c1, s1)" and ok: "cursor_ok msg c1"
      using step_safe less.prems(1) by blast
    show ?thesis
    proof (cases "rc = more")
      case True
      have "c_left c1 < c_left c" using step_advances [OF \<open>ready c\<close>] st True by simp
      moreover have "P c1 (upd s1)" using more [OF less.prems(1) \<open>ready c\<close> less.prems(2)] st True by simp
      ultimately show ?thesis
        using less.hyps [OF _ ok] st \<open>ready c\<close> True by (simp add: walk_unfold [of msg c s])
    next
      case False
      then show ?thesis using last [OF less.prems(1) \<open>ready c\<close> less.prems(2) st] st ok \<open>ready c\<close>
        by (simp add: walk_unfold [of msg c s])
    qed
  next
    case False
    then show ?thesis using stop less.prems by (simp add: walk_unfold [of msg c s])
  qed
qed

lemma walk_returns: "cursor_ok msg c \<Longrightarrow> \<exists>rc c' s'. walk msg c s = Some (rc, c', s') \<and> cursor_ok msg c'"
  using walk_rule [of msg "\<lambda>_ _. True" "\<lambda>_ _ _. True"] by simp

end

subsection \<open>The Hello options\<close>

lemma hello_opt_safe:
  assumes "cursor_ok msg c"
  shows "\<exists>rc c' opts'. pim_parse_hello_opt msg c opts = Some (rc, c', opts') \<and> cursor_ok msg c'"
proof (cases "c_left c < 4")
  case True
  then show ?thesis using assms by (simp add: pim_parse_hello_opt_def)
next
  case False
  define ty where "ty = be16 (msg ! c_p c) (msg ! (c_p c + 1))"
  define ln where "ln = be16 (msg ! (c_p c + 2)) (msg ! (c_p c + 3))"
  have hd: "get_hostshort msg (c_p c) = Some (ty, c_p c + 2)"
           "get_hostshort msg (c_p c + 2) = Some (ln, c_p c + 4)"
    using False assms by (simp_all add: cursor_ok_def ty_def ln_def get_hostshort_Some add.assoc eval_nat_numeral)
  show ?thesis
  proof (cases "c_left c < 4 + unat ln")
    case True
    then show ?thesis using False assms by (simp add: pim_parse_hello_opt_def hd Let_def del: add_2_eq_Suc')
  next
    case ln: False
    have reads: "unat ln = 4 \<Longrightarrow> get_hostlong msg (c_p c + 4) \<noteq> None"
      "unat ln = 2 \<Longrightarrow> get_hostshort msg (c_p c + 4) \<noteq> None"
      "unat ln = 4 \<Longrightarrow> \<exists>v. get_hostshort msg (c_p c + 4) = Some (v, c_p c + 6)"
      "unat ln = 4 \<Longrightarrow> get_hostshort msg (c_p c + 6) \<noteq> None"
      using ln assms by (auto simp: cursor_ok_def get_hostlong_Some get_hostshort_Some)
    have next_ok: "cursor_ok msg (cursor_step c (4 + unat ln))" using ln assms by simp
    show ?thesis
      using False ln reads assms next_ok
      by (auto simp: pim_parse_hello_opt_def hd Let_def simp del: add_2_eq_Suc')
  qed
qed

interpretation hello: record_walk "\<lambda>_. True" pim_parse_hello_opt PIM_HELLO_OPT PIM_HELLO_END id pim_hello_walk
proof
  show "pim_hello_walk msg c s =
    (if True then
       (case pim_parse_hello_opt msg c s of
          None \<Rightarrow> None
        | Some (rc, c', s') \<Rightarrow> if rc = PIM_HELLO_OPT then pim_hello_walk msg c' (id s') else Some (rc, c', s'))
     else Some (PIM_HELLO_END, c, s))" for msg c s
    by (subst pim_hello_walk.simps) (auto split: option.splits)
qed (use hello_opt_safe hello_opt_decreases in blast)+


subsection \<open>The group sets of a Bootstrap\<close>

lemma bsr_set_safe:
  assumes "cursor_ok msg c" "pim_bsr_grp_set_len + pim_bsr_rp_len \<le> c_left c"
  shows "\<exists>rc c' bsr'. pim_parse_bsr_set msg c bsr = Some (rc, c', bsr') \<and> cursor_ok msg c'"
  using assms
  by (auto simp: pim_parse_bsr_set_def cursor_ok_def cursor_step_def pim_bsr_grp_set_len_def
      pim_bsr_rp_len_def Let_def)

interpretation bsrw: record_walk "\<lambda>c. pim_bsr_grp_set_len + pim_bsr_rp_len \<le> c_left c"
  pim_parse_bsr_set PIM_BSR_OK PIM_BSR_OK "\<lambda>bsr. bsr\<lparr>bsr_num_sets := bsr_num_sets bsr + 1\<rparr>" pim_bsr_walk
proof
  show "pim_bsr_walk msg c s =
    (if pim_bsr_grp_set_len + pim_bsr_rp_len \<le> c_left c then
       (case pim_parse_bsr_set msg c s of
          None \<Rightarrow> None
        | Some (rc, c', s') \<Rightarrow>
            if rc = PIM_BSR_OK then pim_bsr_walk msg c' (s'\<lparr>bsr_num_sets := bsr_num_sets s' + 1\<rparr>)
            else Some (rc, c', s'))
     else Some (PIM_BSR_OK, c, s))" for msg c s
    by (subst pim_bsr_walk.simps) (auto split: option.splits)
qed (use bsr_set_safe bsr_set_decreases in blast)+


section \<open>What a decoded Hello promises\<close>

definition addr_list_in :: "bytes \<Rightarrow> pim_hello_opts \<Rightarrow> bool" where
  "addr_list_in msg opts \<longleftrightarrow>
     (case ho_addr_list opts of None \<Rightarrow> ho_addr_list_len opts = 0 | Some p \<Rightarrow> p + unat (ho_addr_list_len opts) \<le> length msg)"

lemma hello_opt_addr_list_in:
  assumes "cursor_ok msg c" "addr_list_in msg opts" "pim_parse_hello_opt msg c opts = Some (rc, c', opts')"
  shows "addr_list_in msg opts'"
  using assms
  by (auto simp: pim_parse_hello_opt_def addr_list_in_def cursor_ok_def get_hostshort_def Let_def
      split: if_splits bind_splits option.splits)

lemma hello_addrs_loop_returns:
  "p + 6 * n \<le> length msg \<Longrightarrow> hello_addrs_loop msg p n \<noteq> None"
  by (induction n arbitrary: p) auto

lemma hello_addrs_loop_all:
  "hello_addrs_loop msg p n = Some None \<Longrightarrow> i < n \<Longrightarrow>
     rd msg (p + 6 * i) = Some 1 \<and> rd msg (p + 6 * i + 1) = Some 0"
proof (induction n arbitrary: p i)
  case (Suc n)
  show ?case
  proof (cases i)
    case 0
    then show ?thesis using Suc.prems by (auto split: bind_splits if_splits)
  next
    case (Suc j)
    then show ?thesis using Suc.IH [of "p + 6" j] Suc.prems
      by (auto simp: algebra_simps split: bind_splits if_splits)
  qed
qed simp

lemma hello_opt_not_ok: "pim_parse_hello_opt msg c opts = Some (rc, c', opts') \<Longrightarrow> rc \<noteq> PIM_HELLO_OK"
  by (auto simp: pim_parse_hello_opt_def Let_def split: if_splits bind_splits)

lemma hello_walk_ends:
  assumes "cursor_ok msg c" "addr_list_in msg opts"
  shows "\<exists>rc c' opts'. pim_hello_walk msg c opts = Some (rc, c', opts') \<and> addr_list_in msg opts' \<and> rc \<noteq> PIM_HELLO_OK"
proof -
  have "\<exists>rc c' opts'. pim_hello_walk msg c opts = Some (rc, c', opts') \<and> cursor_ok msg c' \<and>
      (addr_list_in msg opts' \<and> rc \<noteq> PIM_HELLO_OK)"
  proof (rule hello.walk_rule [where P = "\<lambda>_. addr_list_in msg"])
    show "addr_list_in msg (id s')"
      if "cursor_ok msg c" "addr_list_in msg s" "pim_parse_hello_opt msg c s = Some (PIM_HELLO_OPT, c', s')" for c s c' s'
      using hello_opt_addr_list_in [OF that] by simp
    show "addr_list_in msg s' \<and> rc \<noteq> PIM_HELLO_OK"
      if "cursor_ok msg c" "addr_list_in msg s" "pim_parse_hello_opt msg c s = Some (rc, c', s')" for c s rc c' s'
      using hello_opt_addr_list_in [OF that] hello_opt_not_ok [OF that(3)] by simp
  qed (use assms in simp_all)
  then show ?thesis by blast
qed

lemma hello_start_ok:
  "4 \<le> length msg \<Longrightarrow> cursor_ok msg \<lparr>c_p = 4, c_left = length msg - 4\<rparr>"
  by (simp add: cursor_ok_def)

lemma hello_walk_start:
  assumes "4 \<le> length msg"
  shows "\<exists>rc c' opts'. pim_hello_walk msg \<lparr>c_p = 4, c_left = length msg - 4\<rparr> hello_opts_zero = Some (rc, c', opts') \<and>
    addr_list_in msg opts' \<and> rc \<noteq> PIM_HELLO_OK"
  using hello_walk_ends [OF hello_start_ok [OF assms], of hello_opts_zero]
  by (simp add: addr_list_in_def hello_opts_zero_def)

lemma parse_hello_returns: "\<exists>rc opts. pim_parse_hello msg = Some (rc, opts)"
proof (cases "length msg < 4")
  case False
  then obtain rc c opts where
    w: "pim_hello_walk msg \<lparr>c_p = 4, c_left = length msg - 4\<rparr> hello_opts_zero = Some (rc, c, opts)"
    and "addr_list_in msg opts"
    using hello_walk_start [of msg] by auto
  then have "ho_addr_list opts = Some p \<Longrightarrow> pim_parse_hello_addrs msg p opts \<noteq> None" for p
    using hello_addrs_loop_returns [of p "unat (ho_addr_list_len opts) div 6" msg]
    by (fastforce simp: addr_list_in_def pim_parse_hello_addrs_def split: bind_splits option.splits)
  then show ?thesis using False w by (auto simp: pim_parse_hello_def split: option.splits)
qed (simp add: pim_parse_hello_def)

lemma parse_hello_addrs_ok:
  assumes "pim_parse_hello_addrs msg p opts = Some opts'" "ho_addr_list opts = Some p" "ho_addr_list opts' = Some q"
  shows "opts' = opts \<and> q = p \<and> unat (ho_addr_list_len opts) mod 6 = 0 \<and>
    hello_addrs_loop msg p (unat (ho_addr_list_len opts) div 6) = Some None"
  using assms
  by (auto simp: pim_parse_hello_addrs_def hello_addrs_refuse_def split: if_splits bind_splits option.splits)

lemma parse_hello_addr_list:
  assumes "pim_parse_hello msg = Some (PIM_HELLO_OK, opts)" "ho_addr_list opts = Some p"
  shows "p + unat (ho_addr_list_len opts) \<le> length msg \<and> unat (ho_addr_list_len opts) mod 6 = 0 \<and>
    hello_addrs_loop msg p (unat (ho_addr_list_len opts) div 6) = Some None"
proof -
  have len: "4 \<le> length msg" using assms by (auto simp: pim_parse_hello_def split: if_splits)
  obtain rc c o1 where w: "pim_hello_walk msg \<lparr>c_p = 4, c_left = length msg - 4\<rparr> hello_opts_zero = Some (rc, c, o1)"
    and in1: "addr_list_in msg o1" and nok: "rc \<noteq> PIM_HELLO_OK"
    using hello_walk_start [OF len] by auto
  have rc: "rc = PIM_HELLO_END"
    using assms w len nok by (auto simp: pim_parse_hello_def split: if_splits)
  obtain p1 where p1: "ho_addr_list o1 = Some p1" "pim_parse_hello_addrs msg p1 o1 = Some opts"
    using assms w len rc by (auto simp: pim_parse_hello_def split: option.splits bind_splits)
  show ?thesis using parse_hello_addrs_ok [OF p1(2,1) assms(2)] in1 p1 by (auto simp: addr_list_in_def)
qed

lemma parse_hello_no_list:
  assumes "pim_parse_hello msg = Some (PIM_HELLO_OK, opts)" "ho_addr_list opts = None"
  shows "ho_addr_list_len opts = 0"
proof -
  have len: "4 \<le> length msg" using assms by (auto simp: pim_parse_hello_def split: if_splits)
  obtain rc c o1 where w: "pim_hello_walk msg \<lparr>c_p = 4, c_left = length msg - 4\<rparr> hello_opts_zero = Some (rc, c, o1)"
    and in1: "addr_list_in msg o1" and nok: "rc \<noteq> PIM_HELLO_OK"
    using hello_walk_start [OF len] by auto
  then have rc: "rc = PIM_HELLO_END" using assms(1) len by (auto simp: pim_parse_hello_def split: if_splits)
  show ?thesis
  proof (cases "ho_addr_list o1")
    case None
    then show ?thesis using assms(1) w rc len in1 by (simp add: pim_parse_hello_def addr_list_in_def)
  next
    case (Some p)
    then have "pim_parse_hello_addrs msg p o1 = Some opts" using assms(1) w rc len by (auto simp: pim_parse_hello_def split: bind_splits)
    then show ?thesis using assms(2) Some
      by (auto simp: pim_parse_hello_addrs_def hello_addrs_refuse_def split: if_splits bind_splits option.splits)
  qed
qed

lemma hello_addr_Some:
  assumes "ho_addr_list opts = Some p" "p + unat (ho_addr_list_len opts) \<le> length msg"
    "i < unat (ho_addr_list_len opts) div 6"
  shows "pim_hello_addr msg opts i \<noteq> None"
proof -
  have "p + i * 6 + 6 \<le> length msg" using assms by linarith
  then show ?thesis using assms by (simp add: pim_hello_addr_def get_euaddr_Some)
qed


section \<open>What a decoded Join/Prune promises\<close>

text \<open>The pass over the group sets that a caller makes with \<open>pim_jp_group\<close>.\<close>

fun jp_groups_at :: "bytes \<Rightarrow> nat \<Rightarrow> nat \<Rightarrow> pim_jp_grp list option" where
  "jp_groups_at msg p 0 = Some []"
| "jp_groups_at msg p (Suc n) = do {
     (p, g) \<leftarrow> pim_jp_group msg p;
     gs \<leftarrow> jp_groups_at msg p n;
     Some (g # gs) }"

definition jp_grp_good :: "bytes \<Rightarrow> pim_jp_grp \<Rightarrow> bool" where
  "jp_grp_good msg g \<longleftrightarrow> jpg_masklen g \<le> 32 \<and>
     list_all (\<lambda>i. case pim_jp_source msg g i of None \<Rightarrow> False | Some s \<Rightarrow> jps_masklen s = 32)
       [0 ..< unat (jpg_num_j g) + unat (jpg_num_p g)]"

lemma jp_srcs_returns:
  "p + 8 * n \<le> length msg \<Longrightarrow> pim_parse_jp_srcs msg p (8 * n) jp \<noteq> None"
proof (induction n arbitrary: p)
  case (Suc n)
  then show ?case by (subst pim_parse_jp_srcs.simps) simp
qed (simp add: pim_parse_jp_srcs.simps)

lemma jp_srcs_ok:
  "pim_parse_jp_srcs msg p (8 * n) jp = Some (PIM_JP_OK, jp') \<Longrightarrow>
     jp' = jp \<and> (i < n \<longrightarrow> rd msg (p + i * 8 + 3) = Some 32)"
proof (induction n arbitrary: p i)
  case (Suc n)
  from Suc.prems obtain b where
    rec: "pim_parse_jp_srcs msg (p + 8) (8 * n) jp = Some (PIM_JP_OK, jp')" and b: "rd msg (p + 3) = Some 32"
    by (subst (asm) pim_parse_jp_srcs.simps) (auto split: bind_splits if_splits)
  then show ?case using Suc.IH [of "p + 8" "i - 1"] by (cases i) (auto simp: algebra_simps)
qed (simp add: pim_parse_jp_srcs.simps)

lemma jp_set_cases:
  assumes ok: "cursor_ok msg c" and len: "pim_jp_grp_set_len \<le> c_left c"
  defines "nj \<equiv> be16 (msg ! (c_p c + 8)) (msg ! (c_p c + 9))"
    and "np \<equiv> be16 (msg ! (c_p c + 10)) (msg ! (c_p c + 11))"
  shows "pim_jp_group msg (c_p c) = Some (c_p c + 12 + (unat nj + unat np) * 8,
      \<lparr>jpg_group = le32 (msg ! (c_p c + 4)) (msg ! (c_p c + 5)) (msg ! (c_p c + 6)) (msg ! (c_p c + 7)),
       jpg_masklen = msg ! (c_p c + 3), jpg_num_j = nj, jpg_num_p = np, jpg_srcs = c_p c + 12\<rparr>)"
    and "get_hostshort msg (c_p c + 8) = Some (nj, c_p c + 10)"
    and "get_hostshort msg (c_p c + 10) = Some (np, c_p c + 12)"
proof -
  have l: "c_p c + 12 \<le> length msg" using ok len by (simp add: cursor_ok_def pim_jp_grp_set_len_def)
  show h: "get_hostshort msg (c_p c + 8) = Some (nj, c_p c + 10)"
    "get_hostshort msg (c_p c + 10) = Some (np, c_p c + 12)"
    using l by (simp_all add: get_hostshort_Some nj_def np_def ac_simps)
  show "pim_jp_group msg (c_p c) = Some (c_p c + 12 + (unat nj + unat np) * 8,
      \<lparr>jpg_group = le32 (msg ! (c_p c + 4)) (msg ! (c_p c + 5)) (msg ! (c_p c + 6)) (msg ! (c_p c + 7)),
       jpg_masklen = msg ! (c_p c + 3), jpg_num_j = nj, jpg_num_p = np, jpg_srcs = c_p c + 12\<rparr>)"
    using l h by (simp add: pim_jp_group_def get_egaddr_Some)
qed

lemma jp_set_safe:
  assumes ok: "cursor_ok msg c"
  shows "\<exists>rc c' srcs jp'. pim_parse_jp_set msg c jp = Some (rc, c', srcs, jp') \<and> cursor_ok msg c' \<and>
    (rc = PIM_JP_OK \<longrightarrow> 8 dvd c_left srcs \<and> c_p srcs + c_left srcs \<le> length msg)"
proof (cases "c_left c < pim_jp_grp_set_len")
  case False
  then show ?thesis using ok jp_set_cases(2,3) [OF ok]
    by (auto simp: pim_parse_jp_set_def cursor_ok_def cursor_step_def pim_jp_grp_set_len_def Let_def)
qed (simp add: pim_parse_jp_set_def ok)

lemma jp_set_ok:
  assumes ok: "cursor_ok msg c" and st: "pim_parse_jp_set msg c jp = Some (PIM_JP_OK, c', srcs, jp')"
  shows "jp' = jp \<and> (\<exists>g. pim_jp_group msg (c_p c) = Some (c_p c', g) \<and> jpg_masklen g \<le> 32 \<and>
    jpg_srcs g = c_p srcs \<and> c_left srcs = 8 * (unat (jpg_num_j g) + unat (jpg_num_p g)) \<and>
    c_p srcs + c_left srcs \<le> length msg)"
proof -
  have len: "pim_jp_grp_set_len \<le> c_left c"
    using st by (auto simp: pim_parse_jp_set_def Let_def split: if_splits)
  have rds: "rd msg (c_p c + 3) = Some (msg ! (c_p c + 3))"
    using ok len by (simp add: cursor_ok_def pim_jp_grp_set_len_def)
  show ?thesis using st ok len rds jp_set_cases [OF ok len]
    by (auto simp: pim_parse_jp_set_def cursor_ok_def cursor_step_def pim_jp_grp_set_len_def Let_def not_less
        split: if_splits bind_splits)
qed

lemma jp_sets_returns: "cursor_ok msg c \<Longrightarrow> pim_parse_jp_sets msg n c jp \<noteq> None"
proof (induction n arbitrary: c jp)
  case (Suc n)
  obtain rc c' srcs jp' where st: "pim_parse_jp_set msg c jp = Some (rc, c', srcs, jp')" "cursor_ok msg c'"
    and ok: "rc = PIM_JP_OK \<longrightarrow> 8 dvd c_left srcs \<and> c_p srcs + c_left srcs \<le> length msg"
    using jp_set_safe [OF Suc.prems] by blast
  have "rc = PIM_JP_OK \<Longrightarrow> pim_parse_jp_srcs msg (c_p srcs) (c_left srcs) jp' \<noteq> None"
    using ok jp_srcs_returns by (auto elim: dvdE)
  then show ?case using st Suc.IH by auto
qed simp

lemma jp_grp_goodI:
  assumes "jpg_masklen g \<le> 32" "jpg_srcs g + 8 * (unat (jpg_num_j g) + unat (jpg_num_p g)) \<le> length msg"
    "\<And>i. i < unat (jpg_num_j g) + unat (jpg_num_p g) \<Longrightarrow> rd msg (jpg_srcs g + i * 8 + 3) = Some 32"
  shows "jp_grp_good msg g"
proof -
  have "\<exists>s. pim_jp_source msg g i = Some s \<and> jps_masklen s = 32"
    if i: "i < unat (jpg_num_j g) + unat (jpg_num_p g)" for i
  proof -
    define n where "n = unat (jpg_num_j g) + unat (jpg_num_p g)"
    have "jpg_srcs g + i * 8 + 8 \<le> length msg" using assms(2) i unfolding n_def [symmetric] by linarith
    then show ?thesis using assms(3) [OF i] by (simp add: pim_jp_source_def get_esaddr_Some rd_def)
  qed
  then show ?thesis using assms(1) by (fastforce simp: jp_grp_good_def list_all_iff split: option.splits)
qed

lemma jp_sets_ok:
  "cursor_ok msg c \<Longrightarrow> pim_parse_jp_sets msg n c jp = Some (PIM_JP_OK, jp') \<Longrightarrow>
     jp' = jp \<and> (\<exists>gs. jp_groups_at msg (c_p c) n = Some gs \<and> list_all (jp_grp_good msg) gs)"
proof (induction n arbitrary: c)
  case (Suc n)
  obtain rc c' srcs jp1 where st: "pim_parse_jp_set msg c jp = Some (rc, c', srcs, jp1)" "cursor_ok msg c'"
    using jp_set_safe [OF Suc.prems(1)] by blast
  have rc: "rc = PIM_JP_OK" using Suc.prems st by (cases "rc = PIM_JP_OK") auto
  obtain g where j1: "jp1 = jp" and g: "pim_jp_group msg (c_p c) = Some (c_p c', g)" "jpg_masklen g \<le> 32"
    "jpg_srcs g = c_p srcs" "c_left srcs = 8 * (unat (jpg_num_j g) + unat (jpg_num_p g))"
    "c_p srcs + c_left srcs \<le> length msg"
    using jp_set_ok [OF Suc.prems(1)] st rc by blast
  obtain jp2 where srcs: "pim_parse_jp_srcs msg (c_p srcs) (c_left srcs) jp = Some (PIM_JP_OK, jp2)"
    and rest: "pim_parse_jp_sets msg n c' jp2 = Some (PIM_JP_OK, jp')"
    using Suc.prems(2) st rc j1 by (auto split: bind_splits if_splits)
  have j2: "jp2 = jp" and m: "\<And>i. i < unat (jpg_num_j g) + unat (jpg_num_p g) \<Longrightarrow> rd msg (jpg_srcs g + i * 8 + 3) = Some 32"
    using jp_srcs_ok [OF srcs [unfolded g(4)]] g(3) by auto
  have "jp_grp_good msg g" using g m by (intro jp_grp_goodI) auto
  then show ?case using Suc.IH [OF st(2)] rest g(1) j2 by auto
qed simp

lemma jp_hdr_safe:
  "\<exists>rc c' jp'. pim_parse_jp_hdr msg c jp = Some (rc, c', jp') \<and> (rc = PIM_JP_OK \<longrightarrow> cursor_ok msg c')"
  by (cases "length msg < pim_join_prune_minlen")
     (auto simp: pim_parse_jp_hdr_def pim_join_prune_minlen_def cursor_ok_def wire_simps Let_def)

lemma jp_hdr_ok:
  "pim_parse_jp_hdr msg c jp = Some (PIM_JP_OK, c', jp') \<Longrightarrow>
     cursor_ok msg c' \<and> jp_groups jp' = Some (c_p c') \<and> c_p c' = 14 \<and> jp_num_groups jp' \<noteq> 0"
  by (auto simp: pim_parse_jp_hdr_def pim_join_prune_minlen_def cursor_ok_def wire_simps Let_def split: if_splits)

lemma parse_jp_returns: "\<exists>rc jp. pim_parse_jp msg = Some (rc, jp)"
proof -
  obtain rc c jp where h: "pim_parse_jp_hdr msg \<lparr>c_p = 0, c_left = 0\<rparr> jp_zero = Some (rc, c, jp)"
    and ok: "rc = PIM_JP_OK \<longrightarrow> cursor_ok msg c"
    using jp_hdr_safe by blast
  then show ?thesis using jp_sets_returns [of msg c] by (auto simp: pim_parse_jp_def)
qed

lemma parse_jp_ok:
  assumes "pim_parse_jp msg = Some (PIM_JP_OK, jp)"
  shows "\<exists>p gs. jp_groups jp = Some p \<and> jp_groups_at msg p (unat (jp_num_groups jp)) = Some gs \<and>
    list_all (jp_grp_good msg) gs"
proof -
  obtain rc c jp1 where h: "pim_parse_jp_hdr msg \<lparr>c_p = 0, c_left = 0\<rparr> jp_zero = Some (rc, c, jp1)"
    using jp_hdr_safe by blast
  then have rc: "rc = PIM_JP_OK" and s: "pim_parse_jp_sets msg (unat (jp_num_groups jp1)) c jp1 = Some (PIM_JP_OK, jp)"
    using assms by (auto simp: pim_parse_jp_def split: if_splits)
  show ?thesis using jp_sets_ok [OF _ s] jp_hdr_ok [OF h [unfolded rc]] by auto
qed


section \<open>What a decoded Bootstrap promises\<close>

text \<open>The pass over the group sets that a caller makes with \<open>pim_bsr_group\<close>.\<close>

fun bsr_groups_at :: "bytes \<Rightarrow> nat \<Rightarrow> nat \<Rightarrow> pim_bsr_grp list option" where
  "bsr_groups_at msg p 0 = Some []"
| "bsr_groups_at msg p (Suc n) = do {
     (p, g) \<leftarrow> pim_bsr_group msg p;
     gs \<leftarrow> bsr_groups_at msg p n;
     Some (g # gs) }"

definition bsr_grp_good :: "bytes \<Rightarrow> pim_bsr_grp \<Rightarrow> bool" where
  "bsr_grp_good msg g \<longleftrightarrow> ega_masklen (bg_grp g) \<le> 32 \<and> ega_addr_family (bg_grp g) = 1 \<and>
     ega_encod_type (bg_grp g) = 0 \<and>
     list_all (\<lambda>i. pim_bsr_rp msg g i \<noteq> None) [0 ..< unat (bg_frag_rp_count g)]"

lemma bsr_rp_Some:
  assumes "bg_rps g + n * pim_bsr_rp_len \<le> length msg" "i < n"
  shows "pim_bsr_rp msg g i \<noteq> None"
proof -
  have "bg_rps g + i * pim_bsr_rp_len + 10 \<le> length msg" using assms by (simp add: pim_bsr_rp_len_def)
  then show ?thesis by (simp add: pim_bsr_rp_def wire_simps)
qed

lemma bsr_set_ok:
  assumes ok: "cursor_ok msg c" and len: "pim_bsr_grp_set_len + pim_bsr_rp_len \<le> c_left c"
    and st: "pim_parse_bsr_set msg c bsr = Some (PIM_BSR_OK, c', bsr')"
  shows "bsr' = bsr \<and> (\<exists>g. pim_bsr_group msg (c_p c) = Some (c_p c', g) \<and> bsr_grp_good msg g)"
proof -
  have l: "c_p c + 22 \<le> length msg"
    using ok len by (simp add: cursor_ok_def pim_bsr_grp_set_len_def pim_bsr_rp_len_def)
  define frag where "frag = msg ! (9 + c_p c)"
  have b: "bsr' = bsr" "c_p c' = c_p c + 12 + unat frag * 10" "msg ! (c_p c + 3) \<le> 32" "msg ! c_p c = 1"
    "msg ! (c_p c + 1) = 0" "unat frag * 10 \<le> c_left c - 12"
    using st l by (auto simp: pim_parse_bsr_set_def cursor_step_def pim_bsr_grp_set_len_def
        pim_bsr_rp_len_def frag_def Let_def not_less split: if_splits)
  have fit: "c_p c + 12 + unat frag * pim_bsr_rp_len \<le> length msg"
    using b(6) ok len by (simp add: cursor_ok_def pim_bsr_rp_len_def pim_bsr_grp_set_len_def)
  define g where "g = \<lparr>bg_grp = \<lparr>ega_addr_family = msg ! c_p c, ega_encod_type = msg ! (c_p c + 1),
      ega_reserved = msg ! (c_p c + 2), ega_masklen = msg ! (c_p c + 3),
      ega_mcast_addr = le32 (msg ! (c_p c + 4)) (msg ! (c_p c + 5)) (msg ! (c_p c + 6)) (msg ! (c_p c + 7))\<rparr>,
      bg_rp_count = msg ! (c_p c + 8), bg_frag_rp_count = frag, bg_rps = c_p c + 12\<rparr>"
  have "pim_bsr_group msg (c_p c) = Some (c_p c', g)"
    using l b(2) by (simp add: pim_bsr_group_def get_egaddr_Some get_byte_Some g_def frag_def pim_bsr_rp_len_def
        Let_def eval_nat_numeral)
  moreover have "bsr_grp_good msg g"
    using b bsr_rp_Some [of g "unat frag" msg] fit by (simp add: bsr_grp_good_def g_def list_all_iff)
  ultimately show ?thesis using b(1) by blast
qed

lemma bsr_walk_ok:
  "cursor_ok msg c \<Longrightarrow> pim_bsr_walk msg c bsr = Some (PIM_BSR_OK, c2, bsr') \<Longrightarrow>
     \<exists>gs. bsr' = bsr\<lparr>bsr_num_sets := bsr_num_sets bsr + length gs\<rparr> \<and>
       bsr_groups_at msg (c_p c) (length gs) = Some gs \<and> list_all (bsr_grp_good msg) gs"
proof (induction "c_left c" arbitrary: c bsr rule: less_induct)
  case less
  show ?case
  proof (cases "pim_bsr_grp_set_len + pim_bsr_rp_len \<le> c_left c")
    case True
    obtain rc c1 bsr1 where st: "pim_parse_bsr_set msg c bsr = Some (rc, c1, bsr1)" and ok1: "cursor_ok msg c1"
      using bsr_set_safe [OF less.prems(1) True] by blast
    have rc: "rc = PIM_BSR_OK"
      using less.prems(2) st True by (subst (asm) pim_bsr_walk.simps) (auto split: if_splits)
    have b1: "bsr1 = bsr" and g: "\<exists>g. pim_bsr_group msg (c_p c) = Some (c_p c1, g) \<and> bsr_grp_good msg g"
      using bsr_set_ok [OF less.prems(1) True] st rc by blast+
    have rest: "pim_bsr_walk msg c1 (bsr\<lparr>bsr_num_sets := bsr_num_sets bsr + 1\<rparr>) = Some (PIM_BSR_OK, c2, bsr')"
      using less.prems(2) st True rc b1 by (subst (asm) pim_bsr_walk.simps) simp
    have "c_left c1 < c_left c" using bsr_set_decreases st rc True by blast
    from less.hyps [OF this ok1 rest] g show ?thesis by (fastforce intro: exI [of _ "_ # _"])
  next
    case False
    then have "bsr' = bsr" using less.prems(2) by (subst (asm) pim_bsr_walk.simps) auto
    then show ?thesis by (intro exI [of _ "[]"]) simp
  qed
qed

lemma bsr_hdr_safe:
  "\<exists>rc c' bsr'. pim_parse_bsr_hdr msg c bsr = Some (rc, c', bsr') \<and> (rc = PIM_BSR_OK \<longrightarrow> cursor_ok msg c')"
  by (cases "length msg < pim_bootstrap_minlen")
     (auto simp: pim_parse_bsr_hdr_def pim_bootstrap_minlen_def cursor_ok_def wire_simps Let_def)

lemma bsr_hdr_ok:
  "pim_parse_bsr_hdr msg c bsr_zero = Some (PIM_BSR_OK, c', bsr') \<Longrightarrow>
     cursor_ok msg c' \<and> bsr_sets bsr' = Some (c_p c') \<and> bsr_hash_masklen bsr' \<le> 32 \<and> bsr_num_sets bsr' = 0"
  by (auto simp: pim_parse_bsr_hdr_def pim_bootstrap_minlen_def cursor_ok_def wire_simps Let_def bsr_zero_def
      split: if_splits)

lemma parse_bsr_returns: "\<exists>rc bsr. pim_parse_bsr msg = Some (rc, bsr)"
proof -
  obtain rc c bsr where h: "pim_parse_bsr_hdr msg \<lparr>c_p = 0, c_left = 0\<rparr> bsr_zero = Some (rc, c, bsr)"
    and ok: "rc = PIM_BSR_OK \<longrightarrow> cursor_ok msg c"
    using bsr_hdr_safe by blast
  then show ?thesis using bsrw.walk_returns [of msg c bsr] by (auto simp: pim_parse_bsr_def)
qed

lemma parse_bsr_ok:
  assumes "pim_parse_bsr msg = Some (PIM_BSR_OK, bsr)"
  shows "bsr_hash_masklen bsr \<le> 32 \<and> (\<exists>p gs. bsr_sets bsr = Some p \<and>
    bsr_groups_at msg p (bsr_num_sets bsr) = Some gs \<and> list_all (bsr_grp_good msg) gs)"
proof -
  obtain rc c bsr1 where h: "pim_parse_bsr_hdr msg \<lparr>c_p = 0, c_left = 0\<rparr> bsr_zero = Some (rc, c, bsr1)"
    using bsr_hdr_safe by blast
  then have rc: "rc = PIM_BSR_OK" using assms by (cases "rc = PIM_BSR_OK") (auto simp: pim_parse_bsr_def)
  then obtain c2 where w: "pim_bsr_walk msg c bsr1 = Some (PIM_BSR_OK, c2, bsr)"
    using assms h by (auto simp: pim_parse_bsr_def split: bind_splits)
  note hd = bsr_hdr_ok [OF h [unfolded rc]]
  show ?thesis using bsr_walk_ok [OF _ w] hd by auto
qed


section \<open>The single-record messages\<close>

lemma parse_crp_returns: "\<exists>rc crp. pim_parse_crp msg = Some (rc, crp)"
  by (cases "length msg < pim_cand_rp_adv_minlen")
     (auto simp: pim_parse_crp_def pim_cand_rp_adv_minlen_def wire_simps Let_def)

lemma parse_crp_ok:
  assumes "pim_parse_crp msg = Some (PIM_CRP_OK, crp)"
  shows "crp_prefixes crp = Some 14 \<and>
    unat (crp_num_prefixes crp) = min (unat (crp_prefix_cnt crp)) ((length msg - 14) div 8)"
proof -
  have len: "\<not> length msg < 14"
    using assms by (auto simp: pim_parse_crp_def pim_cand_rp_adv_minlen_def split: if_splits)
  have "unat (of_nat f :: u8) = f" if "f < unat (x :: u8)" for f x
    using that unsigned_less [of x, where ?'a = nat] by (simp add: unat_of_nat)
  then show ?thesis using assms len
    by (auto simp: pim_parse_crp_def pim_cand_rp_adv_minlen_def wire_simps Let_def min_def split: if_splits)
qed

lemma crp_prefix_Some:
  assumes "pim_parse_crp msg = Some (PIM_CRP_OK, crp)" "i < unat (crp_num_prefixes crp)"
  shows "pim_crp_prefix msg crp i \<noteq> None"
proof -
  have "i < (length msg - 14) div 8" using parse_crp_ok [OF assms(1)] assms(2) by simp
  then have "14 + i * 8 + 8 \<le> length msg" by linarith
  then show ?thesis using parse_crp_ok [OF assms(1)] by (simp add: pim_crp_prefix_def get_egaddr_Some)
qed

lemma parse_register_returns: "\<exists>rc reg. pim_parse_register msg = Some (rc, reg)"
  by (cases "length msg < pim_register_minlen")
     (auto simp: pim_parse_register_def pim_register_minlen_def wire_simps Let_def)

lemma parse_register_ok:
  assumes "pim_parse_register msg = Some (PIM_REG_OK, reg)"
  shows "reg_body reg = Some 4 \<and> reg_inner reg = Some 8 \<and> 8 + reg_avail reg = length msg \<and>
    (reg_whole reg \<longrightarrow> \<not> reg_is_null reg \<and> 20 \<le> unat (reg_inner_len reg) \<and> unat (reg_inner_len reg) \<le> reg_avail reg) \<and>
    (reg_null_hlen reg \<noteq> 0 \<longrightarrow> reg_is_null reg \<and> 20 \<le> reg_null_hlen reg \<and> reg_null_hlen reg \<le> reg_avail reg) \<and>
    (\<not> reg_is_null reg \<longrightarrow> reg_inner_version reg = 4)"
proof -
  have len: "\<not> length msg < 28"
    using assms by (auto simp: pim_parse_register_def pim_register_minlen_def split: if_splits)
  show ?thesis using assms len
    by (auto simp: pim_parse_register_def pim_register_minlen_def wire_simps reg_zero_def Let_def split: if_splits)
qed

lemma parse_sg_returns:
  "18 \<le> minlen \<Longrightarrow> \<exists>rc p sg'. pim_parse_sg msg minlen sg = Some (rc, p, sg') \<and> (rc = PIM_SG_OK \<longrightarrow> p = 18 \<and> minlen \<le> length msg)"
  by (cases "length msg < minlen") (auto simp: pim_parse_sg_def wire_simps Let_def)

lemma parse_register_stop_returns: "\<exists>rc rs. pim_parse_register_stop msg = Some (rc, rs)"
  using parse_sg_returns [of pim_register_stop_minlen msg sg_zero]
  by (auto simp: pim_parse_register_stop_def pim_register_stop_minlen_def)

lemma parse_assert_returns: "\<exists>rc as. pim_parse_assert msg = Some (rc, as)"
proof -
  obtain rc p sg where "pim_parse_sg msg pim_assert_minlen sg_zero = Some (rc, p, sg)"
    "rc = PIM_SG_OK \<longrightarrow> p = 18 \<and> 26 \<le> length msg"
    using parse_sg_returns [of pim_assert_minlen msg sg_zero] by (auto simp: pim_assert_minlen_def)
  then show ?thesis by (auto simp: pim_parse_assert_def wire_simps)
qed


section \<open>Properties\<close>

text \<open>
  C19: No message makes a decoder of \<^verbatim>\<open>src/pim_parse.c\<close> read past its end or loop: on every byte
  string each of the seven returns a verdict.
\<close>
theorem parsers_total:
  "pim_parse_hello msg \<noteq> None \<and> pim_parse_jp msg \<noteq> None \<and> pim_parse_bsr msg \<noteq> None \<and> pim_parse_crp msg \<noteq> None \<and>
   pim_parse_register msg \<noteq> None \<and> pim_parse_register_stop msg \<noteq> None \<and> pim_parse_assert msg \<noteq> None"
  using parse_hello_returns [of msg] parse_jp_returns [of msg] parse_bsr_returns [of msg] parse_crp_returns [of msg]
    parse_register_returns [of msg] parse_register_stop_returns [of msg] parse_assert_returns [of msg] by auto

text \<open>
  C23: In a Join/Prune that was accepted, every group set the count promises is there, walked from the
  first to the last with \<open>pim_jp_group\<close>: its mask length is at most 32, and every source
  \<open>pim_jp_source\<close> is asked for, up to the joins and prunes the set counts, lies in the message and is
  a host.
\<close>
theorem jp_accepted_readable:
  assumes "pim_parse_jp msg = Some (PIM_JP_OK, jp)"
  shows "\<exists>p gs. jp_groups jp = Some p \<and> jp_groups_at msg p (unat (jp_num_groups jp)) = Some gs \<and>
    list_all (jp_grp_good msg) gs"
  by (rule parse_jp_ok) fact

theorem jp_accepted_readable_witness:
  "\<exists>gs. jp_groups_at [0x23, 0, 0, 0, 1, 0, 10, 0, 0, 2, 0, 1, 0, 210, 1, 0, 0, 32, 239, 1, 1, 1, 0, 1, 0, 0, 1, 0, 4, 32, 10, 9, 9, 9] 14 1 = Some gs \<and>
     list_all (jp_grp_good [0x23, 0, 0, 0, 1, 0, 10, 0, 0, 2, 0, 1, 0, 210, 1, 0, 0, 32, 239, 1, 1, 1, 0, 1, 0, 0, 1, 0, 4, 32, 10, 9, 9, 9]) gs"
proof -
  have "pim_parse_jp [0x23, 0, 0, 0, 1, 0, 10, 0, 0, 2, 0, 1, 0, 210, 1, 0, 0, 32, 239, 1, 1, 1, 0, 1, 0, 0, 1, 0, 4, 32, 10, 9, 9, 9] =
    Some (PIM_JP_OK, \<lparr>jp_upstream = 33554442, jp_holdtime = 210, jp_num_groups = 1, jp_groups = Some 14, jp_bad_family = 0,
      jp_bad_etype = 0, jp_bad_masklen = 0\<rparr>)" by code_simp
  from jp_accepted_readable [OF this] show ?thesis by simp
qed

text \<open>
  C24: In a Bootstrap that was accepted the hash mask length is at most 32, every group range is there
  with a mask length of at most 32, and every RP record a range counts lies in the message.
\<close>
theorem bsr_accepted_readable:
  assumes "pim_parse_bsr msg = Some (PIM_BSR_OK, bsr)"
  shows "bsr_hash_masklen bsr \<le> 32 \<and> (\<exists>p gs. bsr_sets bsr = Some p \<and>
    bsr_groups_at msg p (bsr_num_sets bsr) = Some gs \<and> list_all (bsr_grp_good msg) gs)"
  by (rule parse_bsr_ok) fact

theorem bsr_accepted_readable_witness:
  "\<exists>gs. bsr_groups_at [0x24, 0, 0, 0, 0, 7, 30, 5, 1, 0, 10, 0, 0, 2, 1, 0, 0, 8, 239, 0, 0, 0, 1, 1, 0, 0, 1, 0, 10, 0, 0, 3, 0, 150, 1, 0] 14 1 = Some gs \<and>
     list_all (bsr_grp_good [0x24, 0, 0, 0, 0, 7, 30, 5, 1, 0, 10, 0, 0, 2, 1, 0, 0, 8, 239, 0, 0, 0, 1, 1, 0, 0, 1, 0, 10, 0, 0, 3, 0, 150, 1, 0]) gs"
proof -
  have "pim_parse_bsr [0x24, 0, 0, 0, 0, 7, 30, 5, 1, 0, 10, 0, 0, 2, 1, 0, 0, 8, 239, 0, 0, 0, 1, 1, 0, 0, 1, 0, 10, 0, 0, 3, 0, 150, 1, 0] =
    Some (PIM_BSR_OK, \<lparr>bsr_frag_tag = 7, bsr_hash_masklen = 30, bsr_priority = 5, bsr_bsr = 33554442, bsr_no_forward = 0,
      bsr_sets = Some 14, bsr_num_sets = 1, bsr_bad_family = 0, bsr_bad_etype = 0, bsr_bad_masklen = 0, bsr_bad_count = 0\<rparr>)"
    by code_simp
  from bsr_accepted_readable [OF this] show ?thesis by simp
qed

text \<open>
  The Address List of a Hello that was accepted with one lies in the message, is a whole number
  of addresses, and \<open>pim_hello_addr\<close> reads each of them; every one has the family and the encoding
  of an IPv4 address.
\<close>
theorem hello_addresses_readable:
  assumes "pim_parse_hello msg = Some (PIM_HELLO_OK, opts)" "ho_addr_list opts = Some p"
    "i < unat (ho_addr_list_len opts) div 6"
  shows "p + unat (ho_addr_list_len opts) \<le> length msg \<and> 6 dvd unat (ho_addr_list_len opts) \<and>
    pim_hello_addr msg opts i \<noteq> None \<and> rd msg (p + 6 * i) = Some 1 \<and> rd msg (p + 6 * i + 1) = Some 0"
  using parse_hello_addr_list [OF assms(1,2)] hello_addr_Some [OF assms(2) _ assms(3)] hello_addrs_loop_all [OF _ assms(3)]
  by (auto simp: dvd_eq_mod_eq_0)

theorem hello_addresses_readable_witness:
  "rd [0x20, 0, 0, 0, 0, 1, 0, 2, 0, 105, 0, 24, 0, 6, 1, 0, 10, 0, 0, 3] 14 = Some 1"
proof -
  have "pim_parse_hello [0x20, 0, 0, 0, 0, 1, 0, 2, 0, 105, 0, 24, 0, 6, 1, 0, 10, 0, 0, 3] =
    Some (PIM_HELLO_OK, \<lparr>ho_holdtime = 105, ho_holdtime_present = True, ho_dr_prio = 0, ho_dr_prio_present = False,
      ho_genid = 0, ho_lan_delay_present = False, ho_tracking_support = False, ho_propagation_delay = 0,
      ho_override_interval = 0, ho_addr_list = Some 14, ho_addr_list_len = 6, ho_bad_type = 0, ho_bad_len = 0,
      ho_addr_list_refused = 0, ho_bad_family = 0, ho_bad_etype = 0\<rparr>)" by code_simp
  from hello_addresses_readable [OF this, of 14 0] show ?thesis by simp
qed

text \<open>
  The prefixes of a Candidate-RP-Advertisement that was accepted are counted as the message has
  room for, never more than it claims, and \<open>pim_crp_prefix\<close> reads each of them.
\<close>
theorem crp_prefixes_readable:
  assumes "pim_parse_crp msg = Some (PIM_CRP_OK, crp)" "i < unat (crp_num_prefixes crp)"
  shows "crp_num_prefixes crp \<le> crp_prefix_cnt crp \<and> pim_crp_prefix msg crp i \<noteq> None"
  using parse_crp_ok [OF assms(1)] crp_prefix_Some [OF assms] by (simp add: word_le_nat_alt)

theorem crp_prefixes_readable_witness:
  "pim_crp_prefix [0x28, 0, 0, 0, 1, 1, 0, 150, 1, 0, 10, 0, 0, 3, 1, 0, 0, 8, 239, 0, 0, 0]
     \<lparr>crp_prefix_cnt = 1, crp_priority = 1, crp_holdtime = 150, crp_rp = 50331658, crp_prefixes = Some 14, crp_num_prefixes = 1,
      crp_bad_family = 0, crp_bad_etype = 0\<rparr> 0 \<noteq> None"
proof -
  have "pim_parse_crp [0x28, 0, 0, 0, 1, 1, 0, 150, 1, 0, 10, 0, 0, 3, 1, 0, 0, 8, 239, 0, 0, 0] =
    Some (PIM_CRP_OK, \<lparr>crp_prefix_cnt = 1, crp_priority = 1, crp_holdtime = 150, crp_rp = 50331658, crp_prefixes = Some 14,
      crp_num_prefixes = 1, crp_bad_family = 0, crp_bad_etype = 0\<rparr>)" by code_simp
  from crp_prefixes_readable [OF this, of 0] show ?thesis by simp
qed

text \<open>
  A Register that was accepted has its inner header in the message.  A data Register that is to
  be forwarded is IPv4, with a length of at least a header and at most the bytes that arrived; a
  Null-Register whose dummy header is used has it whole.
\<close>
theorem register_accepted:
  assumes "pim_parse_register msg = Some (PIM_REG_OK, reg)"
  shows "8 + reg_avail reg = length msg \<and> reg_inner reg = Some 8 \<and> (reg_is_null reg \<or> reg_inner_version reg = 4) \<and>
    (reg_whole reg \<longrightarrow> \<not> reg_is_null reg \<and> 20 \<le> unat (reg_inner_len reg) \<and> unat (reg_inner_len reg) \<le> reg_avail reg) \<and>
    (reg_null_hlen reg \<noteq> 0 \<longrightarrow> reg_is_null reg \<and> 20 \<le> reg_null_hlen reg \<and> reg_null_hlen reg \<le> reg_avail reg)"
  using parse_register_ok [OF assms] by auto

theorem register_accepted_witness:
  "20 \<le> unat (21 :: u16) \<and> length ([0x21, 0, 0, 0, 0, 0, 0, 0, 0x45, 0, 0, 21, 0, 0, 0, 0, 4, 17, 0, 0, 10, 0, 0, 9, 239, 1, 1, 1, 7] :: bytes) = 8 + 21"
proof -
  have "pim_parse_register [0x21, 0, 0, 0, 0, 0, 0, 0, 0x45, 0, 0, 21, 0, 0, 0, 0, 4, 17, 0, 0, 10, 0, 0, 9, 239, 1, 1, 1, 7] =
    Some (PIM_REG_OK, \<lparr>reg_is_null = False, reg_body = Some 4, reg_inner = Some 8, reg_avail = 21, reg_inner_version = 4,
      reg_inner_tos = 0, reg_inner_len = 21, reg_inner_src = 150994954, reg_inner_grp = 16843247, reg_whole = True,
      reg_null_hlen = 0, reg_bad_hlen = 0\<rparr>)" by code_simp
  from register_accepted [OF this] show ?thesis by simp
qed

end
