(* ===== verification/Autorp_Parse.thy ===== *)
theory Autorp_Parse
  imports Pim_Parse
begin

text \<open>
  The decoder of \<^verbatim>\<open>src/autorp_parse.c\<close>: the header of an Auto-RP message and the walk over its RP
  blocks and their group prefixes.
\<close>


section \<open>Header and steps\<close>

record autorp_hdr =
  ah_version :: nat
  ah_type :: nat
  ah_rpcnt :: nat
  ah_holdtime :: u16

record autorp_wire_prefix =
  ap_rp_addr :: u32
  ap_group_addr :: u32
  ap_masklen :: u8
  ap_negative :: int

record autorp_cursor = pim_cursor +
  ac_rpcnt :: nat
  ac_grpcnt :: nat
  ac_rp_addr :: u32

datatype autorp_rc = AUTORP_PARSE_DONE | AUTORP_PARSE_PREFIX | AUTORP_PARSE_SHORT_RP
  | AUTORP_PARSE_SHORT_GRP | AUTORP_PARSE_BLOCK

definition autorp_hdr_len :: nat where
  "autorp_hdr_len = 8"

definition autorp_rp_len :: nat where
  "autorp_rp_len = 6"

definition autorp_grp_len :: nat where
  "autorp_grp_len = 6"

definition autorp_version_of :: "u8 \<Rightarrow> nat" where
  "autorp_version_of b = unat (drop_bit 4 b AND 0x0f)"

definition autorp_type_of :: "u8 \<Rightarrow> nat" where
  "autorp_type_of b = unat (b AND 0x0f)"

definition autorp_grp_negative :: "u8 \<Rightarrow> int" where
  "autorp_grp_negative b = uint (b AND 0x01)"

text \<open>\<open>Inl ()\<close> is the C's -1, which fills in neither the header nor the cursor.\<close>

definition autorp_parse_hdr :: "bytes \<Rightarrow> (unit + autorp_cursor \<times> autorp_hdr) option" where
  "autorp_parse_hdr buf =
     (if length buf < autorp_hdr_len then Some (Inl ())
      else do {
        b0 \<leftarrow> rd buf 0;
        b1 \<leftarrow> rd buf 1;
        (holdtime, _) \<leftarrow> get_hostshort buf 2;
        Some (Inr (\<lparr>c_p = autorp_hdr_len, c_left = length buf - autorp_hdr_len, ac_rpcnt = unat b1,
                    ac_grpcnt = 0, ac_rp_addr = 0\<rparr>,
                   \<lparr>ah_version = autorp_version_of b0, ah_type = autorp_type_of b0, ah_rpcnt = unat b1,
                    ah_holdtime = holdtime\<rparr>)) })"

definition autorp_parse_step ::
    "bytes \<Rightarrow> autorp_cursor \<Rightarrow> autorp_wire_prefix \<Rightarrow> (autorp_rc \<times> autorp_cursor \<times> autorp_wire_prefix) option" where
  "autorp_parse_step buf c prefix =
     (if 0 < ac_grpcnt c then
        (if c_left c < autorp_grp_len then Some (AUTORP_PARSE_SHORT_GRP, c, prefix)
         else do {
           b0 \<leftarrow> rd buf (c_p c);
           masklen \<leftarrow> rd buf (c_p c + 1);
           (grp, _) \<leftarrow> get_netlong buf (c_p c + 2);
           Some (AUTORP_PARSE_PREFIX, (cursor_step c autorp_grp_len)\<lparr>ac_grpcnt := ac_grpcnt c - 1\<rparr>,
             \<lparr>ap_rp_addr = ac_rp_addr c, ap_group_addr = grp, ap_masklen = masklen,
              ap_negative = autorp_grp_negative b0\<rparr>) })
      else if ac_rpcnt c = 0 then Some (AUTORP_PARSE_DONE, c, prefix)
      else if c_left c < autorp_rp_len then Some (AUTORP_PARSE_SHORT_RP, c, prefix)
      else do {
        (rp, _) \<leftarrow> get_netlong buf (c_p c);
        cnt \<leftarrow> rd buf (c_p c + 5);
        Some (AUTORP_PARSE_BLOCK,
          (cursor_step c autorp_rp_len)\<lparr>ac_rp_addr := rp, ac_grpcnt := unat cnt, ac_rpcnt := ac_rpcnt c - 1\<rparr>,
          prefix) })"

lemmas autorp_lens = autorp_hdr_len_def autorp_rp_len_def autorp_grp_len_def

lemma autorp_step_decreases:
  "autorp_parse_step buf c prefix = Some (rc, c', prefix') \<Longrightarrow>
     rc = AUTORP_PARSE_BLOCK \<or> rc = AUTORP_PARSE_PREFIX \<Longrightarrow> c_left c' < c_left c"
  by (auto simp: autorp_parse_step_def cursor_step_def autorp_lens split: if_splits bind_splits)

function autorp_parse_next ::
    "bytes \<Rightarrow> autorp_cursor \<Rightarrow> autorp_wire_prefix \<Rightarrow> (autorp_rc \<times> autorp_cursor \<times> autorp_wire_prefix) option" where
  "autorp_parse_next buf c prefix =
     (case autorp_parse_step buf c prefix of
        None \<Rightarrow> None
      | Some (rc, c', prefix') \<Rightarrow>
          if rc = AUTORP_PARSE_BLOCK then autorp_parse_next buf c' prefix' else Some (rc, c', prefix'))"
  by pat_completeness auto
termination
  by (relation "measure (\<lambda>(buf, c, prefix). c_left c)") (auto dest: autorp_step_decreases)

declare autorp_parse_next.simps [simp del]


section \<open>Every message is walked safely\<close>

lemma autorp_step_safe:
  assumes "cursor_ok buf c"
  shows "\<exists>rc c' prefix'. autorp_parse_step buf c prefix = Some (rc, c', prefix') \<and> cursor_ok buf c'"
  using assms
  by (auto simp: autorp_parse_step_def cursor_ok_def cursor_step_def autorp_lens wire_simps)

interpretation arp: record_walk "\<lambda>_. True" autorp_parse_step AUTORP_PARSE_BLOCK AUTORP_PARSE_DONE id autorp_parse_next
proof
  show "autorp_parse_next msg c s =
    (if True then
       (case autorp_parse_step msg c s of
          None \<Rightarrow> None
        | Some (rc, c', s') \<Rightarrow>
            if rc = AUTORP_PARSE_BLOCK then autorp_parse_next msg c' (id s') else Some (rc, c', s'))
     else Some (AUTORP_PARSE_DONE, c, s))" for msg c s
    by (subst autorp_parse_next.simps) (auto split: option.splits)
qed (use autorp_step_safe in blast, auto dest: autorp_step_decreases)

lemma autorp_next_rule:
  assumes "cursor_ok buf c"
  shows "\<exists>rc c' prefix'. autorp_parse_next buf c prefix = Some (rc, c', prefix') \<and> cursor_ok buf c' \<and>
    rc \<noteq> AUTORP_PARSE_BLOCK \<and> c_left c' \<le> c_left c \<and> (rc = AUTORP_PARSE_PREFIX \<longrightarrow> c_left c' < c_left c)"
proof -
  have "\<exists>rc c' prefix'. autorp_parse_next buf c prefix = Some (rc, c', prefix') \<and> cursor_ok buf c' \<and>
    (rc \<noteq> AUTORP_PARSE_BLOCK \<and> c_left c' \<le> c_left c \<and> (rc = AUTORP_PARSE_PREFIX \<longrightarrow> c_left c' < c_left c))"
  proof (rule arp.walk_rule [where P = "\<lambda>c' _. c_left c' \<le> c_left c"])
    show "c_left c2 \<le> c_left c"
      if "c_left c1 \<le> c_left c" "autorp_parse_step buf c1 s = Some (AUTORP_PARSE_BLOCK, c2, s')" for c1 s c2 s'
      using autorp_step_decreases [OF that(2)] that(1) by simp
    show "rc \<noteq> AUTORP_PARSE_BLOCK \<and> c_left c2 \<le> c_left c \<and> (rc = AUTORP_PARSE_PREFIX \<longrightarrow> c_left c2 < c_left c)"
      if "c_left c1 \<le> c_left c" "autorp_parse_step buf c1 s = Some (rc, c2, s')" "rc \<noteq> AUTORP_PARSE_BLOCK" for c1 s rc c2 s'
      using that by (auto simp: autorp_parse_step_def cursor_step_def autorp_lens split: if_splits bind_splits)
  qed (use assms in simp_all)
  then show ?thesis by blast
qed

text \<open>
  The loop of \<open>accept_autorp\<close> over the prefixes of a message, as the prefixes it is handed, with a
  bound on the steps that \<open>autorp_prefixes_enough\<close> shows to be no bound.
\<close>

fun autorp_prefixes :: "nat \<Rightarrow> bytes \<Rightarrow> autorp_cursor \<Rightarrow> autorp_wire_prefix \<Rightarrow>
    (autorp_rc \<times> autorp_wire_prefix list) option" where
  "autorp_prefixes 0 buf c prefix = None"
| "autorp_prefixes (Suc n) buf c prefix = do {
     (rc, c, prefix) \<leftarrow> autorp_parse_next buf c prefix;
     (if rc = AUTORP_PARSE_PREFIX then do {
        (rc, ps) \<leftarrow> autorp_prefixes n buf c prefix;
        Some (rc, prefix # ps) }
      else Some (rc, [])) }"

lemma autorp_prefixes_enough:
  "cursor_ok buf c \<Longrightarrow> c_left c < n \<Longrightarrow> \<exists>rc ps. autorp_prefixes n buf c prefix = Some (rc, ps) \<and>
     rc \<noteq> AUTORP_PARSE_PREFIX \<and> rc \<noteq> AUTORP_PARSE_BLOCK \<and> length ps \<le> c_left c"
proof (induction n arbitrary: c prefix)
  case (Suc n)
  obtain rc c1 p1 where nx: "autorp_parse_next buf c prefix = Some (rc, c1, p1)" and ok: "cursor_ok buf c1"
    "rc \<noteq> AUTORP_PARSE_BLOCK" "rc = AUTORP_PARSE_PREFIX \<longrightarrow> c_left c1 < c_left c"
    using autorp_next_rule [OF Suc.prems(1)] by blast
  show ?case
  proof (cases "rc = AUTORP_PARSE_PREFIX")
    case True
    then show ?thesis using Suc.IH [OF ok(1), of p1] Suc.prems(2) nx ok by fastforce
  qed (use nx ok in simp)
qed simp

text \<open>Once the walk has ended it stays ended.\<close>

lemma autorp_next_again:
  assumes "autorp_parse_next buf c prefix = Some (rc, c', prefix')" "rc \<noteq> AUTORP_PARSE_PREFIX" "cursor_ok buf c"
  shows "autorp_parse_next buf c' p = Some (rc, c', p)"
proof -
  have "\<exists>rc c' prefix'. autorp_parse_next buf c prefix = Some (rc, c', prefix') \<and> cursor_ok buf c' \<and>
    (rc \<noteq> AUTORP_PARSE_PREFIX \<longrightarrow> rc \<noteq> AUTORP_PARSE_BLOCK \<and> (\<forall>p. autorp_parse_step buf c' p = Some (rc, c', p)))"
  proof (rule arp.walk_rule [where P = "\<lambda>_ _. True"])
    show "rc \<noteq> AUTORP_PARSE_PREFIX \<longrightarrow> rc \<noteq> AUTORP_PARSE_BLOCK \<and> (\<forall>p. autorp_parse_step buf c2 p = Some (rc, c2, p))"
      if "autorp_parse_step buf c1 s = Some (rc, c2, s')" "rc \<noteq> AUTORP_PARSE_BLOCK" for c1 s rc c2 s'
      using that by (auto simp: autorp_parse_step_def split: if_splits bind_splits)
  qed (use assms in simp_all)
  then have "rc \<noteq> AUTORP_PARSE_BLOCK" "autorp_parse_step buf c' p = Some (rc, c', p)" using assms by auto
  then show ?thesis by (subst autorp_parse_next.simps) simp
qed

lemma autorp_hdr_returns:
  "\<exists>r. autorp_parse_hdr buf = Some r \<and> (\<forall>c hdr. r = Inr (c, hdr) \<longrightarrow> cursor_ok buf c \<and> c_left c + 8 = length buf)"
proof (cases "length buf < autorp_hdr_len")
  case False
  then have "buf \<noteq> []" by (auto simp: autorp_lens)
  then show ?thesis using False by (auto simp: autorp_parse_hdr_def autorp_lens cursor_ok_def wire_simps)
qed (simp add: autorp_parse_hdr_def)


section \<open>Properties\<close>

text \<open>
  C36: An Auto-RP message is walked to its end: every step reads inside the message, and the walk over
  the prefixes of all its RPs ends after at most as many prefixes as the message has bytes, with an
  answer that a further call repeats.
\<close>
theorem autorp_walk_ends:
  assumes "autorp_parse_hdr buf = Some (Inr (c, hdr))"
  shows "\<exists>rc ps. autorp_prefixes (length buf) buf c prefix = Some (rc, ps) \<and> rc \<noteq> AUTORP_PARSE_PREFIX \<and>
    rc \<noteq> AUTORP_PARSE_BLOCK \<and> length ps \<le> length buf"
proof -
  have "cursor_ok buf c" "c_left c + 8 = length buf" using autorp_hdr_returns [of buf] assms by auto
  then show ?thesis using autorp_prefixes_enough [of buf c "length buf" prefix] by fastforce
qed

theorem autorp_walk_ends_witness:
  "\<exists>rc ps. autorp_prefixes (length ([0x11, 1, 0, 181, 0, 0, 0, 0, 10, 0, 0, 1, 2, 1, 0, 8, 239, 0, 0, 0] :: bytes))
      [0x11, 1, 0, 181, 0, 0, 0, 0, 10, 0, 0, 1, 2, 1, 0, 8, 239, 0, 0, 0]
      \<lparr>c_p = 8, c_left = 12, ac_rpcnt = 1, ac_grpcnt = 0, ac_rp_addr = 0\<rparr>
      \<lparr>ap_rp_addr = 0, ap_group_addr = 0, ap_masklen = 0, ap_negative = 0\<rparr> = Some (rc, ps) \<and>
    rc \<noteq> AUTORP_PARSE_PREFIX \<and> rc \<noteq> AUTORP_PARSE_BLOCK \<and>
    length ps \<le> length ([0x11, 1, 0, 181, 0, 0, 0, 0, 10, 0, 0, 1, 2, 1, 0, 8, 239, 0, 0, 0] :: bytes)"
  by (rule autorp_walk_ends [where hdr = "\<lparr>ah_version = 1, ah_type = 1, ah_rpcnt = 1, ah_holdtime = 181\<rparr>"])
     (simp add: autorp_parse_hdr_def autorp_lens get_hostshort_def be16_def autorp_version_of_def autorp_type_of_def)

end
