(* ===== verification/Igmp_Parse.thy ===== *)
theory Igmp_Parse
  imports Pim_Parse
begin

text \<open>
  The decoders of \<^verbatim>\<open>src/igmp_parse.c\<close>: the packet off the IGMP socket, an IGMPv3 Membership Report
  with its group records, and an mtrace packet.
\<close>


section \<open>The packet\<close>

record igmp_pkt =
  pkt_src :: u32
  pkt_dst :: u32
  pkt_proto :: u8
  pkt_iphdrlen :: nat
  pkt_ipdatalen :: nat
  pkt_igmp :: "nat option"
  pkt_type :: u8
  pkt_code :: u8
  pkt_group :: u32
  pkt_query_version :: nat

datatype igmp_pkt_rc = IGMP_PKT_OK | IGMP_PKT_SHORT | IGMP_PKT_UPCALL | IGMP_PKT_BAD_HLEN | IGMP_PKT_SHORT_IGMP

definition igmp_pkt_zero :: igmp_pkt where
  "igmp_pkt_zero = \<lparr>pkt_src = 0, pkt_dst = 0, pkt_proto = 0, pkt_iphdrlen = 0, pkt_ipdatalen = 0,
     pkt_igmp = None, pkt_type = 0, pkt_code = 0, pkt_group = 0, pkt_query_version = 0\<rparr>"

definition igmp_parse_packet :: "bytes \<Rightarrow> (igmp_pkt_rc \<times> igmp_pkt) option" where
  "igmp_parse_packet buf =
     (if length buf < 20 then Some (IGMP_PKT_SHORT, igmp_pkt_zero)
      else do {
        proto \<leftarrow> rd buf 9;
        (src, _) \<leftarrow> get_netlong buf 12;
        (dst, _) \<leftarrow> get_netlong buf 16;
        let pkt = igmp_pkt_zero\<lparr>pkt_proto := proto, pkt_src := src, pkt_dst := dst\<rparr>;
        (if proto = 0 then Some (IGMP_PKT_UPCALL, pkt)
         else do {
           vhl \<leftarrow> rd buf 0;
           let hlen = unat (vhl AND 0x0f) * 4;
           let pkt = pkt\<lparr>pkt_iphdrlen := hlen\<rparr>;
           (if hlen < 20 \<or> length buf < hlen then Some (IGMP_PKT_BAD_HLEN, pkt)
            else do {
              let dlen = length buf - hlen;
              let pkt = pkt\<lparr>pkt_ipdatalen := dlen\<rparr>;
              (if dlen < 8 then Some (IGMP_PKT_SHORT_IGMP, pkt)
               else do {
                 ty \<leftarrow> rd buf hlen;
                 code \<leftarrow> rd buf (hlen + 1);
                 (grp, _) \<leftarrow> get_netlong buf (hlen + 4);
                 Some (IGMP_PKT_OK,
                   pkt\<lparr>pkt_igmp := Some hlen, pkt_type := ty, pkt_code := code, pkt_group := grp,
                       pkt_query_version :=
                         (if dlen = 8 then (if code = 0 then 1 else 2)
                          else if 8 + 4 \<le> dlen then 3 else 0)\<rparr>) }) }) }) })"


section \<open>A Membership Report\<close>

record igmpv3_cursor = pim_cursor +
  ic_ngrec :: nat

record igmpv3_rec =
  ir_type :: u8
  ir_group :: u32
  ir_nsrcs :: u16
  ir_srcs :: nat
  ir_size :: nat

datatype igmpv3_rc = IGMPV3_OK | IGMPV3_SHORT | IGMPV3_DONE | IGMPV3_RECORD | IGMPV3_SHORT_HDR | IGMPV3_SHORT_REC

text \<open>The type and the record count are returned beside the cursor; the C leaves all three alone on a refusal.\<close>

definition igmpv3_parse_report ::
    "bytes \<Rightarrow> igmpv3_cursor \<Rightarrow> u8 \<Rightarrow> u16 \<Rightarrow> (igmpv3_rc \<times> igmpv3_cursor \<times> u8 \<times> u16) option" where
  "igmpv3_parse_report report c ty ngrec =
     (if length report < 8 then Some (IGMPV3_SHORT, c, ty, ngrec)
      else do {
        ty \<leftarrow> rd report 0;
        (ngrec, _) \<leftarrow> get_hostshort report 6;
        Some (IGMPV3_OK, \<lparr>c_p = 8, c_left = length report - 8, ic_ngrec = unat ngrec\<rparr>, ty, ngrec) })"

definition igmpv3_parse_record ::
    "bytes \<Rightarrow> igmpv3_cursor \<Rightarrow> igmpv3_rec \<Rightarrow> (igmpv3_rc \<times> igmpv3_cursor \<times> igmpv3_rec) option" where
  "igmpv3_parse_record msg c rec =
     (let p = c_p c in
      if ic_ngrec c = 0 then Some (IGMPV3_DONE, c, rec)
      else if c_left c < 8 then Some (IGMPV3_SHORT_HDR, c, rec)
      else do {
        ty \<leftarrow> rd msg p;
        (nsrcs, _) \<leftarrow> get_hostshort msg (p + 2);
        (grp, _) \<leftarrow> get_netlong msg (p + 4);
        aux \<leftarrow> rd msg (p + 1);
        let size = 8 + unat nsrcs * 4 + unat aux * 4;
        let rec = \<lparr>ir_type = ty, ir_group = grp, ir_nsrcs = nsrcs, ir_srcs = p + 8, ir_size = size\<rparr>;
        (if c_left c < size then Some (IGMPV3_SHORT_REC, c, rec)
         else Some (IGMPV3_RECORD, (cursor_step c size)\<lparr>ic_ngrec := ic_ngrec c - 1\<rparr>, rec)) })"

definition igmpv3_source :: "bytes \<Rightarrow> igmpv3_rec \<Rightarrow> nat \<Rightarrow> u32 option" where
  "igmpv3_source msg rec i = do { (a, _) \<leftarrow> get_netlong msg (ir_srcs rec + i * 4); Some a }"


section \<open>An mtrace packet\<close>

datatype mtrace_type = MTRACE_NONE | QUERY | RESP

record mtrace_msg =
  mt_type :: mtrace_type
  mt_src :: u32
  mt_dst :: u32
  mt_raddr :: u32
  mt_rttl :: u8
  mt_qid :: u32
  mt_rcount :: nat

definition qlen :: nat where
  "qlen = 16"

definition rlen :: nat where
  "rlen = 32"

definition mtrace_zero :: mtrace_msg where
  "mtrace_zero = \<lparr>mt_type = MTRACE_NONE, mt_src = 0, mt_dst = 0, mt_raddr = 0, mt_rttl = 0, mt_qid = 0, mt_rcount = 0\<rparr>"

text \<open>\<open>True\<close> is the C's 0 and \<open>False\<close> its -1.\<close>

definition mtrace_parse :: "bytes \<Rightarrow> (bool \<times> mtrace_msg) option" where
  "mtrace_parse data =
     (let len = length data;
          ty = (if len = qlen then QUERY else if qlen < len \<and> (len - qlen) mod rlen = 0 then RESP else MTRACE_NONE)
      in if ty = MTRACE_NONE then Some (False, mtrace_zero)
         else do {
           (src, _) \<leftarrow> get_netlong data 0;
           (dst, _) \<leftarrow> get_netlong data 4;
           (raddr, _) \<leftarrow> get_netlong data 8;
           rttl \<leftarrow> rd data 12;
           a \<leftarrow> rd data 13;
           b \<leftarrow> rd data 14;
           d \<leftarrow> rd data 15;
           Some (True, \<lparr>mt_type = ty, mt_src = src, mt_dst = dst, mt_raddr = raddr, mt_rttl = rttl,
             mt_qid = push_bit 16 (ucast a) OR push_bit 8 (ucast b) OR ucast d,
             mt_rcount = (len - qlen) div rlen\<rparr>) })"


section \<open>The records of a report\<close>

text \<open>
  The loop of \<open>accept_membership_report\<close>, which takes the records one by one until the decoder says
  something else; the records it was handed are kept in order.
\<close>

definition igmpv3_collect ::
    "bytes \<Rightarrow> igmpv3_cursor \<Rightarrow> igmpv3_rec list \<times> igmpv3_rec \<Rightarrow>
     (igmpv3_rc \<times> igmpv3_cursor \<times> igmpv3_rec list \<times> igmpv3_rec) option" where
  "igmpv3_collect msg c s = do {
     (rc, c, rec) \<leftarrow> igmpv3_parse_record msg c (snd s);
     Some (rc, c, fst s, rec) }"

lemma igmpv3_record_decreases:
  "igmpv3_parse_record msg c rec = Some (IGMPV3_RECORD, c', rec') \<Longrightarrow> c_left c' < c_left c"
  by (auto simp: igmpv3_parse_record_def cursor_step_def Let_def split: if_splits bind_splits)

lemma igmpv3_collect_decreases:
  "igmpv3_collect msg c s = Some (IGMPV3_RECORD, c', s') \<Longrightarrow> c_left c' < c_left c"
  by (auto simp: igmpv3_collect_def dest: igmpv3_record_decreases split: bind_splits)

function igmpv3_records ::
    "bytes \<Rightarrow> igmpv3_cursor \<Rightarrow> igmpv3_rec list \<times> igmpv3_rec \<Rightarrow>
     (igmpv3_rc \<times> igmpv3_cursor \<times> igmpv3_rec list \<times> igmpv3_rec) option" where
  "igmpv3_records msg c s =
     (case igmpv3_collect msg c s of
        None \<Rightarrow> None
      | Some (rc, c', s') \<Rightarrow>
          if rc = IGMPV3_RECORD then igmpv3_records msg c' (fst s' @ [snd s'], snd s') else Some (rc, c', s'))"
  by pat_completeness auto
termination
  by (relation "measure (\<lambda>(msg, c, s). c_left c)") (auto dest: igmpv3_collect_decreases)

declare igmpv3_records.simps [simp del]

lemma igmpv3_record_safe:
  assumes "cursor_ok msg c"
  shows "\<exists>rc c' rec'. igmpv3_parse_record msg c rec = Some (rc, c', rec') \<and> cursor_ok msg c'"
  using assms
  by (auto simp: igmpv3_parse_record_def cursor_ok_def cursor_step_def wire_simps Let_def)

interpretation v3: record_walk "\<lambda>_. True" igmpv3_collect IGMPV3_RECORD IGMPV3_DONE
  "\<lambda>s. (fst s @ [snd s], snd s)" igmpv3_records
proof
  show "igmpv3_records msg c s =
    (if True then
       (case igmpv3_collect msg c s of
          None \<Rightarrow> None
        | Some (rc, c', s') \<Rightarrow>
            if rc = IGMPV3_RECORD then igmpv3_records msg c' (fst s' @ [snd s'], snd s') else Some (rc, c', s'))
     else Some (IGMPV3_DONE, c, s))" for msg c s
    by (subst igmpv3_records.simps) (auto split: option.splits)
  show "\<exists>rc c' s'. igmpv3_collect msg c s = Some (rc, c', s') \<and> cursor_ok msg c'" if "cursor_ok msg c" for msg c s
    using igmpv3_record_safe [OF that, of "snd s"] by (auto simp: igmpv3_collect_def)
qed (auto dest: igmpv3_collect_decreases)

definition igmpv3_rec_good :: "bytes \<Rightarrow> igmpv3_rec \<Rightarrow> bool" where
  "igmpv3_rec_good msg rec \<longleftrightarrow> list_all (\<lambda>i. igmpv3_source msg rec i \<noteq> None) [0 ..< unat (ir_nsrcs rec)]"

lemma igmpv3_record_ok:
  assumes "cursor_ok msg c" "igmpv3_parse_record msg c rec = Some (IGMPV3_RECORD, c', rec')"
  shows "igmpv3_rec_good msg rec' \<and> ic_ngrec c = Suc (ic_ngrec c') \<and> c_p c' = c_p c + ir_size rec' \<and> 8 \<le> ir_size rec'"
proof -
  have len: "ic_ngrec c \<noteq> 0" "8 \<le> c_left c"
    using assms(2) by (auto simp: igmpv3_parse_record_def Let_def split: if_splits)
  have b: "ir_size rec' \<le> c_left c" "ir_srcs rec' = c_p c + 8" "8 + unat (ir_nsrcs rec') * 4 \<le> ir_size rec'"
    "ic_ngrec c' = ic_ngrec c - 1" "c_p c' = c_p c + ir_size rec'"
    using assms len by (auto simp: igmpv3_parse_record_def cursor_ok_def cursor_step_def wire_simps Let_def split: if_splits)
  have "igmpv3_source msg rec' i \<noteq> None" if "i < unat (ir_nsrcs rec')" for i
  proof -
    have "ir_srcs rec' + i * 4 + 4 \<le> length msg" using that b assms(1) by (simp add: cursor_ok_def)
    then show ?thesis by (simp add: igmpv3_source_def get_netlong_Some)
  qed
  then show ?thesis using b len by (auto simp: igmpv3_rec_good_def list_all_iff)
qed

lemma igmpv3_records_walk:
  assumes "cursor_ok msg c"
  shows "\<exists>rc c' recs rec'. igmpv3_records msg c ([], rec) = Some (rc, c', recs, rec') \<and>
    (rc = IGMPV3_DONE) = (ic_ngrec c' = 0) \<and> list_all (igmpv3_rec_good msg) recs \<and> length recs + ic_ngrec c' = ic_ngrec c \<and>
    c_p c + sum_list (map ir_size recs) = c_p c' \<and> c_p c' \<le> length msg"
proof -
  let ?P = "\<lambda>c' s. list_all (igmpv3_rec_good msg) (fst s) \<and> length (fst s) + ic_ngrec c' = ic_ngrec c \<and>
    c_p c + sum_list (map ir_size (fst s)) = c_p c' "
  have "\<exists>rc c' s'. igmpv3_records msg c ([], rec) = Some (rc, c', s') \<and> cursor_ok msg c' \<and>
      ((rc = IGMPV3_DONE) = (ic_ngrec c' = 0) \<and> ?P c' s')"
  proof (rule v3.walk_rule [where P = ?P])
    show "?P c2 (fst s2 @ [snd s2], snd s2)"
      if "cursor_ok msg c1" "?P c1 s" "igmpv3_collect msg c1 s = Some (IGMPV3_RECORD, c2, s2)" for c1 s c2 s2
      using that igmpv3_record_ok [OF that(1), of "snd s" c2 "snd s2"]
      by (auto simp: igmpv3_collect_def split: bind_splits)
    show "(rc = IGMPV3_DONE) = (ic_ngrec c2 = 0) \<and> ?P c2 s2"
      if "?P c1 s" "igmpv3_collect msg c1 s = Some (rc, c2, s2)" "rc \<noteq> IGMPV3_RECORD" for c1 s rc c2 s2
      using that by (auto simp: igmpv3_collect_def igmpv3_parse_record_def Let_def split: bind_splits if_splits)
  qed (use assms in simp_all)
  then show ?thesis by (force simp: cursor_ok_def)
qed

lemma rd_first: "\<not> length msg < Suc n \<Longrightarrow> rd msg 0 = Some (msg ! 0)"
  by (cases msg) simp_all

lemma igmp_parse_packet_returns: "\<exists>rc pkt. igmp_parse_packet buf = Some (rc, pkt)"
proof (cases "length buf < 20")
  case False
  then show ?thesis using rd_first [of buf 19] by (auto simp: igmp_parse_packet_def wire_simps Let_def)
qed (simp add: igmp_parse_packet_def)

lemma igmp_parse_packet_ok:
  assumes "igmp_parse_packet buf = Some (IGMP_PKT_OK, pkt)"
  shows "pkt_igmp pkt = Some (pkt_iphdrlen pkt) \<and> 20 \<le> pkt_iphdrlen pkt \<and>
    pkt_iphdrlen pkt + pkt_ipdatalen pkt = length buf \<and> 8 \<le> pkt_ipdatalen pkt \<and>
    pkt_query_version pkt = (if pkt_ipdatalen pkt = 8 then (if pkt_code pkt = 0 then 1 else 2)
      else if pkt_ipdatalen pkt < 12 then 0 else 3)"
proof -
  have "\<not> length buf < 20" using assms by (auto simp: igmp_parse_packet_def split: if_splits)
  then show ?thesis using assms rd_first [of buf 19]
    by (auto simp: igmp_parse_packet_def wire_simps Let_def split: if_splits)
qed

lemma igmpv3_parse_report_returns:
  "\<exists>rc c' ty' n'. igmpv3_parse_report msg c ty n = Some (rc, c', ty', n') \<and>
     (rc = IGMPV3_OK \<longrightarrow> cursor_ok msg c' \<and> ic_ngrec c' = unat n')"
proof (cases "length msg < 8")
  case False
  then show ?thesis using rd_first [of msg 7] by (auto simp: igmpv3_parse_report_def cursor_ok_def wire_simps)
qed (simp add: igmpv3_parse_report_def)

lemma mtrace_parse_returns: "\<exists>rc m. mtrace_parse data = Some (rc, m)"
proof (cases "length data < 16")
  case False
  then show ?thesis by (auto simp: mtrace_parse_def qlen_def rlen_def get_netlong_Some Let_def)
qed (auto simp: mtrace_parse_def qlen_def Let_def)

lemma mtrace_parse_len:
  "mtrace_parse data = Some (True, m) \<Longrightarrow> length data = qlen + mt_rcount m * rlen \<and> (mt_type m = QUERY \<longleftrightarrow> mt_rcount m = 0)"
  by (auto simp: mtrace_parse_def qlen_def rlen_def wire_simps Let_def split: if_splits)


section \<open>Properties\<close>

text \<open>
  C25: A Membership Report is walked to its end: whatever the bytes behind its header are, the
  records are read without leaving the packet and the walk ends; every record handed out has its
  sources inside the packet, the records lie end to end behind the header, and the walk ends with
  \<open>IGMPV3_DONE\<close> exactly when it has handed out as many records as the header counts.
\<close>
theorem igmpv3_report_walk:
  assumes "8 \<le> length msg"
  shows "\<exists>c ty n rc c' recs rec'. igmpv3_parse_report msg c0 ty0 n0 = Some (IGMPV3_OK, c, ty, n) \<and>
    igmpv3_records msg c ([], rec) = Some (rc, c', recs, rec') \<and> list_all (igmpv3_rec_good msg) recs \<and>
    8 + sum_list (map ir_size recs) = c_p c' \<and> c_p c' \<le> length msg \<and>
    length recs \<le> unat n \<and> (rc = IGMPV3_DONE) = (length recs = unat n)"
proof -
  define c where "c = \<lparr>c_p = 8, c_left = length msg - 8, ic_ngrec = unat (be16 (msg ! 6) (msg ! 7))\<rparr>"
  have r: "igmpv3_parse_report msg c0 ty0 n0 = Some (IGMPV3_OK, c, msg ! 0, be16 (msg ! 6) (msg ! 7))" "cursor_ok msg c"
      "ic_ngrec c = unat (be16 (msg ! 6) (msg ! 7))" "c_p c = 8"
    using assms rd_first [of msg 7] by (auto simp: igmpv3_parse_report_def cursor_ok_def wire_simps c_def)
  then show ?thesis using igmpv3_records_walk [OF r(2), of rec] by fastforce
qed

theorem igmpv3_report_walk_witness:
  "\<exists>c ty n rc c' recs rec'. igmpv3_parse_report [0x22, 0, 0, 0, 0, 0, 0, 1, 4, 0, 0, 1, 1, 1, 1, 239, 9, 9, 9, 9] \<lparr>c_p = 0, c_left = 0, ic_ngrec = 0\<rparr> 0 0 =
       Some (IGMPV3_OK, c, ty, n) \<and>
    igmpv3_records [0x22, 0, 0, 0, 0, 0, 0, 1, 4, 0, 0, 1, 1, 1, 1, 239, 9, 9, 9, 9] c ([], \<lparr>ir_type = 0, ir_group = 0, ir_nsrcs = 0, ir_srcs = 0, ir_size = 0\<rparr>) =
       Some (rc, c', recs, rec') \<and> length recs \<le> unat n"
  using igmpv3_report_walk [of "[0x22, 0, 0, 0, 0, 0, 0, 1, 4, 0, 0, 1, 1, 1, 1, 239, 9, 9, 9, 9]"
    "\<lparr>c_p = 0, c_left = 0, ic_ngrec = 0\<rparr>" 0 0 "\<lparr>ir_type = 0, ir_group = 0, ir_nsrcs = 0, ir_srcs = 0, ir_size = 0\<rparr>"] by auto

text \<open>
  A packet off the IGMP socket that is accepted has its IGMP header where the result says, whole,
  behind an IP header of its own length, and the version of a Query is the one its length and its
  code give; no packet makes the decoder read past its end.
\<close>
theorem igmp_packet_ok:
  assumes "igmp_parse_packet buf = Some (IGMP_PKT_OK, pkt)"
  shows "pkt_igmp pkt = Some (pkt_iphdrlen pkt) \<and> 20 \<le> pkt_iphdrlen pkt \<and>
     pkt_iphdrlen pkt + pkt_ipdatalen pkt = length buf \<and> 8 \<le> pkt_ipdatalen pkt \<and>
     pkt_query_version pkt = (if pkt_ipdatalen pkt = 8 then (if pkt_code pkt = 0 then 1 else 2)
       else if pkt_ipdatalen pkt < 12 then 0 else 3) \<and> igmp_parse_packet other \<noteq> None"
  using igmp_parse_packet_ok [OF assms] igmp_parse_packet_returns [of other] by auto

theorem igmp_packet_ok_witness:
  "igmp_parse_packet [0x45, 0, 0, 28, 0, 0, 0, 0, 1, 2] \<noteq> None"
proof -
  have "igmp_parse_packet [0x45, 0, 0, 28, 0, 0, 0, 0, 1, 2, 0, 0, 10, 0, 0, 9, 224, 0, 0, 1, 0x11, 100, 0, 0, 0, 0, 0, 0] =
    Some (IGMP_PKT_OK, \<lparr>pkt_src = 150994954, pkt_dst = 16777440, pkt_proto = 2, pkt_iphdrlen = 20, pkt_ipdatalen = 8,
      pkt_igmp = Some 20, pkt_type = 17, pkt_code = 100, pkt_group = 0, pkt_query_version = 2\<rparr>)" by code_simp
  from igmp_packet_ok [OF this] show ?thesis by blast
qed

text \<open>
  An mtrace packet is accepted only with a whole number of response blocks behind its query, and
  is a Query exactly when it has none; no packet makes the decoder read past its end.
\<close>
theorem mtrace_whole_blocks:
  "\<exists>ok m. mtrace_parse data = Some (ok, m) \<and>
     (ok = False \<or> length data = qlen + mt_rcount m * rlen \<and> (mt_type m = QUERY) = (mt_rcount m = 0))"
proof -
  obtain ok m where r: "mtrace_parse data = Some (ok, m)" using mtrace_parse_returns by blast
  then show ?thesis using mtrace_parse_len [of data m] by (cases ok) auto
qed

end
