(* ===== verification/Election.thy ===== *)
theory Election
  imports Main
begin

text \<open>
  The interface the elections of the daemon share: the Assert winner of a LAN, the elected
  bootstrap router, the designated router and the RP a group hashes to are each the best candidate
  in a strict total order.  Whoever compares candidates with such an order, one at a time and in
  whatever sequence the messages arrive, ends up with the same one.
\<close>

definition is_best :: "('a \<Rightarrow> 'a \<Rightarrow> bool) \<Rightarrow> 'a set \<Rightarrow> 'a \<Rightarrow> bool" where
  "is_best beats S x \<longleftrightarrow> x \<in> S \<and> (\<forall>y\<in>S. y \<noteq> x \<longrightarrow> beats x y)"

definition challenge :: "('a \<Rightarrow> 'a \<Rightarrow> bool) \<Rightarrow> 'a \<Rightarrow> 'a \<Rightarrow> 'a" where
  "challenge beats b y = (if beats b y then b else y)"

lemma is_best_singleton [simp]: "is_best beats {x} y \<longleftrightarrow> y = x"
  by (auto simp: is_best_def)

locale election =
  fixes beats :: "'a \<Rightarrow> 'a \<Rightarrow> bool"
  assumes irrefl: "\<not> beats x x"
    and trans: "beats x y \<Longrightarrow> beats y z \<Longrightarrow> beats x z"
    and total: "x \<noteq> y \<Longrightarrow> beats x y \<or> beats y x"
begin

lemma asym: "beats x y \<Longrightarrow> \<not> beats y x"
  using irrefl [of x] trans [of x y x] by blast

lemma not_beats: "\<not> beats x y \<longleftrightarrow> x = y \<or> beats y x"
  using asym [of x y] asym [of y x] irrefl [of x] total [of x y] by blast

lemma best_unique: "is_best beats S x \<Longrightarrow> is_best beats S y \<Longrightarrow> x = y"
  unfolding is_best_def by (rule ccontr) (use asym [of x y] in auto)

lemma best_insert: "is_best beats S b \<Longrightarrow> is_best beats (insert y S) (challenge beats b y)"
  unfolding is_best_def challenge_def by (cases "beats b y") (use not_beats [of b y] trans [of y b] in auto)

lemma best_fold: "is_best beats S b \<Longrightarrow> is_best beats (S \<union> set ys) (foldl (challenge beats) b ys)"
proof (induction ys arbitrary: S b)
  case (Cons y ys)
  show ?case using Cons.IH [OF best_insert [OF Cons.prems, of y]] by simp
qed simp

lemma best_exists: "finite S \<Longrightarrow> S \<noteq> {} \<Longrightarrow> \<exists>x. is_best beats S x"
proof (induction rule: finite_ne_induct)
  case (singleton x)
  show ?case by simp
next
  case (insert y S)
  from insert.IH obtain b where "is_best beats S b" ..
  from best_insert [OF this, of y] show ?case by (rule exI)
qed

lemma fold_any_order:
  "set xs = set ys \<Longrightarrow> x \<in> set ys \<Longrightarrow> y \<in> set xs \<Longrightarrow>
     foldl (challenge beats) x xs = foldl (challenge beats) y ys"
  by (rule best_unique [of "set ys"]) (use best_fold [of "{x}" x xs] best_fold [of "{y}" y ys] in \<open>simp_all add: insert_absorb\<close>)

end

text \<open>An order read through an injective key is an election too.\<close>

lemma election_inj_key:
  fixes key :: "'a \<Rightarrow> 'k::linorder"
  assumes "inj key"
  shows "election (\<lambda>x y. key x < key y)"
  by unfold_locales (simp, erule (1) less_trans, metis assms injD linorder_neq_iff)

end
