(* ===== verification/Pim_Jp.thy ===== *)
theory Pim_Jp
  imports Pimd_Prelude "HOL-Library.Extended_Nat"
begin

text \<open>
  The downstream Join/Prune machines of \<^verbatim>\<open>src/pim_jp.c\<close>, with the timer arithmetic and the bits an
  entry keeps their states in.  The states, events and timer operations of the C are integer
  constants and are datatypes here.
\<close>


section \<open>The machines\<close>

datatype jp_ds = JP_DS_NI | JP_DS_J | JP_DS_PP
datatype jp_ev = JP_EV_JOIN | JP_EV_PRUNE | JP_EV_PPT | JP_EV_ET
datatype rpt_ds = RPT_DS_NI | RPT_DS_P | RPT_DS_PP | RPT_DS_PT | RPT_DS_PPT
datatype rpt_ev = RPT_EV_JOIN_WC | RPT_EV_JOIN_RPT | RPT_EV_PRUNE_RPT | RPT_EV_EOM | RPT_EV_PPT | RPT_EV_ET
datatype jp_et = JP_ET_KEEP | JP_ET_SET | JP_ET_MAX | JP_ET_CANCEL
datatype jp_ppt = JP_PPT_KEEP | JP_PPT_START | JP_PPT_CANCEL

record 'state jp_action =
  act_state :: 'state
  act_et :: jp_et
  act_ppt :: jp_ppt
  act_echo :: bool

definition jp_act :: "'state \<Rightarrow> jp_et \<Rightarrow> jp_ppt \<Rightarrow> bool \<Rightarrow> 'state jp_action" where
  "jp_act state et ppt echo = \<lparr>act_state = state, act_et = et, act_ppt = ppt, act_echo = echo\<rparr>"

definition jp_ds_decide :: "jp_ds \<Rightarrow> jp_ev \<Rightarrow> bool \<Rightarrow> jp_ds jp_action" where
  "jp_ds_decide state event ppt_zero =
     (case event of
        JP_EV_JOIN \<Rightarrow>
          (if state = JP_DS_NI then jp_act JP_DS_J JP_ET_SET JP_PPT_KEEP False
           else if state = JP_DS_PP then jp_act JP_DS_J JP_ET_MAX JP_PPT_CANCEL False
           else jp_act JP_DS_J JP_ET_MAX JP_PPT_KEEP False)
      | JP_EV_PRUNE \<Rightarrow>
          (if state \<noteq> JP_DS_J then jp_act state JP_ET_KEEP JP_PPT_KEEP False
           else if ppt_zero then jp_act JP_DS_NI JP_ET_CANCEL JP_PPT_KEEP False
           else jp_act JP_DS_PP JP_ET_KEEP JP_PPT_START False)
      | JP_EV_PPT \<Rightarrow>
          (if state \<noteq> JP_DS_PP then jp_act state JP_ET_KEEP JP_PPT_KEEP False
           else jp_act JP_DS_NI JP_ET_CANCEL JP_PPT_KEEP True)
      | JP_EV_ET \<Rightarrow>
          (if state = JP_DS_NI then jp_act state JP_ET_KEEP JP_PPT_KEEP False
           else jp_act JP_DS_NI JP_ET_KEEP (if state = JP_DS_PP then JP_PPT_CANCEL else JP_PPT_KEEP) False))"

definition rpt_ds_decide :: "rpt_ds \<Rightarrow> rpt_ev \<Rightarrow> bool \<Rightarrow> rpt_ds jp_action" where
  "rpt_ds_decide state event ppt_zero =
     (let stay = jp_act state JP_ET_KEEP JP_PPT_KEEP False in
      case event of
        RPT_EV_JOIN_WC \<Rightarrow>
          (if state = RPT_DS_P then jp_act RPT_DS_PT JP_ET_KEEP JP_PPT_KEEP False
           else if state = RPT_DS_PP then jp_act RPT_DS_PPT JP_ET_KEEP JP_PPT_KEEP False
           else stay)
      | RPT_EV_JOIN_RPT \<Rightarrow>
          (if state = RPT_DS_P \<or> state = RPT_DS_PP
           then jp_act RPT_DS_NI JP_ET_CANCEL JP_PPT_CANCEL False
           else stay)
      | RPT_EV_PRUNE_RPT \<Rightarrow>
          (if state = RPT_DS_NI then
             (if ppt_zero then jp_act RPT_DS_P JP_ET_SET JP_PPT_KEEP False
              else jp_act RPT_DS_PP JP_ET_SET JP_PPT_START False)
           else if state = RPT_DS_P \<or> state = RPT_DS_PT
           then jp_act RPT_DS_P JP_ET_MAX JP_PPT_KEEP False
           else if state = RPT_DS_PPT then jp_act RPT_DS_PP JP_ET_MAX JP_PPT_KEEP False
           else stay)
      | RPT_EV_EOM \<Rightarrow>
          (if state = RPT_DS_PT then jp_act RPT_DS_NI JP_ET_CANCEL JP_PPT_KEEP False
           else if state = RPT_DS_PPT then jp_act RPT_DS_NI JP_ET_CANCEL JP_PPT_CANCEL False
           else stay)
      | RPT_EV_PPT \<Rightarrow>
          (if state = RPT_DS_PP then jp_act RPT_DS_P JP_ET_KEEP JP_PPT_KEEP False else stay)
      | RPT_EV_ET \<Rightarrow>
          (if state = RPT_DS_P then jp_act RPT_DS_NI JP_ET_KEEP JP_PPT_KEEP False else stay))"


section \<open>The Expiry Timers\<close>

definition rpt_et_after :: "jp_et \<Rightarrow> u64 \<Rightarrow> u64 \<Rightarrow> u64" where
  "rpt_et_after et cur want =
     (if et = JP_ET_SET then want
      else if et = JP_ET_MAX \<and> cur \<noteq> 0 \<and> (want = 0 \<or> cur < want) then want
      else cur)"

definition jp_et_after :: "jp_et \<Rightarrow> u16 \<Rightarrow> u16 \<Rightarrow> u16" where
  "jp_et_after et cur holdtime =
     (if et = JP_ET_SET then holdtime
      else if et = JP_ET_MAX \<and> cur < holdtime then holdtime
      else if et = JP_ET_CANCEL then 0
      else cur)"


section \<open>The bits\<close>

record jp_ds_bits =
  jb_joined :: bool
  jb_sg_joined :: bool
  jb_pp :: bool

record rpt_ds_bits =
  rb_pruned :: bool
  rb_pp :: bool

definition jp_ds_read :: "jp_ds_bits \<Rightarrow> bool \<Rightarrow> jp_ds" where
  "jp_ds_read b wc =
     (if \<not> (if wc then jb_joined b else jb_sg_joined b) then JP_DS_NI
      else if jb_pp b then JP_DS_PP else JP_DS_J)"

definition jp_ds_write :: "jp_ds_bits \<Rightarrow> bool \<Rightarrow> jp_ds \<Rightarrow> jp_ds_bits" where
  "jp_ds_write b wc state =
     (let b = b\<lparr>jb_joined := state \<noteq> JP_DS_NI\<rparr>;
          b = (if \<not> wc then b\<lparr>jb_sg_joined := jb_joined b\<rparr> else b)
      in b\<lparr>jb_pp := (state = JP_DS_PP)\<rparr>)"

definition rpt_ds_read :: "rpt_ds_bits \<Rightarrow> bool \<Rightarrow> rpt_ds" where
  "rpt_ds_read b tmp =
     (if rb_pruned b then (if tmp then RPT_DS_PT else RPT_DS_P)
      else if rb_pp b then (if tmp then RPT_DS_PPT else RPT_DS_PP)
      else RPT_DS_NI)"

definition rpt_ds_write :: "rpt_ds \<Rightarrow> rpt_ds_bits" where
  "rpt_ds_write state =
     \<lparr>rb_pruned = (state = RPT_DS_P \<or> state = RPT_DS_PT), rb_pp = (state = RPT_DS_PP \<or> state = RPT_DS_PPT)\<rparr>"


section \<open>Bits and states\<close>

lemma jp_ds_read_write [simp]: "jp_ds_read (jp_ds_write b wc state) wc = state"
  by (cases state) (simp_all add: jp_ds_read_def jp_ds_write_def Let_def)

lemma jp_ds_write_other: "jb_sg_joined (jp_ds_write b True state) = jb_sg_joined b"
  by (simp add: jp_ds_write_def Let_def)

definition rpt_transient :: "rpt_ds \<Rightarrow> bool" where
  "rpt_transient state \<longleftrightarrow> state = RPT_DS_PT \<or> state = RPT_DS_PPT"

lemma rpt_ds_read_write:
  "state = RPT_DS_NI \<or> rpt_transient state = tmp \<Longrightarrow> rpt_ds_read (rpt_ds_write state) tmp = state"
  by (cases state) (auto simp: rpt_ds_read_def rpt_ds_write_def rpt_transient_def)


section \<open>The machines with their timers\<close>

text \<open>
  A machine on one interface as the entry holds it: its state, and which of its two timers run.  A
  timer that expires has stopped when the event is handled.
\<close>

record 'state jp_machine =
  jm_state :: 'state
  jm_et :: bool
  jm_ppt :: bool

definition et_runs :: "jp_et \<Rightarrow> bool \<Rightarrow> bool" where
  "et_runs op running = (case op of JP_ET_KEEP \<Rightarrow> running | JP_ET_CANCEL \<Rightarrow> False | _ \<Rightarrow> True)"

definition ppt_runs :: "jp_ppt \<Rightarrow> bool \<Rightarrow> bool" where
  "ppt_runs op running = (case op of JP_PPT_KEEP \<Rightarrow> running | JP_PPT_START \<Rightarrow> True | JP_PPT_CANCEL \<Rightarrow> False)"

definition act_on :: "'state jp_action \<Rightarrow> 'state jp_machine \<Rightarrow> 'state jp_machine" where
  "act_on a m = \<lparr>jm_state = act_state a, jm_et = et_runs (act_et a) (jm_et m), jm_ppt = ppt_runs (act_ppt a) (jm_ppt m)\<rparr>"

text \<open>A timer event happens only while the timer runs, and stops it.\<close>

inductive jp_step :: "jp_ds jp_machine \<Rightarrow> jp_ds jp_machine \<Rightarrow> bool" where
  jp_recv: "ev = JP_EV_JOIN \<or> ev = JP_EV_PRUNE \<Longrightarrow> jp_step m (act_on (jp_ds_decide (jm_state m) ev z) m)"
| jp_et: "jm_et m \<Longrightarrow> jp_step m (act_on (jp_ds_decide (jm_state m) JP_EV_ET z) (m\<lparr>jm_et := False\<rparr>))"
| jp_ppt: "jm_ppt m \<Longrightarrow> jp_step m (act_on (jp_ds_decide (jm_state m) JP_EV_PPT z) (m\<lparr>jm_ppt := False\<rparr>))"

text \<open>
  The (S,G,rpt) machine handles one group set as a whole: a Join(*,G) first, when there is one, then
  the Joins and Prunes of the source in the set, and the end of the message.  Its Expiry Timer is
  the longer of the two, so it does not run out in Prune-Pending.
\<close>

fun rpt_recv :: "rpt_ev list \<Rightarrow> bool \<Rightarrow> rpt_ds jp_machine \<Rightarrow> rpt_ds jp_machine" where
  "rpt_recv [] z m = m"
| "rpt_recv (ev # evs) z m = rpt_recv evs z (act_on (rpt_ds_decide (jm_state m) ev z) m)"

inductive rpt_step :: "rpt_ds jp_machine \<Rightarrow> rpt_ds jp_machine \<Rightarrow> bool" where
  rpt_msg: "set evs \<subseteq> {RPT_EV_JOIN_WC, RPT_EV_JOIN_RPT, RPT_EV_PRUNE_RPT} \<Longrightarrow>
     rpt_step m (rpt_recv (evs @ [RPT_EV_EOM]) z m)"
| rpt_et: "jm_et m \<Longrightarrow> jm_state m \<noteq> RPT_DS_PP \<Longrightarrow>
     rpt_step m (act_on (rpt_ds_decide (jm_state m) RPT_EV_ET z) (m\<lparr>jm_et := False\<rparr>))"
| rpt_ppt: "jm_ppt m \<Longrightarrow> rpt_step m (act_on (rpt_ds_decide (jm_state m) RPT_EV_PPT z) (m\<lparr>jm_ppt := False\<rparr>))"

definition jp_inv :: "jp_ds jp_machine \<Rightarrow> bool" where
  "jp_inv m \<longleftrightarrow> jm_et m = (jm_state m \<noteq> JP_DS_NI) \<and> jm_ppt m = (jm_state m = JP_DS_PP)"

definition rpt_inv :: "rpt_ds jp_machine \<Rightarrow> bool" where
  "rpt_inv m \<longleftrightarrow> jm_et m = (jm_state m \<noteq> RPT_DS_NI) \<and> jm_ppt m = (jm_state m = RPT_DS_PP \<or> jm_state m = RPT_DS_PPT)"

lemmas machine_defs = act_on_def et_runs_def ppt_runs_def jp_act_def

lemma jp_inv_step: "jp_step m m' \<Longrightarrow> jp_inv m \<Longrightarrow> jp_inv m'"
  by (induction rule: jp_step.induct)
     (auto simp: jp_inv_def jp_ds_decide_def machine_defs split: jp_ev.splits)

lemma rpt_inv_event:
  "ev \<in> {RPT_EV_JOIN_WC, RPT_EV_JOIN_RPT, RPT_EV_PRUNE_RPT, RPT_EV_EOM} \<Longrightarrow> rpt_inv m \<Longrightarrow>
     rpt_inv (act_on (rpt_ds_decide (jm_state m) ev z) m)"
  by (cases "jm_state m") (auto simp: rpt_inv_def rpt_ds_decide_def machine_defs)

lemma rpt_inv_recv:
  "set evs \<subseteq> {RPT_EV_JOIN_WC, RPT_EV_JOIN_RPT, RPT_EV_PRUNE_RPT, RPT_EV_EOM} \<Longrightarrow> rpt_inv m \<Longrightarrow>
     rpt_inv (rpt_recv evs z m)"
proof (induction evs arbitrary: m)
  case (Cons ev evs)
  then show ?case using rpt_inv_event [of ev m z] by (simp del: insert_iff)
qed simp

lemma rpt_recv_append: "rpt_recv (xs @ ys) z m = rpt_recv ys z (rpt_recv xs z m)"
  by (induction xs arbitrary: m) simp_all

lemma rpt_eom_stable: "\<not> rpt_transient (jm_state (rpt_recv (evs @ [RPT_EV_EOM]) z m))"
  by (cases "jm_state (rpt_recv evs z m)")
     (simp_all add: rpt_recv_append rpt_ds_decide_def machine_defs rpt_transient_def)

lemma rpt_inv_step:
  "rpt_step m m' \<Longrightarrow> rpt_inv m \<and> \<not> rpt_transient (jm_state m) \<Longrightarrow> rpt_inv m' \<and> \<not> rpt_transient (jm_state m')"
proof (induction rule: rpt_step.induct)
  case (rpt_msg evs m z)
  then have "rpt_inv (rpt_recv (evs @ [RPT_EV_EOM]) z m)" by (intro rpt_inv_recv) auto
  then show ?case using rpt_eom_stable by blast
next
  case (rpt_et m z)
  then show ?case by (cases "jm_state m") (auto simp: rpt_inv_def rpt_ds_decide_def machine_defs rpt_transient_def)
next
  case (rpt_ppt m z)
  then show ?case by (cases "jm_state m") (auto simp: rpt_inv_def rpt_ds_decide_def machine_defs rpt_transient_def)
qed

lemma jp_reachable_inv:
  "jp_step\<^sup>*\<^sup>* \<lparr>jm_state = JP_DS_NI, jm_et = False, jm_ppt = False\<rparr> m \<Longrightarrow> jp_inv m"
proof (induction rule: rtranclp_induct)
  case base
  then show ?case by (simp add: jp_inv_def)
next
  case (step y z)
  then show ?case using jp_inv_step by blast
qed

lemma rpt_reachable_inv:
  "rpt_step\<^sup>*\<^sup>* \<lparr>jm_state = RPT_DS_NI, jm_et = False, jm_ppt = False\<rparr> m \<Longrightarrow>
     rpt_inv m \<and> \<not> rpt_transient (jm_state m)"
proof (induction rule: rtranclp_induct)
  case base
  then show ?case by (simp add: rpt_inv_def rpt_transient_def)
next
  case (step y z)
  then show ?case using rpt_inv_step by blast
qed


section \<open>Timer values\<close>

text \<open>
  Held, a HoldTime of 0xffff, is the largest value there is: 0xffff itself for the countdown of
  \<open>jp_et_after\<close>, and a deadline of zero for \<open>rpt_et_after\<close>.
\<close>

definition deadline :: "u64 \<Rightarrow> enat" where
  "deadline t = (if t = 0 then \<infinity> else enat (unat t))"

lemma jp_et_after_max: "jp_et_after JP_ET_MAX cur h = max cur h"
  by (auto simp: jp_et_after_def max_def)

lemma rpt_et_after_max: "deadline (rpt_et_after JP_ET_MAX cur want) = max (deadline cur) (deadline want)"
  by (auto simp: rpt_et_after_def deadline_def max_def word_less_nat_alt)


section \<open>Properties\<close>





text \<open>
  C37: A state written to the bits of an entry is the state read back from them: for the (*,G) and
  (S,G) machine always, and for the (S,G,rpt) machine when it is read in the mode it was written in,
  transient inside a message and settled outside one.  A HoldTime that is to be the maximum of the
  running and the new one is that maximum, with Held the largest.
\<close>
theorem downstream_bits_roundtrip:
  "jp_ds_read (jp_ds_write b wc state) wc = state \<and>
   rpt_ds_read (rpt_ds_write rstate) (rpt_transient rstate) = rstate \<and>
   jp_et_after JP_ET_MAX cur h = max cur h \<and>
   deadline (rpt_et_after JP_ET_MAX t t') = max (deadline t) (deadline t')"
  by (simp add: rpt_ds_read_write jp_et_after_max rpt_et_after_max)

end
