(* ===== verification/Pim_Assert.thy ===== *)
theory Pim_Assert
  imports Pimd_Prelude Election
begin

text \<open>
  The Assert machines: the decisions of \<^verbatim>\<open>src/pim_assert.c\<close>, which read no state, and the
  per-interface assert state of \<^verbatim>\<open>src/pim_proto.c\<close> that they decide on and that their answers
  change.  The flags of an \<open>assert_view\<close> are booleans, the constants of the C are datatypes.
\<close>


section \<open>Decisions\<close>

definition pim_assert_rpt_bit :: u32 where
  "pim_assert_rpt_bit = 0x80000000"

definition pim_assert_infinite_preference :: u32 where
  "pim_assert_infinite_preference = pim_assert_rpt_bit OR 0x7fffffff"

definition pim_assert_infinite_metric :: u32 where
  "pim_assert_infinite_metric = 0xffffffff"

definition compare_metrics :: "u32 \<Rightarrow> u32 \<Rightarrow> u32 \<Rightarrow> u32 \<Rightarrow> u32 \<Rightarrow> u32 \<Rightarrow> bool" where
  "compare_metrics local_preference local_metric local_address
       remote_preference remote_metric remote_address =
     (if remote_preference > local_preference then True
      else if remote_preference < local_preference then False
      else if remote_metric > local_metric then True
      else if remote_metric < local_metric then False
      else if ntohl local_address > ntohl remote_address then True
      else False)"

datatype assert_where = ASSERT_ELSEWHERE | ASSERT_DOWNSTREAM | ASSERT_UPSTREAM

datatype assert_act = ASSERT_ACT_NONE | ASSERT_ACT_SEND | ASSERT_ACT_STORE | ASSERT_ACT_LOSE
  | ASSERT_ACT_CLEAR | ASSERT_ACT_FOLLOW

datatype assert_run = ASSERT_NOTHING | ASSERT_MOVED | ASSERT_CANCELLED | ASSERT_REFUSED

record assert_view =
  av_wc :: bool
  av_tracking :: bool
  av_where :: assert_where
  av_has_state :: bool
  av_spt :: bool
  av_has_upstream :: bool
  av_winner :: u32
  av_is_winner :: bool
  av_win_pref :: u32
  av_win_metric :: u32
  av_my_pref :: u32
  av_my_metric :: u32
  av_my_addr :: u32
  av_src :: u32
  av_pref :: u32
  av_metric :: u32

definition assert_decide :: "assert_view \<Rightarrow> assert_act" where
  "assert_decide v =
     (let rptbit = (av_pref v AND pim_assert_rpt_bit \<noteq> 0);
          winner = (av_winner v \<noteq> 0 \<and> av_is_winner v);
          loser = (av_winner v \<noteq> 0 \<and> \<not> av_is_winner v);
          mine_wins = compare_metrics (av_my_pref v) (av_my_metric v) (av_my_addr v)
                        (av_pref v) (av_metric v) (av_src v);
          winner_wins = compare_metrics (av_win_pref v) (av_win_metric v) (av_winner v)
                        (av_pref v) (av_metric v) (av_src v);
          beats_winner = compare_metrics (av_pref v) (av_metric v) (av_src v)
                        (av_win_pref v) (av_win_metric v) (av_winner v);
          cancel = (av_pref v = pim_assert_infinite_preference \<and> av_metric v = pim_assert_infinite_metric)
      in
      if \<not> av_tracking v then ASSERT_ACT_NONE
      else if av_where v = ASSERT_DOWNSTREAM then
        (if av_has_state v \<and> loser then
           (if av_src v = av_winner v then
              (if mine_wins then ASSERT_ACT_CLEAR
               else if beats_winner \<and> (\<not> av_wc v \<or> rptbit) then ASSERT_ACT_STORE
               else if (if av_wc v then \<not> rptbit else rptbit) then ASSERT_ACT_NONE
               else ASSERT_ACT_STORE)
            else if av_wc v \<and> \<not> rptbit then ASSERT_ACT_NONE
            else if \<not> winner_wins then ASSERT_ACT_STORE
            else ASSERT_ACT_NONE)
         else if av_wc v \<and> \<not> rptbit then ASSERT_ACT_NONE
         else if \<not> av_wc v \<and> rptbit \<and> \<not> av_spt v \<and> \<not> winner then ASSERT_ACT_NONE
         else if mine_wins then ASSERT_ACT_SEND
         else if \<not> av_wc v \<and> rptbit then ASSERT_ACT_NONE
         else ASSERT_ACT_LOSE)
      else if av_where v = ASSERT_UPSTREAM then
        (if loser \<and> av_src v = av_winner v \<and> cancel then ASSERT_ACT_CLEAR
         else if rptbit \<and> \<not> av_wc v then ASSERT_ACT_NONE
         else if \<not> rptbit \<and> av_wc v then ASSERT_ACT_NONE
         else if \<not> av_has_upstream v \<or> \<not> av_has_state v then ASSERT_ACT_NONE
         else if av_winner v \<noteq> 0 then
           (if winner_wins then
              (if av_src v \<noteq> av_winner v then ASSERT_ACT_NONE else ASSERT_ACT_STORE)
            else if av_src v = av_winner v then ASSERT_ACT_STORE
            else ASSERT_ACT_FOLLOW)
         else if cancel then ASSERT_ACT_NONE
         else ASSERT_ACT_FOLLOW)
      else ASSERT_ACT_NONE)"

definition assert_rc :: "assert_act \<Rightarrow> u32 \<Rightarrow> u32 \<Rightarrow> assert_run" where
  "assert_rc act pref metric =
     (if act = ASSERT_ACT_NONE then ASSERT_NOTHING
      else if act = ASSERT_ACT_CLEAR \<and> pref = pim_assert_infinite_preference \<and>
              metric = pim_assert_infinite_metric then ASSERT_CANCELLED
      else ASSERT_MOVED)"

definition assert_wc_may_run :: "bool \<Rightarrow> assert_run \<Rightarrow> bool" where
  "assert_wc_may_run sg_held sg_rc =
     (if sg_rc = ASSERT_CANCELLED then True else sg_rc = ASSERT_NOTHING \<and> \<not> sg_held)"


section \<open>The state of an entry's interfaces\<close>

text \<open>
  One slot per virtual interface.  Of the entry that holds them the model keeps what the functions
  below read and write: the slots (\<open>None\<close> for an entry without any), the \<open>MRTF_ASSERTED\<close> flag and
  \<open>asserted_oifs\<close>.  \<open>now\<close> is \<open>timer_now\<close>, and the deadline handed to \<open>route_timers_schedule\<close> is the
  slot's own \<open>as_expires\<close>.  The timeouts are \<open>PIM_ASSERT_TIMEOUT\<close> and \<open>PIM_ASSERT_WINNER_TIMEOUT\<close>.
\<close>

record assert_slot =
  as_winner :: u32
  as_preference :: u32
  as_metric :: u32
  as_source :: u32
  as_expires :: u64
  as_is_winner :: bool

record assert_entry =
  ae_asserts :: "assert_slot list option"
  ae_flag :: bool
  ae_asserted_oifs :: "bool list"

definition pim_assert_timeout :: u64 where
  "pim_assert_timeout = 180"

definition pim_assert_winner_timeout :: u64 where
  "pim_assert_winner_timeout = pim_assert_timeout - 3"

definition assert_state :: "assert_entry \<Rightarrow> nat \<Rightarrow> assert_slot option" where
  "assert_state mrt vifi =
     (case ae_asserts mrt of
        None \<Rightarrow> None
      | Some slots \<Rightarrow> if length slots \<le> vifi then None else Some (slots ! vifi))"

definition assert_winner_is_me :: "assert_entry \<Rightarrow> nat \<Rightarrow> bool" where
  "assert_winner_is_me mrt vifi =
     (case assert_state mrt vifi of None \<Rightarrow> False | Some as \<Rightarrow> as_winner as \<noteq> 0 \<and> as_is_winner as)"

definition assert_lost_on :: "assert_entry \<Rightarrow> nat \<Rightarrow> bool" where
  "assert_lost_on mrt vifi =
     (case assert_state mrt vifi of None \<Rightarrow> False | Some as \<Rightarrow> as_winner as \<noteq> 0 \<and> \<not> as_is_winner as)"

definition assert_put :: "assert_entry \<Rightarrow> nat \<Rightarrow> assert_slot \<Rightarrow> assert_entry" where
  "assert_put mrt vifi as = mrt\<lparr>ae_asserts := map_option (\<lambda>slots. slots[vifi := as]) (ae_asserts mrt)\<rparr>"

definition assert_update_flag :: "assert_entry \<Rightarrow> assert_entry" where
  "assert_update_flag mrt =
     mrt\<lparr>ae_flag := (case ae_asserts mrt of None \<Rightarrow> False | Some slots \<Rightarrow> list_ex (\<lambda>as. as_winner as \<noteq> 0) slots)\<rparr>"

definition assert_won :: "u32 \<Rightarrow> u64 \<Rightarrow> assert_entry \<Rightarrow> nat \<Rightarrow> u32 \<Rightarrow> u32 \<Rightarrow> u32 \<Rightarrow> assert_entry" where
  "assert_won lcl_addr now mrt vifi source preference metric =
     (case assert_state mrt vifi of
        None \<Rightarrow> mrt
      | Some as \<Rightarrow>
          if lcl_addr = 0 then mrt
          else (assert_put mrt vifi
                  \<lparr>as_winner = lcl_addr, as_preference = preference, as_metric = metric, as_source = source,
                   as_expires = now + pim_assert_winner_timeout * 1000, as_is_winner = True\<rparr>)
                  \<lparr>ae_flag := True\<rparr>)"

definition assert_lost :: "u64 \<Rightarrow> assert_entry \<Rightarrow> nat \<Rightarrow> u32 \<Rightarrow> u32 \<Rightarrow> u32 \<Rightarrow> assert_entry" where
  "assert_lost now mrt vifi winner preference metric =
     (case assert_state mrt vifi of
        None \<Rightarrow> mrt
      | Some as \<Rightarrow>
          (assert_put mrt vifi
             (as\<lparr>as_winner := winner, as_is_winner := False, as_preference := preference, as_metric := metric,
                 as_expires := now + pim_assert_timeout * 1000\<rparr>))
             \<lparr>ae_flag := True\<rparr>)"

definition assert_noinfo :: "assert_entry \<Rightarrow> nat \<Rightarrow> assert_entry" where
  "assert_noinfo mrt vifi =
     (case assert_state mrt vifi of
        None \<Rightarrow> mrt
      | Some as \<Rightarrow>
          assert_update_flag (assert_put mrt vifi
             \<lparr>as_winner = 0, as_preference = 0, as_metric = 0, as_source = 0, as_expires = 0,
              as_is_winner = False\<rparr>))"

text \<open>
  \<open>assert_clear\<close> on an interface that is not the entry's incoming one; on that one it moves the
  upstream router as well, which is not part of this state.
\<close>

definition assert_clear_oif :: "assert_entry \<Rightarrow> nat \<Rightarrow> bool \<times> assert_entry" where
  "assert_clear_oif mrt vifi =
     (if assert_state mrt vifi = None then (False, mrt)
      else if assert_winner_is_me mrt vifi then (False, mrt)
      else
        let restore = (vifi < length (ae_asserted_oifs mrt) \<and> ae_asserted_oifs mrt ! vifi);
            mrt = (if restore then mrt\<lparr>ae_asserted_oifs := (ae_asserted_oifs mrt)[vifi := False]\<rparr> else mrt)
        in (restore, assert_noinfo mrt vifi))"

definition assert_vif_gone :: "assert_entry \<Rightarrow> nat \<Rightarrow> assert_entry" where
  "assert_vif_gone mrt vifi =
     assert_noinfo (mrt\<lparr>ae_asserted_oifs := (ae_asserted_oifs mrt)[vifi := False]\<rparr>) vifi"


text \<open>
  The metrics the daemon asserts with.  Of an entry they read the \<open>MRTF_SPT\<close> flag, the metric of the
  source entry, the metric towards the RP the group maps to, and the (*,G) entry of the group; each
  of the three may be missing.
\<close>

record metric_view =
  mv_spt :: bool
  mv_source :: "(u32 \<times> u32) option"
  mv_own :: "u32 \<times> u32"
  mv_rp :: "(u32 \<times> u32) option"
  mv_grp_route :: "(u32 \<times> u32) option"

definition spt_assert_metric :: "metric_view \<Rightarrow> u32 \<times> u32" where
  "spt_assert_metric mrt =
     (case mv_source mrt of
        Some (preference, metric) \<Rightarrow> (preference AND NOT pim_assert_rpt_bit, metric)
      | None \<Rightarrow> (fst (mv_own mrt) AND NOT pim_assert_rpt_bit, snd (mv_own mrt)))"

definition my_assert_metric :: "metric_view \<Rightarrow> u32 \<times> u32" where
  "my_assert_metric mrt =
     (if mv_spt mrt then spt_assert_metric mrt
      else case mv_rp mrt of
        Some (preference, metric) \<Rightarrow> (preference OR pim_assert_rpt_bit, metric)
      | None \<Rightarrow>
          (case mv_grp_route mrt of
             None \<Rightarrow> (pim_assert_infinite_preference, pim_assert_infinite_metric)
           | Some (preference, metric) \<Rightarrow> (preference OR pim_assert_rpt_bit, metric)))"

text \<open>
  \<open>assert_machine\<close> for one Assert received on a downstream interface of the entry that holds the
  state: the view it fills in, the decision, and what the answer does to the entry.  A metric is the
  triple of the preference, the metric and the address it was sent from.
\<close>

type_synonym ametric = "u32 \<times> u32 \<times> u32"

record assert_oif =
  ao_wc :: bool
  ao_spt :: bool
  ao_has_upstream :: bool
  ao_vifi :: nat
  ao_source :: u32
  ao_mine :: ametric

definition assert_oif_view :: "assert_oif \<Rightarrow> assert_entry \<Rightarrow> ametric \<Rightarrow> assert_view" where
  "assert_oif_view c own m =
     (case (ao_mine c, m) of
        ((my_pref, my_metric, my_addr), (pref, metric, src)) \<Rightarrow>
          \<lparr>av_wc = ao_wc c, av_tracking = True, av_where = ASSERT_DOWNSTREAM,
           av_has_state = (assert_state own (ao_vifi c) \<noteq> None), av_spt = ao_spt c,
           av_has_upstream = ao_has_upstream c,
           av_winner = (case assert_state own (ao_vifi c) of None \<Rightarrow> 0 | Some as \<Rightarrow> as_winner as),
           av_is_winner = (case assert_state own (ao_vifi c) of None \<Rightarrow> False | Some as \<Rightarrow> as_is_winner as),
           av_win_pref = (case assert_state own (ao_vifi c) of None \<Rightarrow> 0 | Some as \<Rightarrow> as_preference as),
           av_win_metric = (case assert_state own (ao_vifi c) of None \<Rightarrow> 0 | Some as \<Rightarrow> as_metric as),
           av_my_pref = my_pref, av_my_metric = my_metric, av_my_addr = my_addr,
           av_src = src, av_pref = pref, av_metric = metric\<rparr>)"

definition assert_machine_oif :: "u64 \<Rightarrow> assert_oif \<Rightarrow> ametric \<Rightarrow> assert_entry \<Rightarrow> assert_entry" where
  "assert_machine_oif now c m own =
     (let vifi = ao_vifi c; (pref, metric, src) = m in
      case assert_decide (assert_oif_view c own m) of
        ASSERT_ACT_SEND \<Rightarrow>
          (case ao_mine c of (my_pref, my_metric, my_addr) \<Rightarrow>
             assert_won my_addr now own vifi (ao_source c) my_pref my_metric)
      | ASSERT_ACT_STORE \<Rightarrow> assert_lost now own vifi src pref metric
      | ASSERT_ACT_CLEAR \<Rightarrow> snd (assert_clear_oif own vifi)
      | ASSERT_ACT_LOSE \<Rightarrow>
          assert_lost now (own\<lparr>ae_asserted_oifs := (ae_asserted_oifs own)[vifi := True]\<rparr>) vifi src pref metric
      | _ \<Rightarrow> own)"


section \<open>The order of the metrics\<close>

definition beats :: "ametric \<Rightarrow> ametric \<Rightarrow> bool" where
  "beats x y = (case (x, y) of ((p, m, a), (p', m', a')) \<Rightarrow> compare_metrics p m a p' m' a')"

interpretation am: election beats
proof
  show "\<not> beats x x" for x
    by (cases x) (simp add: beats_def compare_metrics_def)
  show "beats x z" if "beats x y" "beats y z" for x y z
    using that by (cases x; cases y; cases z) (auto simp: beats_def compare_metrics_def split: if_splits)
  show "beats x y \<or> beats y x" if "x \<noteq> y" for x y
    using that by (cases x; cases y) (auto simp: beats_def compare_metrics_def neq_iff)
qed

lemma rpt_bit_set: "x AND pim_assert_rpt_bit = 0 \<longleftrightarrow> \<not> bit x 31"
proof -
  have "pim_assert_rpt_bit = 2 ^ 31" by (simp add: pim_assert_rpt_bit_def)
  then show ?thesis using and_exp_eq_0_iff_not_bit [of x 31] by simp
qed

lemma bit_31_iff: "bit (x :: u32) 31 \<longleftrightarrow> 2 ^ 31 \<le> unat x"
proof -
  have "bit x 31 \<longleftrightarrow> odd (unat x div 2 ^ 31)"
    using bit_unsigned_iff [of x 31, where ?'a = nat] bit_iff_odd [of "unat x" 31] by simp
  moreover have "unat x div 2 ^ 31 < 2"
    using unsigned_less [of x, where ?'a = nat] by (simp add: div_less_iff_less_mult)
  ultimately show ?thesis by (cases "unat x div 2 ^ 31 = 0") (auto simp: div_eq_0_iff less_2_cases_iff)
qed

lemma rpt_bit_less: "\<not> bit (x :: u32) 31 \<Longrightarrow> bit y 31 \<Longrightarrow> x < y"
  by (simp add: bit_31_iff word_less_nat_alt)

lemma spt_metric_bit: "\<not> bit (fst (spt_assert_metric mrt)) 31"
  by (auto simp: spt_assert_metric_def pim_assert_rpt_bit_def bit_simps split: option.splits)

lemma rpt_metric_bit: "\<not> mv_spt mrt \<Longrightarrow> bit (fst (my_assert_metric mrt)) 31"
  by (auto simp: my_assert_metric_def pim_assert_infinite_preference_def pim_assert_rpt_bit_def bit_simps split: option.splits)


section \<open>The flag of an entry\<close>

definition assert_inv :: "assert_entry \<Rightarrow> bool" where
  "assert_inv mrt \<longleftrightarrow> ae_flag mrt = (case ae_asserts mrt of None \<Rightarrow> False | Some slots \<Rightarrow> list_ex (\<lambda>as. as_winner as \<noteq> 0) slots)"

lemma list_ex_update: "i < length xs \<Longrightarrow> P x \<Longrightarrow> list_ex P (xs[i := x])"
  by (auto simp: list_ex_iff set_update_memI)

lemma assert_inv_won: "assert_inv mrt \<Longrightarrow> assert_inv (assert_won lcl now mrt vifi source pref metric)"
  by (auto simp: assert_inv_def assert_won_def assert_put_def assert_state_def list_ex_update split: option.splits)

lemma assert_inv_lost: "assert_inv mrt \<Longrightarrow> w \<noteq> 0 \<Longrightarrow> assert_inv (assert_lost now mrt vifi w pref metric)"
  by (auto simp: assert_inv_def assert_lost_def assert_put_def assert_state_def list_ex_update split: option.splits)

lemma assert_inv_noinfo: "assert_inv mrt \<Longrightarrow> assert_inv (assert_noinfo mrt vifi)"
  by (auto simp: assert_inv_def assert_noinfo_def assert_update_flag_def split: option.splits)

lemma assert_inv_oifs [simp]: "assert_inv (mrt\<lparr>ae_asserted_oifs := x\<rparr>) = assert_inv mrt"
  by (simp add: assert_inv_def)

lemma assert_inv_clear: "assert_inv mrt \<Longrightarrow> assert_inv (snd (assert_clear_oif mrt vifi))"
  by (auto simp: assert_clear_oif_def Let_def intro: assert_inv_noinfo)

lemma assert_inv_machine:
  "assert_inv own \<Longrightarrow> snd (snd m) \<noteq> 0 \<Longrightarrow> assert_inv (assert_machine_oif now c m own)"
  by (auto simp: assert_machine_oif_def Let_def assert_inv_won assert_inv_lost assert_inv_clear split: prod.splits assert_act.splits)


section \<open>Slots\<close>

lemma assert_state_won:
  "assert_state mrt vifi = Some as \<Longrightarrow> lcl \<noteq> 0 \<Longrightarrow>
     assert_state (assert_won lcl now mrt vifi source pref metric) vifi =
       Some \<lparr>as_winner = lcl, as_preference = pref, as_metric = metric, as_source = source,
             as_expires = now + pim_assert_winner_timeout * 1000, as_is_winner = True\<rparr>"
  by (auto simp: assert_won_def assert_put_def assert_state_def split: option.splits if_splits)

lemma assert_state_lost:
  "assert_state mrt vifi = Some as \<Longrightarrow>
     assert_state (assert_lost now mrt vifi w pref metric) vifi =
       Some (as\<lparr>as_winner := w, as_is_winner := False, as_preference := pref, as_metric := metric,
               as_expires := now + pim_assert_timeout * 1000\<rparr>)"
  by (auto simp: assert_lost_def assert_put_def assert_state_def split: option.splits if_splits)

lemma assert_state_oifs [simp]: "assert_state (mrt\<lparr>ae_asserted_oifs := x\<rparr>) vifi = assert_state mrt vifi"
  by (simp add: assert_state_def)


section \<open>The election of a LAN\<close>

text \<open>
  What a slot holds once the Asserts of the routers in \<open>S\<close> have been heard by the router that asserts
  with \<open>me\<close>: nothing, this router while it beats them all, and otherwise the best of them.
\<close>

definition slot_of :: "ametric \<Rightarrow> bool \<Rightarrow> assert_slot \<Rightarrow> bool" where
  "slot_of w mine as \<longleftrightarrow> as_preference as = fst w \<and> as_metric as = fst (snd w) \<and> as_winner as = snd (snd w) \<and>
     as_is_winner as = mine"

definition elected :: "ametric \<Rightarrow> ametric set \<Rightarrow> assert_slot \<Rightarrow> bool" where
  "elected me S as \<longleftrightarrow>
     (if S = {} then as_winner as = 0
      else if \<forall>m\<in>S. beats me m then slot_of me True as
      else \<exists>b. is_best beats S b \<and> slot_of b False as)"

lemma elected_loser:
  "elected me S as \<Longrightarrow> S \<noteq> {} \<Longrightarrow> \<not> (\<forall>m\<in>S. beats me m) \<Longrightarrow> \<exists>b. is_best beats S b \<and> slot_of b False as"
  unfolding elected_def by argo

lemma elected_loserI:
  "is_best beats S b \<Longrightarrow> slot_of b False as \<Longrightarrow> \<not> (\<forall>m\<in>S. beats me m) \<Longrightarrow> elected me S as"
  unfolding elected_def by (simp only: if_False split: if_split) blast

lemma best_beats_me:
  assumes "is_best beats S b" "me \<notin> S" "\<not> (\<forall>m\<in>S. beats me m)"
  shows "beats b me"
proof -
  obtain m where m: "m \<in> S" "\<not> beats me m" using assms(3) by blast
  then have "beats m me" using am.not_beats [of me m] assms(2) by auto
  then show ?thesis using assms(1) m am.trans [of b m me] by (cases "m = b") (auto simp: is_best_def)
qed

lemma elected_best:
  assumes "elected me S as" "S \<noteq> {}" "me \<notin> S" "is_best beats (insert me S) w"
  shows "slot_of w (w = me) as"
proof (cases "\<forall>m\<in>S. beats me m")
  case True
  then have "is_best beats (insert me S) me" by (auto simp: is_best_def)
  then have "w = me" using am.best_unique assms(4) by blast
  then show ?thesis using assms True by (auto simp: elected_def)
next
  case False
  then obtain b where b: "is_best beats S b" "slot_of b False as" using elected_loser [OF assms(1,2)] by blast
  have "beats b me" using best_beats_me [OF b(1) assms(3) False] .
  then have "is_best beats (insert me S) b" using b by (auto simp: is_best_def)
  then have "w = b" using am.best_unique assms(4) by blast
  moreover have "b \<noteq> me" using b(1) assms(3) by (auto simp: is_best_def)
  ultimately show ?thesis using b(2) by simp
qed

lemma elected_step:
  assumes el: "elected me S as" and st: "assert_state own (ao_vifi c) = Some as" and me: "ao_mine c = me"
    and rpt: "bit (fst m) 31 = ao_wc c"
    and src: "snd (snd m) \<noteq> 0" "snd (snd me) \<noteq> 0"
    and others: "me \<notin> insert m S"
    and same: "\<And>x. x \<in> S \<Longrightarrow> snd (snd x) = snd (snd m) \<Longrightarrow> x = m"
    and nz: "\<And>x. x \<in> S \<Longrightarrow> snd (snd x) \<noteq> 0"
  shows "\<exists>as'. assert_state (assert_machine_oif now c m own) (ao_vifi c) = Some as' \<and> elected me (insert m S) as'"
proof -
  obtain p mt a where m: "m = (p, mt, a)" by (cases m)
  obtain mp mm ma where mine: "me = (mp, mm, ma)" by (cases me)
  have rb: "(p AND pim_assert_rpt_bit \<noteq> 0) = ao_wc c" using rpt m by (simp add: rpt_bit_set)
  note step = assert_machine_oif_def assert_oif_view_def assert_decide_def Let_def m st me mine rb
  show ?thesis
  proof (cases "S \<noteq> {} \<and> \<not> (\<forall>x\<in>S. beats me x)")
    case False
    then have state: "as_winner as = 0 \<or> as_is_winner as" and all: "\<forall>x\<in>S. beats me x"
      using el by (auto simp: elected_def slot_of_def split: if_splits)
    show ?thesis
    proof (cases "beats me m")
      case True
      then have "elected me (insert m S) \<lparr>as_winner = ma, as_preference = mp, as_metric = mm,
          as_source = ao_source c, as_expires = now + pim_assert_winner_timeout * 1000, as_is_winner = True\<rparr>"
        using all mine by (auto simp: elected_def slot_of_def)
      then show ?thesis using True state src mine assert_state_won [OF st]
        by (auto simp: step beats_def)
    next
      case False
      then have "beats m me" using am.not_beats [of me m] others by auto
      then have "is_best beats (insert m S) m" using all am.trans by (auto simp: is_best_def)
      then have "elected me (insert m S) (as\<lparr>as_winner := a, as_is_winner := False, as_preference := p,
          as_metric := mt, as_expires := now + pim_assert_timeout * 1000\<rparr>)"
        using False m by (auto simp: elected_def slot_of_def)
      then show ?thesis using False state src mine assert_state_lost st
        by (auto simp: step beats_def)
    qed
  next
    case True
    then obtain b where b: "is_best beats S b" "slot_of b False as" using elected_loser [OF el] by blast
    obtain bp bm ba where bb: "b = (bp, bm, ba)" by (cases b)
    have w: "as_winner as = ba" "\<not> as_is_winner as" "as_preference as = bp" "as_metric as = bm" "ba \<noteq> 0"
      using b nz [of b] bb by (auto simp: slot_of_def is_best_def)
    have lost: "\<not> beats me b" using best_beats_me [OF b(1)] others True am.asym by blast
    have best: "is_best beats (insert m S) (challenge beats b m)" using am.best_insert [OF b(1)] .
    have "\<not> (\<forall>x\<in>insert m S. beats me x)" using True by blast
    then have el': "slot_of (challenge beats b m) False as' \<Longrightarrow> elected me (insert m S) as'" for as'
      using best elected_loserI by blast
    show ?thesis
    proof (cases "beats b m")
      case True
      then have "slot_of (challenge beats b m) False as" using b by (simp add: challenge_def)
      moreover have "a \<noteq> ba" using True same [of b] b bb m am.irrefl by (auto simp: is_best_def)
      ultimately show ?thesis using True el' w st by (auto simp: step beats_def bb)
    next
      case False
      then have "slot_of (challenge beats b m) False (as\<lparr>as_winner := a, as_is_winner := False,
          as_preference := p, as_metric := mt, as_expires := now + pim_assert_timeout * 1000\<rparr>)"
        by (simp add: challenge_def slot_of_def m)
      moreover have "a = ba \<Longrightarrow> m = b" using same [of b] b bb m by (auto simp: is_best_def)
      ultimately show ?thesis using False el' w lost assert_state_lost [OF st]
        by (auto simp: step beats_def bb)
    qed
  qed
qed

text \<open>The Asserts of the other routers, heard one after the other, each at its time.\<close>

definition hear_asserts :: "assert_oif \<Rightarrow> (u64 \<times> ametric) list \<Rightarrow> assert_entry \<Rightarrow> assert_entry" where
  "hear_asserts c ms own = foldl (\<lambda>own (now, m). assert_machine_oif now c m own) own ms"

definition lan_asserts :: "bool \<Rightarrow> ametric \<Rightarrow> ametric set \<Rightarrow> bool" where
  "lan_asserts wc me S \<longleftrightarrow> snd (snd me) \<noteq> 0 \<and> me \<notin> S \<and> inj_on (\<lambda>m. snd (snd m)) S \<and>
     (\<forall>m\<in>S. bit (fst m) 31 = wc \<and> snd (snd m) \<noteq> 0)"

lemma elected_hear:
  "lan_asserts (ao_wc c) (ao_mine c) (S \<union> snd ` set ms) \<Longrightarrow> assert_state own (ao_vifi c) = Some as \<Longrightarrow>
     elected (ao_mine c) S as \<Longrightarrow>
     \<exists>as'. assert_state (hear_asserts c ms own) (ao_vifi c) = Some as' \<and> elected (ao_mine c) (S \<union> snd ` set ms) as'"
proof (induction ms arbitrary: S own as)
  case (Cons tm ms)
  obtain t m where tm: "tm = (t, m)" by (cases tm)
  have "\<exists>as'. assert_state (assert_machine_oif t c m own) (ao_vifi c) = Some as' \<and> elected (ao_mine c) (insert m S) as'"
    by (rule elected_step [OF Cons.prems(3,2) refl])
       (use Cons.prems(1) tm in \<open>auto simp: lan_asserts_def inj_on_def\<close>)
  then show ?case using Cons.IH [of "insert m S"] Cons.prems(1) tm by (auto simp: hear_asserts_def)
qed (simp add: hear_asserts_def)

lemma hear_all_elects:
  assumes "assert_state own (ao_vifi c) = Some as" "as_winner as = 0" "ms \<noteq> []"
    and "lan_asserts (ao_wc c) (ao_mine c) (snd ` set ms)"
    and "is_best beats (insert (ao_mine c) (snd ` set ms)) w"
  shows "\<exists>as'. assert_state (hear_asserts c ms own) (ao_vifi c) = Some as' \<and> slot_of w (w = ao_mine c) as'"
proof -
  have "elected (ao_mine c) {} as" using assms(2) by (simp add: elected_def)
  then obtain as' where as': "assert_state (hear_asserts c ms own) (ao_vifi c) = Some as'"
    "elected (ao_mine c) (snd ` set ms) as'"
    using elected_hear [of c "{}" ms own as] assms by auto
  then show ?thesis using elected_best [OF as'(2)] assms by (auto simp: lan_asserts_def)
qed


section \<open>Properties\<close>

text \<open>
  C1: The routers of a LAN that assert for the same tree elect one of them, and this router knows
  which: once it has heard the Asserts of all the others, in whatever order and however often, its
  slot for the interface holds the best metric among theirs and its own, and says that the winner is
  this router exactly when its own metric is the best.
\<close>
theorem assert_election:
  assumes "assert_state own (ao_vifi c) = Some as" "as_winner as = 0" "ms \<noteq> []"
    and "lan_asserts (ao_wc c) (ao_mine c) (snd ` set ms)"
    and "is_best beats (insert (ao_mine c) (snd ` set ms)) w"
  shows "\<exists>as'. assert_state (hear_asserts c ms own) (ao_vifi c) = Some as' \<and> slot_of w (w = ao_mine c) as'"
  by (rule hear_all_elects) (use assms in auto)

theorem assert_election_witness:
  "\<exists>as'. assert_state (hear_asserts
       \<lparr>ao_wc = False, ao_spt = True, ao_has_upstream = True, ao_vifi = 0, ao_source = 1, ao_mine = (101, 10, 0x0100000a)\<rparr>
       [(5, (101, 20, 0x0200000a)), (6, (101, 5, 0x0300000a))]
       \<lparr>ae_asserts = Some [\<lparr>as_winner = 0, as_preference = 0, as_metric = 0, as_source = 0, as_expires = 0, as_is_winner = False\<rparr>],
        ae_flag = False, ae_asserted_oifs = [False]\<rparr>) 0 = Some as' \<and>
     slot_of (101, 5, 0x0300000a) False as'"
proof -
  have "\<exists>as'. assert_state (hear_asserts
       \<lparr>ao_wc = False, ao_spt = True, ao_has_upstream = True, ao_vifi = 0, ao_source = 1, ao_mine = (101, 10, 0x0100000a)\<rparr>
       [(5, (101, 20, 0x0200000a)), (6, (101, 5, 0x0300000a))]
       \<lparr>ae_asserts = Some [\<lparr>as_winner = 0, as_preference = 0, as_metric = 0, as_source = 0, as_expires = 0, as_is_winner = False\<rparr>],
        ae_flag = False, ae_asserted_oifs = [False]\<rparr>)
       (ao_vifi \<lparr>ao_wc = False, ao_spt = True, ao_has_upstream = True, ao_vifi = 0, ao_source = 1, ao_mine = (101, 10, 0x0100000a)\<rparr>) = Some as' \<and>
     slot_of (101, 5, 0x0300000a) ((101, 5, 0x0300000a) = ao_mine
       \<lparr>ao_wc = False, ao_spt = True, ao_has_upstream = True, ao_vifi = 0, ao_source = 1, ao_mine = (101, 10, 0x0100000a)\<rparr>) as'"
    by (rule assert_election)
       (simp add: assert_state_def, simp_all add: assert_state_def lan_asserts_def is_best_def beats_def compare_metrics_def bit_31_iff)
  then show ?thesis by simp
qed

text \<open>
  C32: Data from the source's own tree wins over data from the shared tree: the metric asserted for
  an entry on the shortest path tree beats the one asserted for an entry that is not, whatever the
  unicast metrics are, and every metric but itself beats the one of an AssertCancel.
\<close>
theorem spt_beats_rpt:
  assumes "mv_spt a" "\<not> mv_spt b"
  shows "beats (fst (my_assert_metric a), snd (my_assert_metric a), x) (fst (my_assert_metric b), snd (my_assert_metric b), y)
    \<and> (let cancel = (pim_assert_infinite_preference, pim_assert_infinite_metric, 0) in
       m = cancel \<or> beats m cancel)"
proof -
  have "fst (my_assert_metric a) < fst (my_assert_metric b)"
    using rpt_bit_less [OF spt_metric_bit rpt_metric_bit [OF assms(2)]] assms(1) by (simp add: my_assert_metric_def)
  moreover have "m = (p, q, r) \<Longrightarrow> m = (- 1, - 1, 0) \<or> beats m (- 1, - 1, 0)" for p q r
  proof -
    have "p = - 1 \<or> p < - 1" "q = - 1 \<or> q < - 1" "r = 0 \<or> 0 < ntohl r"
      using le_less [of p "- 1"] le_less [of q "- 1"] word_neq_0_conv [of "ntohl r"] by auto
    then show "m = (p, q, r) \<Longrightarrow> m = (- 1, - 1, 0) \<or> beats m (- 1, - 1, 0)"
      by (auto simp: beats_def compare_metrics_def)
  qed
  moreover have "pim_assert_infinite_preference = - 1" "pim_assert_infinite_metric = - 1"
    by (simp_all add: pim_assert_infinite_preference_def pim_assert_infinite_metric_def pim_assert_rpt_bit_def)
  ultimately show ?thesis by (cases m) (auto simp: beats_def compare_metrics_def Let_def)
qed

theorem spt_beats_rpt_witness:
  "beats (255, 9, 7) (0x80000001, 1, 8)"
  using spt_beats_rpt [of "\<lparr>mv_spt = True, mv_source = Some (255, 9), mv_own = (0, 0), mv_rp = None, mv_grp_route = None\<rparr>"
    "\<lparr>mv_spt = False, mv_source = None, mv_own = (0, 0), mv_rp = Some (1, 1), mv_grp_route = None\<rparr>" 7 8]
  by (simp add: my_assert_metric_def spt_assert_metric_def pim_assert_rpt_bit_def)

text \<open>
  C39: The flag of an entry says whether it holds assert state on any interface, and keeps saying so
  through every operation on that state.
\<close>
theorem assert_flag_kept:
  assumes "assert_inv own"
  shows "assert_inv (assert_won lcl now own vifi source pref metric) \<and> assert_inv (assert_noinfo own vifi) \<and>
    assert_inv (snd (assert_clear_oif own vifi)) \<and> assert_inv (assert_vif_gone own vifi) \<and>
    (snd (snd m) = 0 \<or> assert_inv (assert_machine_oif now c m own))"
  using assms assert_inv_machine [OF assms, of m]
  by (auto simp: assert_vif_gone_def assert_inv_won assert_inv_noinfo assert_inv_clear)

theorem assert_flag_kept_witness:
  "assert_inv (assert_won 1 0 \<lparr>ae_asserts = None, ae_flag = False, ae_asserted_oifs = []\<rparr> 0 0 0 0)"
  using assert_flag_kept [of "\<lparr>ae_asserts = None, ae_flag = False, ae_asserted_oifs = []\<rparr>" 1 0 0 0 0 0]
  by (simp add: assert_inv_def)

end
