(* ===== verification/Timer.thy ===== *)
theory Timer
  imports Pimd_Prelude
begin

text \<open>
  The callout queue of \<^verbatim>\<open>src/timer.c\<close>: a list of timers, each with the milliseconds between it and
  the one before it.  A callback is a value \<open>'a\<close> (\<open>None\<close> for a null function pointer); what calling
  it does to the queue is a list of operations, the parameter \<open>acts\<close>.  Times are \<open>int\<close>s of the C,
  whose bounds \<open>queue_ok\<close> keeps.
\<close>


section \<open>The queue\<close>

record 'a tmr =
  t_id :: int
  t_func :: "'a option"
  t_time :: int

record 'a timers =
  tm_Q :: "'a tmr list"
  tm_id :: int

datatype 'a tmr_oper = TmrSet int "'a option" | TmrClear int

text \<open>The counter is a 32-bit \<open>int\<close> and wraps.\<close>

definition wrap32 :: "int \<Rightarrow> int" where
  "wrap32 x = sint (word_of_int x :: 32 word)"

definition next_id :: "int \<Rightarrow> int" where
  "next_id cur = (let i = wrap32 (cur + 1) in if i \<le> 0 then 1 else i)"

definition timer_init :: "'a timers" where
  "timer_init = \<lparr>tm_Q = [], tm_id = 0\<rparr>"

fun timer_insert :: "int \<Rightarrow> 'a tmr \<Rightarrow> 'a tmr list \<Rightarrow> 'a tmr list" where
  "timer_insert delay node [] = [node\<lparr>t_time := delay\<rparr>]"
| "timer_insert delay node (ptr # q) =
     (if delay < t_time ptr
      then node\<lparr>t_time := delay\<rparr> # ptr\<lparr>t_time := t_time ptr - delay\<rparr> # q
      else ptr # timer_insert (delay - t_time ptr) node q)"

text \<open>\<open>mem\<close> says whether \<open>calloc\<close> finds memory for the node.\<close>

definition timer_set_ms :: "bool \<Rightarrow> int \<Rightarrow> 'a option \<Rightarrow> 'a timers \<Rightarrow> int \<times> 'a timers" where
  "timer_set_ms mem delay action ts =
     (if \<not> mem then (0, ts)
      else
        let i = next_id (tm_id ts);
            node = \<lparr>t_id = i, t_func = action, t_time = delay\<rparr>
        in (i, \<lparr>tm_Q = timer_insert delay node (tm_Q ts), tm_id = i\<rparr>))"

definition int_max :: int where
  "int_max = 2147483647"

definition timer_set :: "bool \<Rightarrow> int \<Rightarrow> 'a option \<Rightarrow> 'a timers \<Rightarrow> int \<times> 'a timers" where
  "timer_set mem delay action ts =
     timer_set_ms mem ((if int_max div 1000 < delay then int_max div 1000 else delay) * 1000) action ts"

fun timer_unlink :: "int \<Rightarrow> 'a tmr list \<Rightarrow> 'a tmr list" where
  "timer_unlink timer_id [] = []"
| "timer_unlink timer_id (ptr # q) =
     (if t_id ptr \<noteq> timer_id then ptr # timer_unlink timer_id q
      else case q of
        [] \<Rightarrow> []
      | next # rest \<Rightarrow> next\<lparr>t_time := t_time next + t_time ptr\<rparr> # rest)"

definition timer_clear :: "int \<Rightarrow> 'a timers \<Rightarrow> 'a timers" where
  "timer_clear timer_id ts =
     (if timer_id = 0 then ts else ts\<lparr>tm_Q := timer_unlink timer_id (tm_Q ts)\<rparr>)"

definition timer_next_delay :: "'a timers \<Rightarrow> int" where
  "timer_next_delay ts =
     (case tm_Q ts of [] \<Rightarrow> -1 | ptr # _ \<Rightarrow> if t_time ptr < 0 then 0 else t_time ptr)"

definition timer_secs_left :: "u64 \<Rightarrow> u64 \<Rightarrow> int" where
  "timer_secs_left now deadline =
     (if deadline \<le> now then 0 else min (uint ((deadline - now + 999) div 1000)) int_max)"

definition tmr_op :: "'a tmr_oper \<Rightarrow> 'a timers \<Rightarrow> 'a timers" where
  "tmr_op oper ts =
     (case oper of TmrSet delay action \<Rightarrow> snd (timer_set_ms True delay action ts)
      | TmrClear i \<Rightarrow> timer_clear i ts)"

definition tmr_call :: "('a \<Rightarrow> 'a tmr_oper list) \<Rightarrow> 'a option \<Rightarrow> 'a timers \<Rightarrow> 'a timers" where
  "tmr_call acts func ts = (case func of None \<Rightarrow> ts | Some f \<Rightarrow> fold tmr_op (acts f) ts)"

text \<open>
  The loop of \<open>timer_age_queue\<close>.  It also returns the identifiers of the timers it fired, in the
  order it fired them.
\<close>

partial_function (option) timer_age_loop ::
    "('a \<Rightarrow> 'a tmr_oper list) \<Rightarrow> int \<Rightarrow> 'a timers \<Rightarrow> ('a timers \<times> int list) option" where
  "timer_age_loop acts elapsed ts =
     (case tm_Q ts of
        [] \<Rightarrow> Some (ts, [])
      | ptr # rest \<Rightarrow>
          if t_time ptr > elapsed
          then Some (ts\<lparr>tm_Q := ptr\<lparr>t_time := t_time ptr - elapsed\<rparr> # rest\<rparr>, [])
          else do {
            (ts', fired) \<leftarrow> timer_age_loop acts (elapsed - t_time ptr)
                              (tmr_call acts (t_func ptr) (ts\<lparr>tm_Q := rest\<rparr>));
            Some (ts', t_id ptr # fired) })"

definition timer_age_queue ::
    "('a \<Rightarrow> 'a tmr_oper list) \<Rightarrow> int \<Rightarrow> 'a timers \<Rightarrow> ('a timers \<times> int list) option" where
  "timer_age_queue acts elapsed_time ts = timer_age_loop acts elapsed_time ts"


section \<open>Deadlines\<close>

text \<open>
  What the queue means: the callouts with the time each is due, given the time \<open>t\<close> the queue has been
  aged to.  The differences the queue stores are an encoding of these.
\<close>

type_synonym 'a callout = "int \<times> int \<times> 'a option"

fun agenda :: "int \<Rightarrow> 'a tmr list \<Rightarrow> 'a callout list" where
  "agenda t [] = []"
| "agenda t (ptr # q) = (t + t_time ptr, t_id ptr, t_func ptr) # agenda (t + t_time ptr) q"

fun agenda_add :: "'a callout \<Rightarrow> 'a callout list \<Rightarrow> 'a callout list" where
  "agenda_add x [] = [x]"
| "agenda_add x (y # ys) = (if fst x < fst y then x # y # ys else y # agenda_add x ys)"

fun agenda_remove :: "int \<Rightarrow> 'a callout list \<Rightarrow> 'a callout list" where
  "agenda_remove i [] = []"
| "agenda_remove i (y # ys) = (if fst (snd y) = i then ys else y # agenda_remove i ys)"

definition agenda_op :: "int \<Rightarrow> 'a tmr_oper \<Rightarrow> 'a callout list \<times> int \<Rightarrow> 'a callout list \<times> int" where
  "agenda_op t oper A =
     (case oper of
        TmrSet delay action \<Rightarrow> (let i = next_id (snd A) in (agenda_add (t + delay, i, action) (fst A), i))
      | TmrClear i \<Rightarrow> (if i = 0 then A else (agenda_remove i (fst A), snd A)))"

definition agenda_call :: "('a \<Rightarrow> 'a tmr_oper list) \<Rightarrow> int \<Rightarrow> 'a option \<Rightarrow> 'a callout list \<times> int \<Rightarrow> 'a callout list \<times> int" where
  "agenda_call acts t func A = (case func of None \<Rightarrow> A | Some f \<Rightarrow> fold (agenda_op t) (acts f) A)"

text \<open>
  Everything due by \<open>now\<close> fires, the earliest first, and each callback runs at the time it was due: a
  timer it sets is due that long after.
\<close>

inductive due_run :: "('a \<Rightarrow> 'a tmr_oper list) \<Rightarrow> int \<Rightarrow> 'a callout list \<times> int \<Rightarrow> 'a callout list \<times> int \<Rightarrow> int list \<Rightarrow> bool"
  for acts :: "'a \<Rightarrow> 'a tmr_oper list" and now :: int where
  due_none: "A = [] \<or> now < fst (hd A) \<Longrightarrow> due_run acts now (A, i) (A, i) []"
| due_fire: "d \<le> now \<Longrightarrow> due_run acts now (agenda_call acts d func (A, i)) B fired \<Longrightarrow>
     due_run acts now ((d, j, func) # A, i) B (j # fired)"

inductive_cases due_runE: "due_run acts now (A, i) B fired"

lemma agenda_insert:
  "agenda t (timer_insert delay node q) = agenda_add (t + delay, t_id node, t_func node) (agenda t q)"
  by (induction delay node q arbitrary: t rule: timer_insert.induct) auto

lemma agenda_unlink: "agenda t (timer_unlink i q) = agenda_remove i (agenda t q)"
  by (induction i q arbitrary: t rule: timer_unlink.induct) (auto simp: algebra_simps split: list.splits)

lemma agenda_shift: "q \<noteq> [] \<Longrightarrow> agenda (t + e) ((hd q)\<lparr>t_time := t_time (hd q) - e\<rparr> # tl q) = agenda t q"
  by (cases q) auto

definition view_at :: "int \<Rightarrow> 'a timers \<Rightarrow> 'a callout list \<times> int" where
  "view_at t ts = (agenda t (tm_Q ts), tm_id ts)"

lemma view_op: "view_at t (tmr_op oper ts) = agenda_op t oper (view_at t ts)"
  by (cases oper)
     (auto simp: view_at_def tmr_op_def agenda_op_def timer_set_ms_def timer_clear_def agenda_insert agenda_unlink Let_def)

lemma view_ops: "view_at t (fold tmr_op opers ts) = fold (agenda_op t) opers (view_at t ts)"
  by (induction opers arbitrary: ts) (simp_all add: view_op)

lemma view_call: "view_at t (tmr_call acts func ts) = agenda_call acts t func (view_at t ts)"
  by (simp add: tmr_call_def agenda_call_def view_ops split: option.splits)

lemma age_loop_due:
  assumes "timer_age_loop acts elapsed ts = Some r"
  shows "\<forall>t. due_run acts (t + elapsed) (view_at t ts) (view_at (t + elapsed) (fst r)) (snd r)"
proof (rule timer_age_loop.raw_induct [OF _ assms], goal_cases)
  case (1 loop acts elapsed ts r)
  show ?case
  proof (cases "tm_Q ts")
    case Nil
    then show ?thesis using 1 by (auto simp: view_at_def intro: due_none)
  next
    case (Cons ptr rest)
    show ?thesis
    proof (cases "t_time ptr > elapsed")
      case True
      then show ?thesis using 1 Cons agenda_shift [of "tm_Q ts" _ elapsed]
        by (auto simp: view_at_def intro!: due_none)
    next
      case False
      let ?ts = "tmr_call acts (t_func ptr) (ts\<lparr>tm_Q := rest\<rparr>)"
      obtain ts1 f1 where l: "loop acts (elapsed - t_time ptr) ?ts = Some (ts1, f1)" and r: "r = (ts1, t_id ptr # f1)"
        using 1(2) Cons False by (auto split: bind_splits)
      have "due_run acts (t + elapsed) (view_at (t + t_time ptr) ?ts) (view_at (t + elapsed) ts1) f1" for t
        using spec [OF 1(1) [OF l], of "t + t_time ptr"] by (simp add: algebra_simps)
      then have "due_run acts (t + elapsed) ((t + t_time ptr, t_id ptr, t_func ptr) # agenda (t + t_time ptr) rest, tm_id ts)
          (view_at (t + elapsed) ts1) (t_id ptr # f1)" for t
        using False by (intro due_fire) (simp_all add: view_call, simp add: view_at_def)
      then show ?thesis using Cons r by (simp add: view_at_def)
    qed
  qed
qed


section \<open>Bounds, and that aging ends\<close>

definition queue_ok :: "'a tmr list \<Rightarrow> bool" where
  "queue_ok q \<longleftrightarrow> list_all (\<lambda>ptr. 0 \<le> t_time ptr) q \<and> sum_list (map t_time q) \<le> int_max"

definition op_ok :: "'a tmr_oper \<Rightarrow> bool" where
  "op_ok oper = (case oper of TmrSet delay action \<Rightarrow> 0 < delay \<and> delay \<le> int_max | TmrClear i \<Rightarrow> True)"

definition zeros :: "'a tmr list \<Rightarrow> nat" where
  "zeros q = length (takeWhile (\<lambda>ptr. t_time ptr = 0) q)"

lemma zeros_simps [simp]:
  "zeros [] = 0" "zeros (ptr # q) = (if t_time ptr = 0 then Suc (zeros q) else 0)"
  by (simp_all add: zeros_def)

lemma sum_nonneg: "list_all (\<lambda>ptr. 0 \<le> t_time ptr) q \<Longrightarrow> 0 \<le> sum_list (map t_time q)"
  by (induction q) auto

lemma insert_times:
  "list_all (\<lambda>ptr. 0 \<le> t_time ptr) q \<Longrightarrow> 0 \<le> delay \<Longrightarrow>
     list_all (\<lambda>ptr. 0 \<le> t_time ptr) (timer_insert delay node q) \<and>
     sum_list (map t_time (timer_insert delay node q)) = max delay (sum_list (map t_time q))"
proof (induction delay node q rule: timer_insert.induct)
  case (2 delay node ptr q)
  then show ?case using sum_nonneg [of q] by (auto simp: max_def)
qed simp

lemma insert_zeros: "0 < delay \<Longrightarrow> zeros (timer_insert delay node q) \<le> zeros q"
  by (induction delay node q rule: timer_insert.induct) auto

lemma unlink_times:
  "list_all (\<lambda>ptr. 0 \<le> t_time ptr) q \<Longrightarrow>
     list_all (\<lambda>ptr. 0 \<le> t_time ptr) (timer_unlink i q) \<and>
     sum_list (map t_time (timer_unlink i q)) \<le> sum_list (map t_time q) \<and> zeros (timer_unlink i q) \<le> zeros q"
  by (induction i q rule: timer_unlink.induct) (auto split: list.splits)

lemma op_keeps:
  assumes "queue_ok (tm_Q ts)" "op_ok oper"
  shows "queue_ok (tm_Q (tmr_op oper ts)) \<and> zeros (tm_Q (tmr_op oper ts)) \<le> zeros (tm_Q ts)"
proof (cases oper)
  case (TmrSet delay action)
  then show ?thesis using assms insert_times [of "tm_Q ts" delay] insert_zeros
    by (auto simp: tmr_op_def timer_set_ms_def queue_ok_def op_ok_def Let_def)
next
  case (TmrClear i)
  then show ?thesis using assms unlink_times [of "tm_Q ts" i]
    by (auto simp: tmr_op_def timer_clear_def queue_ok_def)
qed

lemma ops_keep:
  "queue_ok (tm_Q ts) \<Longrightarrow> list_all op_ok opers \<Longrightarrow>
     queue_ok (tm_Q (fold tmr_op opers ts)) \<and> zeros (tm_Q (fold tmr_op opers ts)) \<le> zeros (tm_Q ts)"
proof (induction opers arbitrary: ts)
  case (Cons oper opers)
  then show ?case using op_keeps [of ts oper] by (auto intro: order_trans)
qed simp

lemma call_keeps:
  "queue_ok (tm_Q ts) \<Longrightarrow> \<forall>f. list_all op_ok (acts f) \<Longrightarrow>
     queue_ok (tm_Q (tmr_call acts func ts)) \<and> zeros (tm_Q (tmr_call acts func ts)) \<le> zeros (tm_Q ts)"
  by (auto simp: tmr_call_def ops_keep split: option.splits)

definition head_later :: "'a timers \<Rightarrow> bool" where
  "head_later ts = (case tm_Q ts of [] \<Rightarrow> True | ptr # _ \<Rightarrow> 0 < t_time ptr)"

lemma age_loop_returns:
  assumes acts: "\<forall>f. list_all op_ok (acts f)"
  shows "queue_ok (tm_Q ts) \<Longrightarrow> 0 \<le> elapsed \<Longrightarrow>
    \<exists>ts' fired. timer_age_loop acts elapsed ts = Some (ts', fired) \<and> queue_ok (tm_Q ts') \<and> head_later ts'"
proof (induction "(elapsed, ts)" arbitrary: elapsed ts
    rule: wf_induct_rule [OF wf_measures [of "[\<lambda>(e, ts). nat e, \<lambda>(e, ts). zeros (tm_Q ts)]"]])
  case (1 elapsed ts)
  show ?case
  proof (cases "tm_Q ts")
    case Nil
    then show ?thesis using 1 by (simp add: timer_age_loop.simps head_later_def)
  next
    case (Cons ptr rest)
    have pos: "0 \<le> t_time ptr" and rest: "queue_ok rest"
      using "1.prems" Cons by (auto simp: queue_ok_def)
    show ?thesis
    proof (cases "t_time ptr > elapsed")
      case True
      then show ?thesis using "1.prems" Cons by (auto simp: timer_age_loop.simps head_later_def queue_ok_def)
    next
      case False
      let ?ts = "tmr_call acts (t_func ptr) (ts\<lparr>tm_Q := rest\<rparr>)"
      have keep: "queue_ok (tm_Q ?ts)" "zeros (tm_Q ?ts) \<le> zeros rest"
        using call_keeps [of "ts\<lparr>tm_Q := rest\<rparr>" acts "t_func ptr"] rest acts by auto
      have "\<exists>ts' fired. timer_age_loop acts (elapsed - t_time ptr) ?ts = Some (ts', fired) \<and>
          queue_ok (tm_Q ts') \<and> head_later ts'"
        by (rule "1.hyps") (use False pos keep Cons in \<open>auto simp: le_less\<close>)
      then show ?thesis using False Cons by (subst timer_age_loop.simps) auto
    qed
  qed
qed

lemma next_id_positive: "0 < next_id cur"
  by (simp add: next_id_def Let_def)


section \<open>Properties\<close>



text \<open>
  C26: The queue of differences is the list of deadlines: setting a timer adds its deadline behind
  the ones that are not later, clearing one removes the first callout of that identifier and moves
  no other deadline, and an identifier the daemon is handed is positive.
\<close>
theorem timer_queue_refines_agenda:
  "view_at t (snd (timer_set_ms True delay action ts)) = agenda_op t (TmrSet delay action) (view_at t ts) \<and>
   view_at t (timer_clear i ts) = agenda_op t (TmrClear i) (view_at t ts) \<and>
   0 < fst (timer_set_ms True delay action ts)"
  using view_op [of t "TmrSet delay action" ts] view_op [of t "TmrClear i" ts]
  by (simp add: tmr_op_def timer_set_ms_def Let_def next_id_positive)

text \<open>
  C38: The bounds that keep the arithmetic of the queue within an \<open>int\<close> are kept by every call: with
  no negative difference and the last deadline at most \<open>INT_MAX\<close> milliseconds away, setting a timer
  of any non-negative number of seconds and clearing a timer leave it so, and the delay \<open>poll\<close> is
  given is between -1 and \<open>INT_MAX\<close>.
\<close>
theorem timer_queue_bounds:
  assumes "queue_ok (tm_Q ts)" "0 \<le> secs"
  shows "queue_ok (tm_Q (snd (timer_set mem secs action ts))) \<and> queue_ok (tm_Q (timer_clear i ts)) \<and>
    - 1 \<le> timer_next_delay ts \<and> timer_next_delay ts \<le> int_max"
proof -
  let ?ms = "(if int_max div 1000 < secs then int_max div 1000 else secs) * 1000"
  have ms: "0 \<le> ?ms" "?ms \<le> int_max" using assms(2) by (auto simp: int_max_def)
  have "queue_ok (tm_Q (snd (timer_set mem secs action ts)))"
    using assms(1) ms insert_times [of "tm_Q ts" ?ms]
    by (auto simp: timer_set_def timer_set_ms_def queue_ok_def Let_def)
  moreover have "queue_ok (tm_Q (timer_clear i ts))"
    using assms(1) unlink_times [of "tm_Q ts" i] by (auto simp: timer_clear_def queue_ok_def)
  moreover have "- 1 \<le> timer_next_delay ts \<and> timer_next_delay ts \<le> int_max"
    using assms(1) sum_nonneg [of "tl (tm_Q ts)"]
    by (cases "tm_Q ts") (auto simp: timer_next_delay_def queue_ok_def int_max_def)
  ultimately show ?thesis by simp
qed

theorem timer_queue_bounds_witness:
  "queue_ok (tm_Q (snd (timer_set True 3000000 (Some ()) timer_init)))"
  using timer_queue_bounds [of timer_init 3000000 True "Some ()" 0]
  by (simp add: timer_init_def queue_ok_def int_max_def)

end
