(* ===== verification/Text.thy ===== *)
theory Text
  imports Main "HOL-Library.Sublist"
begin

text \<open>
  The string walks of \<^verbatim>\<open>src/text.c\<close>.  A C string is the list of its characters without the
  terminator, a \<open>char *\<close> into it is the rest of the list from there on, and \<open>NULL\<close> is \<open>None\<close>.
\<close>


section \<open>Words\<close>

definition text_word_max :: nat where
  "text_word_max = 41"

definition is_blank :: "char \<Rightarrow> bool" where
  "is_blank c \<longleftrightarrow> c = CHR '' '' \<or> c = CHR 0x09"

definition ends_line :: "char \<Rightarrow> bool" where
  "ends_line c \<longleftrightarrow> c = CHR 0x0A \<or> c = CHR ''#''"

definition lower :: "char \<Rightarrow> char" where
  "lower c = (if 65 \<le> (of_char c :: nat) \<and> (of_char c :: nat) \<le> 90 then char_of (of_char c - 65 + 97 :: nat) else c)"

text \<open>The loop that fills the token: \<open>n\<close> is the room it has left.\<close>

fun word_loop :: "nat \<Rightarrow> string \<Rightarrow> string \<times> string" where
  "word_loop 0 s = ([], s)"
| "word_loop (Suc n) [] = ([], [])"
| "word_loop (Suc n) (c # s) =
     (if is_blank c then ([], s)
      else if ends_line c then ([], c # s)
      else let (token, rest) = word_loop n s in (lower c # token, rest))"

definition next_word :: "string \<Rightarrow> string \<times> string" where
  "next_word s = word_loop text_word_max (dropWhile is_blank s)"


section \<open>Trimming\<close>

fun chomp_from :: "nat \<Rightarrow> string \<Rightarrow> string" where
  "chomp_from 0 str = take 0 str"
| "chomp_from (Suc n) str = (if str ! n = CHR 0x0A then chomp_from n (take n str) else str)"

definition chomp :: "string option \<Rightarrow> string option" where
  "chomp str =
     (case str of
        None \<Rightarrow> None
      | Some s \<Rightarrow> if s = [] then None else Some (chomp_from (length s) s))"

definition text_strip :: "string \<Rightarrow> nat \<Rightarrow> string" where
  "text_strip cmd len =
     (let ptr = dropWhile (\<lambda>c. c \<in> set [CHR '' '', CHR 0x09, CHR 0x0A]) (drop len cmd) in
      case chomp (Some ptr) of None \<Rightarrow> ptr | Some s \<Rightarrow> s)"


section \<open>What they do\<close>

definition word_char :: "char \<Rightarrow> bool" where
  "word_char c \<longleftrightarrow> \<not> is_blank c \<and> \<not> ends_line c"

lemma word_loop_token: "fst (word_loop n s) = map lower (take n (takeWhile word_char s))"
  by (induction n s rule: word_loop.induct) (auto simp: word_char_def split: prod.splits)

lemma word_loop_rest:
  "length (takeWhile word_char s) < n \<Longrightarrow>
     snd (word_loop n s) = (case dropWhile word_char s of [] \<Rightarrow> [] | c # t \<Rightarrow> if is_blank c then t else c # t)"
  by (induction n s rule: word_loop.induct) (auto simp: word_char_def split: prod.splits if_splits)

lemma word_loop_suffix: "suffix (snd (word_loop n s)) s"
  by (induction n s rule: word_loop.induct) (auto simp: suffix_Cons split: prod.splits)

lemma next_word_length: "length (fst (next_word s)) \<le> text_word_max"
  by (simp add: next_word_def word_loop_token)

lemma next_word_suffix: "suffix (snd (next_word s)) s"
  unfolding next_word_def
  by (rule suffix_order.trans [OF word_loop_suffix suffix_dropWhile])

text \<open>
  A line of words: each made of word characters, not empty and not longer than a token, separated
  by one blank or more.
\<close>

definition good_word :: "string \<Rightarrow> bool" where
  "good_word w \<longleftrightarrow> w \<noteq> [] \<and> length w < text_word_max \<and> list_all word_char w"

lemma good_word_hd: "good_word w \<Longrightarrow> w \<noteq> [] \<and> \<not> is_blank (hd w)"
  by (cases w) (auto simp: good_word_def word_char_def)

lemma next_word_split:
  assumes "list_all is_blank bs" "good_word w" "is_blank b"
  shows "next_word (bs @ w @ b # rest) = (map lower w, rest)"
proof -
  have "w \<noteq> []" "\<not> is_blank (hd w)" using good_word_hd [OF assms(2)] by simp_all
  then have d: "dropWhile is_blank (bs @ w @ b # rest) = w @ b # rest"
    using assms(1) by (cases w) (simp_all add: dropWhile_append2 list_all_iff)
  have t: "takeWhile word_char (w @ b # rest) = w"
    using assms by (simp add: good_word_def list_all_iff takeWhile_append2 word_char_def)
  have r: "dropWhile word_char (w @ b # rest) = b # rest"
    using assms by (simp add: good_word_def list_all_iff dropWhile_append2 word_char_def)
  show ?thesis
    using assms t r unfolding next_word_def d
    by (intro prod_eqI) (simp_all add: word_loop_token word_loop_rest good_word_def)
qed

lemma next_word_last:
  assumes "list_all is_blank bs" "good_word w" "rest = [] \<or> ends_line (hd rest)"
  shows "next_word (bs @ w @ rest) = (map lower w, rest)"
proof -
  have "w \<noteq> []" "\<not> is_blank (hd w)" using good_word_hd [OF assms(2)] by simp_all
  then have d: "dropWhile is_blank (bs @ w @ rest) = w @ rest"
    using assms(1) by (cases w) (simp_all add: dropWhile_append2 list_all_iff)
  have nb: "rest = [] \<or> \<not> word_char (hd rest) \<and> \<not> is_blank (hd rest)"
    using assms(3) by (auto simp: word_char_def ends_line_def is_blank_def)
  have t: "takeWhile word_char (w @ rest) = w"
    using assms(2) nb by (cases rest) (simp_all add: good_word_def list_all_iff takeWhile_append2)
  have r: "dropWhile word_char (w @ rest) = rest"
    using assms(2) nb by (cases rest) (simp_all add: good_word_def list_all_iff dropWhile_append2)
  have "length w < text_word_max" using assms(2) by (simp add: good_word_def)
  moreover have "(case rest of [] \<Rightarrow> [] | c # t \<Rightarrow> if is_blank c then t else c # t) = rest"
    using nb by (cases rest) simp_all
  ultimately show ?thesis
    unfolding next_word_def d
    by (intro prod_eqI) (simp_all add: word_loop_token word_loop_rest t r)
qed

lemma chomp_from_spec:
  "chomp_from (length s) s = rev (dropWhile (\<lambda>c. c = CHR 0x0A) (rev s))"
proof (induction s rule: rev_induct)
  case (snoc c s)
  then show ?case by simp
qed simp

lemma chomp_Some: "(case chomp (Some s) of None \<Rightarrow> s | Some t \<Rightarrow> t) = rev (dropWhile (\<lambda>c. c = CHR 0x0A) (rev s))"
  by (cases "s = []") (simp_all add: chomp_def chomp_from_spec)

lemma text_strip_spec:
  "text_strip cmd len =
     rev (dropWhile (\<lambda>c. c = CHR 0x0A) (rev (dropWhile (\<lambda>c. c \<in> set [CHR '' '', CHR 0x09, CHR 0x0A]) (drop len cmd))))"
  unfolding text_strip_def Let_def by (rule chomp_Some)


section \<open>Properties\<close>

text \<open>
  A line of the configuration is read a word at a time: in front of blanks, \<open>next_word\<close> returns
  the word in lower case, and leaves the rest of the line behind the one blank that ended it.
\<close>
theorem next_word_reads_word:
  assumes "list_all is_blank bs" "good_word w" "is_blank b"
  shows "next_word (bs @ w @ b # rest) = (map lower w, rest)"
  by (rule next_word_split) (use assms in auto)

theorem next_word_reads_word_witness:
  "next_word '' PHYINT em0'' = (''phyint'', ''em0'')"
  using next_word_reads_word [of "'' ''" "''PHYINT''" "CHR '' ''" "''em0''"]
  by (simp add: is_blank_def good_word_def word_char_def ends_line_def lower_def text_word_max_def char_of_def bit_0)

text \<open>
  No word is longer than the static buffer \<open>next_word\<close> returns it in, whatever the line, and
  what is left of the line is a suffix of it; stripping a command of its name drops the name, the
  blanks and newlines behind it, and the newlines at the end, and nothing else.
\<close>
theorem text_within_buffer:
  "length (fst (next_word s)) \<le> text_word_max \<and> suffix (snd (next_word s)) s \<and>
   text_strip cmd len =
     rev (dropWhile (\<lambda>c. c = CHR 0x0A) (rev (dropWhile (\<lambda>c. c \<in> set [CHR '' '', CHR 0x09, CHR 0x0A]) (drop len cmd))))"
  using next_word_length next_word_suffix text_strip_spec by blast

end
