(* ===== verification/Pim_Roundtrip.thy ===== *)
theory Pim_Roundtrip
  imports Pim_Encode Pim_Parse Autorp_Parse
begin

text \<open>
  What the builders of \<^verbatim>\<open>src/pim_encode.c\<close> write is what the decoders of \<^verbatim>\<open>src/pim_parse.c\<close> and
  \<^verbatim>\<open>src/autorp_parse.c\<close> read back.  Reads are described by what is left of the message at a
  position: \<open>drop p msg\<close> begins with the bytes of a field.
\<close>


section \<open>What a builder leaves in an empty buffer\<close>

lemma init_inv: "writer_inv 0 (length mem) mem (pim_writer_init mem 0 (length mem))"
  by (simp add: writer_inv_def pim_writer_init_def)

lemma puts_written:
  assumes "puts pim_put (pim_writer_init mem 0 (length mem)) cs = Some w"
  shows "w_full w = (length mem < length (concat cs)) \<and> (\<not> w_full w \<longrightarrow> written 0 w = concat cs)"
proof -
  let ?w = "pim_writer_init mem 0 (length mem)"
  have w: "\<not> w_full ?w" "w_left ?w = length mem" "written 0 ?w = []"
    by (simp_all add: pim_writer_init_def written_def)
  show ?thesis
  proof (cases "length (concat cs) \<le> length mem")
    case True
    then show ?thesis using ws.puts_fit [OF init_inv w(1), of cs] assms w by auto
  next
    case False
    then show ?thesis using ws.puts_overflow [OF init_inv, of mem cs] assms w by auto
  qed
qed

lemma puts_init: "\<exists>w. puts pim_put (pim_writer_init mem 0 (length mem)) cs = Some w"
  using ws.puts_total [OF init_inv] by blast


section \<open>Reading at a position\<close>

lemma drop_step: "drop p msg = xs @ rest \<Longrightarrow> drop (p + length xs) msg = rest"
  using drop_drop [of "length xs" p msg] by (simp add: add.commute)

lemma nth_at: "drop p msg = xs @ rest \<Longrightarrow> xs \<noteq> [] \<Longrightarrow> i < length xs \<Longrightarrow> msg ! (p + i) = xs ! i \<and> p + i < length msg"
proof -
  assume d: "drop p msg = xs @ rest" and i: "i < length xs" "xs \<noteq> []"
  then have "length msg - p = length xs + length rest" by (metis length_append length_drop)
  then have l: "p + i < length msg" using i by linarith
  then have "msg ! (p + i) = drop p msg ! i" by simp
  then show ?thesis using d i l by (simp add: nth_append)
qed

lemma length_at: "drop p msg = xs @ rest \<Longrightarrow> xs \<noteq> [] \<Longrightarrow> p + length xs \<le> length msg"
proof -
  assume d: "drop p msg = xs @ rest" and "xs \<noteq> []"
  then have "length msg - p = length xs + length rest" by (metis length_append length_drop)
  then show ?thesis using \<open>xs \<noteq> []\<close> by (cases xs) auto
qed

lemma get_byte_at: "drop p msg = [b] @ rest \<Longrightarrow> get_byte msg p = Some (b, p + 1)"
  using nth_at [of p msg "[b]" rest 0] by (simp add: get_byte_Some)

lemma get_hostshort_at: "drop p msg = be16b v @ rest \<Longrightarrow> get_hostshort msg p = Some (v, p + 2)"
  using nth_at [of p msg "be16b v" rest 0] nth_at [of p msg "be16b v" rest 1] length_at [of p msg "be16b v" rest]
  by (simp add: get_hostshort_Some be16b_def)

lemma get_hostlong_at: "drop p msg = be32b v @ rest \<Longrightarrow> get_hostlong msg p = Some (v, p + 4)"
  using nth_at [of p msg "be32b v" rest 0] nth_at [of p msg "be32b v" rest 1] nth_at [of p msg "be32b v" rest 2]
    nth_at [of p msg "be32b v" rest 3] length_at [of p msg "be32b v" rest]
  by (simp add: get_hostlong_Some be32b_def)

lemma get_netlong_at: "drop p msg = mem32 a @ rest \<Longrightarrow> get_netlong msg p = Some (a, p + 4)"
  using nth_at [of p msg "mem32 a" rest 0] nth_at [of p msg "mem32 a" rest 1] nth_at [of p msg "mem32 a" rest 2]
    nth_at [of p msg "mem32 a" rest 3] length_at [of p msg "mem32 a" rest]
  by (simp add: get_netlong_Some mem32_def)

lemma get_euaddr_at:
  assumes "drop p msg = euaddr_bytes a @ rest"
  shows "get_euaddr msg p = Some (\<lparr>eua_addr_family = 1, eua_encod_type = 0, eua_unicast_addr = a\<rparr>, p + 6)"
proof -
  have d: "drop p msg = [1] @ [0] @ mem32 a @ rest" using assms by (simp add: euaddr_bytes_def)
  have d1: "drop (p + 1) msg = [0] @ mem32 a @ rest" using drop_step [OF d] by simp
  have d2: "drop (p + 1 + 1) msg = mem32 a @ rest" using drop_step [OF d1] by simp
  show ?thesis using get_byte_at [OF d] get_byte_at [OF d1] get_netlong_at [OF d2] by (simp add: get_euaddr_def)
qed

lemma eaddr_at:
  assumes "drop p msg = eaddr_bytes a ml r @ rest"
  shows "get_byte msg p = Some (1, p + 1)" "get_byte msg (p + 1) = Some (0, p + 2)"
    "get_byte msg (p + 2) = Some (r, p + 3)" "get_byte msg (p + 3) = Some (ml, p + 4)"
    "get_netlong msg (p + 4) = Some (a AND masklen_to_mask (unat ml), p + 8)"
proof -
  have d: "drop p msg = [1] @ [0] @ [r] @ [ml] @ mem32 (a AND masklen_to_mask (unat ml)) @ rest"
    using assms by (simp add: eaddr_bytes_def)
  note d1 = drop_step [OF d]
  note d2 = drop_step [OF d1]
  note d3 = drop_step [OF d2]
  note d4 = drop_step [OF d3]
  show "get_byte msg p = Some (1, p + 1)" "get_byte msg (p + 1) = Some (0, p + 2)"
    "get_byte msg (p + 2) = Some (r, p + 3)" "get_byte msg (p + 3) = Some (ml, p + 4)"
    "get_netlong msg (p + 4) = Some (a AND masklen_to_mask (unat ml), p + 8)"
    using get_byte_at [OF d] get_byte_at [OF d1] get_byte_at [OF d2] get_byte_at [OF d3] get_netlong_at [OF d4]
    by (simp_all add: eval_nat_numeral)
qed

lemma get_egaddr_at:
  assumes "drop p msg = eaddr_bytes a ml r @ rest"
  shows "get_egaddr msg p = Some (\<lparr>ega_addr_family = 1, ega_encod_type = 0, ega_reserved = r,
    ega_masklen = ml, ega_mcast_addr = a AND masklen_to_mask (unat ml)\<rparr>, p + 8)"
  using eaddr_at [OF assms] by (simp add: get_egaddr_def)

lemma get_esaddr_at:
  assumes "drop p msg = eaddr_bytes a ml r @ rest"
  shows "get_esaddr msg p = Some (\<lparr>esa_addr_family = 1, esa_encod_type = 0, esa_flags = r,
    esa_masklen = ml, esa_src_addr = a AND masklen_to_mask (unat ml)\<rparr>, p + 8)"
  using eaddr_at [OF assms] by (simp add: get_esaddr_def)

lemma length_fields [simp]:
  "length (be16b v) = 2" "length (be32b x) = 4" "length (euaddr_bytes a) = 6" "length (eaddr_bytes a ml r) = 8"
  by (simp_all add: be16b_def be32b_def euaddr_bytes_def eaddr_bytes_def)

lemma masklen_32 [simp]: "a AND masklen_to_mask 32 = a"
proof -
  have "ntohl (a AND masklen_to_mask 32) = ntohl a"
    using ntohl_masklen_to_mask [of 32] by (simp add: ntohl_and)
  then show ?thesis by simp
qed


lemma puts_room:
  assumes "length (concat cs) \<le> length mem"
  shows "\<exists>w. puts pim_put (pim_writer_init mem 0 (length mem)) cs = Some w \<and> \<not> w_full w \<and> written 0 w = concat cs"
proof -
  obtain w where w: "puts pim_put (pim_writer_init mem 0 (length mem)) cs = Some w" using puts_init by blast
  then show ?thesis using puts_written [OF w] assms by (intro exI [of _ w]) auto
qed

lemma eaddr_rd:
  assumes "drop p msg = eaddr_bytes a ml r @ rest"
  shows "rd msg p = Some 1" "rd msg (p + 1) = Some 0" "rd msg (p + 3) = Some ml"
  using eaddr_at [OF assms] by (simp_all add: get_byte_def split: bind_splits)


section \<open>Register-Stop and Assert\<close>

lemma sg_at:
  assumes "drop 4 msg = eaddr_bytes g 32 0 @ euaddr_bytes s @ rest" "minlen \<le> 18 + length rest"
  shows "pim_parse_sg msg minlen sg_zero =
    Some (PIM_SG_OK, 18, \<lparr>sg_group = g, sg_source = s, sg_preference = 0, sg_metric = 0\<rparr>) \<and> drop 18 msg = rest"
proof -
  have e: "drop (4 + 8) msg = euaddr_bytes s @ rest" using drop_step [OF assms(1)] by simp
  have r: "drop (12 + 6) msg = rest" using drop_step [OF e] by simp
  have "length msg - 4 = 14 + length rest" using arg_cong [OF assms(1), of length] by simp
  then have "\<not> length msg < minlen" using assms(2) by simp
  then show ?thesis using get_egaddr_at [OF assms(1)] get_euaddr_at [OF e] r
    by (simp add: pim_parse_sg_def sg_zero_def)
qed

lemma register_stop_roundtrip:
  assumes "length hdr = 4" "14 \<le> length mem"
  shows "\<exists>w. pim_encode_register_stop (pim_writer_init mem 0 (length mem)) g s = Some (True, w) \<and>
    pim_parse_register_stop (hdr @ written 0 w) =
      Some (PIM_SG_OK, \<lparr>sg_group = g, sg_source = s, sg_preference = 0, sg_metric = 0\<rparr>)"
proof -
  let ?cs = "[eaddr_bytes g 32 0, euaddr_bytes s]"
  obtain w where w: "puts pim_put (pim_writer_init mem 0 (length mem)) ?cs = Some w" "\<not> w_full w" "written 0 w = concat ?cs"
    using puts_room [of ?cs mem] assms(2) by auto
  have "drop 4 (hdr @ written 0 w) = eaddr_bytes g 32 0 @ euaddr_bytes s @ []" using assms(1) w by simp
  then have "pim_parse_register_stop (hdr @ written 0 w) =
      Some (PIM_SG_OK, \<lparr>sg_group = g, sg_source = s, sg_preference = 0, sg_metric = 0\<rparr>)"
    using sg_at [of "hdr @ written 0 w" g s "[]" pim_register_stop_minlen]
    by (simp add: pim_parse_register_stop_def pim_register_stop_minlen_def)
  then show ?thesis using w by (auto simp: register_stop_chunks)
qed

lemma assert_roundtrip:
  assumes "length hdr = 4" "22 \<le> length mem"
  shows "\<exists>w. pim_encode_assert (pim_writer_init mem 0 (length mem)) g s pref metric = Some (True, w) \<and>
    pim_parse_assert (hdr @ written 0 w) =
      Some (PIM_SG_OK, \<lparr>sg_group = g, sg_source = s, sg_preference = pref, sg_metric = metric\<rparr>)"
proof -
  let ?cs = "[eaddr_bytes g 32 0, euaddr_bytes s, be32b pref, be32b metric]"
  obtain w where w: "puts pim_put (pim_writer_init mem 0 (length mem)) ?cs = Some w" "\<not> w_full w" "written 0 w = concat ?cs"
    using puts_room [of ?cs mem] assms(2) by auto
  let ?msg = "hdr @ written 0 w"
  have "drop 4 ?msg = eaddr_bytes g 32 0 @ euaddr_bytes s @ be32b pref @ be32b metric" using assms(1) w by simp
  note sg = sg_at [OF this, of pim_assert_minlen]
  then have p: "drop 18 ?msg = be32b pref @ be32b metric" by (simp add: pim_assert_minlen_def)
  have m: "drop (18 + 4) ?msg = be32b metric @ []" using drop_step [OF p] by simp
  show ?thesis using w sg get_hostlong_at [OF p] get_hostlong_at [OF m]
    by (auto simp: assert_chunks pim_parse_assert_def pim_assert_minlen_def)
qed


section \<open>Join/Prune\<close>

text \<open>
  A group set as a caller of the builders has it: the group and its mask length, the joined and the
  pruned sources with their flags.  \<open>jp_put_sets\<close> is the sequence of calls that pack the sets into a
  message; the count of the sets goes where \<open>pim_encode_jp_hdr\<close> said.
\<close>

record jp_set =
  js_group :: u32
  js_masklen :: u8
  js_joins :: "(u32 \<times> u8) list"
  js_prunes :: "(u32 \<times> u8) list"

definition src_bytes :: "u32 \<times> u8 \<Rightarrow> bytes" where
  "src_bytes s = eaddr_bytes (fst s) 32 (snd s)"

definition set_bytes :: "jp_set \<Rightarrow> bytes" where
  "set_bytes s = eaddr_bytes (js_group s) (js_masklen s) 0 @ be16b (of_nat (length (js_joins s))) @
     be16b (of_nat (length (js_prunes s))) @ concat (map src_bytes (js_joins s @ js_prunes s))"

fun jp_put_sets :: "pim_writer \<Rightarrow> jp_set list \<Rightarrow> pim_writer option" where
  "jp_put_sets w [] = Some w"
| "jp_put_sets w (s # ss) = do {
     (_, w) \<leftarrow> pim_encode_jp_group w (js_group s) (js_masklen s) (of_nat (length (js_joins s)))
       (of_nat (length (js_prunes s))) (concat (map src_bytes (js_joins s))) (concat (map src_bytes (js_prunes s)));
     jp_put_sets w ss }"

definition jp_put_message :: "pim_writer \<Rightarrow> u32 \<Rightarrow> u16 \<Rightarrow> jp_set list \<Rightarrow> (nat \<times> pim_writer) option" where
  "jp_put_message w upstream holdtime sets = do {
     (_, num_groups, w) \<leftarrow> pim_encode_jp_hdr w upstream holdtime;
     w \<leftarrow> jp_put_sets w sets;
     Some (num_groups, w) }"

definition jp_set_ok :: "jp_set \<Rightarrow> bool" where
  "jp_set_ok s \<longleftrightarrow> js_masklen s \<le> 32 \<and> length (js_joins s) < 65536 \<and> length (js_prunes s) < 65536"

definition jp_set_read :: "bytes \<Rightarrow> jp_set \<Rightarrow> pim_jp_grp \<Rightarrow> bool" where
  "jp_set_read msg s g \<longleftrightarrow>
     jpg_group g = js_group s AND masklen_to_mask (unat (js_masklen s)) \<and> jpg_masklen g = js_masklen s \<and>
     unat (jpg_num_j g) = length (js_joins s) \<and> unat (jpg_num_p g) = length (js_prunes s) \<and>
     map (pim_jp_source msg g) [0 ..< length (js_joins s @ js_prunes s)] =
       map (\<lambda>(a, fl). Some \<lparr>jps_addr = a, jps_flags = fl, jps_masklen = 32\<rparr>) (js_joins s @ js_prunes s)"

lemma length_srcs [simp]: "length (concat (map src_bytes ss)) = 8 * length ss"
  by (induction ss) (simp_all add: src_bytes_def)

lemma srcs_parse:
  "drop p msg = concat (map src_bytes ss) @ rest \<Longrightarrow> pim_parse_jp_srcs msg p (8 * length ss) jp = Some (PIM_JP_OK, jp)"
proof (induction ss arbitrary: p)
  case Nil
  then show ?case by (simp add: pim_parse_jp_srcs.simps)
next
  case (Cons s ss)
  have e: "drop p msg = eaddr_bytes (fst s) 32 (snd s) @ concat (map src_bytes ss) @ rest"
    using Cons.prems by (simp add: src_bytes_def [of s])
  have "drop (p + 8) msg = concat (map src_bytes ss) @ rest" using drop_step [OF e] by simp
  then show ?case using Cons.IH eaddr_rd [OF e] by (subst pim_parse_jp_srcs.simps) simp
qed

lemma src_at:
  "drop p msg = concat (map src_bytes ss) @ rest \<Longrightarrow> i < length ss \<Longrightarrow>
     get_esaddr msg (p + i * 8) = Some (\<lparr>esa_addr_family = 1, esa_encod_type = 0, esa_flags = snd (ss ! i),
       esa_masklen = 32, esa_src_addr = fst (ss ! i)\<rparr>, p + i * 8 + 8)"
proof (induction ss arbitrary: p i)
  case (Cons s ss)
  have e: "drop p msg = eaddr_bytes (fst s) 32 (snd s) @ concat (map src_bytes ss) @ rest"
    using Cons.prems by (simp add: src_bytes_def [of s])
  have d: "drop (p + 8) msg = concat (map src_bytes ss) @ rest" using drop_step [OF e] by simp
  show ?case
  proof (cases i)
    case 0
    then show ?thesis using get_esaddr_at [OF e] by simp
  next
    case (Suc j)
    then show ?thesis using Cons.IH [OF d, of j] Cons.prems(2) by (simp add: algebra_simps)
  qed
qed simp

lemma unat_of_nat16: "n < 65536 \<Longrightarrow> unat (of_nat n :: u16) = n"
  by (simp add: unat_of_nat)

lemma length_set [simp]: "length (set_bytes s) = 12 + 8 * (length (js_joins s) + length (js_prunes s))"
  by (simp add: set_bytes_def del: map_append)

lemma set_at:
  assumes d: "drop p msg = set_bytes s @ rest" and ok: "jp_set_ok s" and left: "left = length (set_bytes s @ rest)"
  shows "\<exists>c. pim_parse_jp_set msg \<lparr>c_p = p, c_left = left\<rparr> jp =
      Some (PIM_JP_OK, \<lparr>c_p = p + length (set_bytes s), c_left = length rest\<rparr>, c, jp) \<and>
      pim_parse_jp_srcs msg (c_p c) (c_left c) jp = Some (PIM_JP_OK, jp)"
    and "\<exists>g. pim_jp_group msg p = Some (p + length (set_bytes s), g) \<and> jp_set_read msg s g"
proof -
  let ?nj = "of_nat (length (js_joins s)) :: u16" and ?np = "of_nat (length (js_prunes s)) :: u16"
  let ?ss = "js_joins s @ js_prunes s"
  have n: "unat ?nj = length (js_joins s)" "unat ?np = length (js_prunes s)" "js_masklen s \<le> 32"
    using ok by (simp_all add: jp_set_ok_def unat_of_nat16)
  have d0: "drop p msg = eaddr_bytes (js_group s) (js_masklen s) 0 @ be16b ?nj @ be16b ?np @ concat (map src_bytes ?ss) @ rest"
    using d by (simp add: set_bytes_def)
  have d1: "drop (p + 8) msg = be16b ?nj @ be16b ?np @ concat (map src_bytes ?ss) @ rest" using drop_step [OF d0] by simp
  have d2: "drop (p + 10) msg = be16b ?np @ concat (map src_bytes ?ss) @ rest" using drop_step [OF d1] by (simp add: ac_simps)
  have d3: "drop (p + 12) msg = concat (map src_bytes ?ss) @ rest" using drop_step [OF d2] by (simp add: ac_simps)
  have h: "get_hostshort msg (p + 8) = Some (?nj, p + 10)" "get_hostshort msg (p + 10) = Some (?np, p + 12)"
    using get_hostshort_at [OF d1] get_hostshort_at [OF d2] by (simp_all add: ac_simps)
  have "pim_parse_jp_set msg \<lparr>c_p = p, c_left = left\<rparr> jp =
      Some (PIM_JP_OK, \<lparr>c_p = p + length (set_bytes s), c_left = length rest\<rparr>,
        \<lparr>c_p = p + 12, c_left = 8 * length ?ss\<rparr>, jp)"
    using eaddr_rd [OF d0] h n left
    by (simp add: pim_parse_jp_set_def pim_jp_grp_set_len_def cursor_step_def not_less algebra_simps Let_def del: map_append)
  then show "\<exists>c. pim_parse_jp_set msg \<lparr>c_p = p, c_left = left\<rparr> jp =
      Some (PIM_JP_OK, \<lparr>c_p = p + length (set_bytes s), c_left = length rest\<rparr>, c, jp) \<and>
      pim_parse_jp_srcs msg (c_p c) (c_left c) jp = Some (PIM_JP_OK, jp)"
    using srcs_parse [OF d3, of jp] by simp
  define g where "g = \<lparr>jpg_group = js_group s AND masklen_to_mask (unat (js_masklen s)), jpg_masklen = js_masklen s,
    jpg_num_j = ?nj, jpg_num_p = ?np, jpg_srcs = p + 12\<rparr>"
  have "pim_jp_group msg p = Some (p + length (set_bytes s), g)"
    using get_egaddr_at [OF d0] h n by (simp add: pim_jp_group_def g_def algebra_simps)
  moreover have "jp_set_read msg s g"
    using src_at [OF d3] n
    by (auto simp: jp_set_read_def g_def pim_jp_source_def case_prod_beta simp del: map_append intro!: nth_equalityI)
  ultimately show "\<exists>g. pim_jp_group msg p = Some (p + length (set_bytes s), g) \<and> jp_set_read msg s g" by blast
qed

lemma sets_at:
  "drop p msg = concat (map set_bytes sets) \<Longrightarrow> list_all jp_set_ok sets \<Longrightarrow>
     pim_parse_jp_sets msg (length sets) \<lparr>c_p = p, c_left = length (concat (map set_bytes sets))\<rparr> jp = Some (PIM_JP_OK, jp) \<and>
     (\<exists>gs. jp_groups_at msg p (length sets) = Some gs \<and> list_all2 (jp_set_read msg) sets gs)"
proof (induction sets arbitrary: p)
  case (Cons s sets)
  let ?rest = "concat (map set_bytes sets)"
  have d: "drop p msg = set_bytes s @ ?rest" and ok: "jp_set_ok s" using Cons.prems by simp_all
  have d': "drop (p + length (set_bytes s)) msg = ?rest" using drop_step [OF d] .
  obtain c where c: "pim_parse_jp_set msg \<lparr>c_p = p, c_left = length (set_bytes s @ ?rest)\<rparr> jp =
      Some (PIM_JP_OK, \<lparr>c_p = p + length (set_bytes s), c_left = length ?rest\<rparr>, c, jp)"
    "pim_parse_jp_srcs msg (c_p c) (c_left c) jp = Some (PIM_JP_OK, jp)"
    using set_at(1) [OF d ok refl] by blast
  obtain g where g: "pim_jp_group msg p = Some (p + length (set_bytes s), g)" "jp_set_read msg s g"
    using set_at(2) [OF d ok refl] by blast
  have IH: "pim_parse_jp_sets msg (length sets) \<lparr>c_p = p + length (set_bytes s), c_left = length ?rest\<rparr> jp = Some (PIM_JP_OK, jp)"
    "\<exists>gs. jp_groups_at msg (p + length (set_bytes s)) (length sets) = Some gs \<and> list_all2 (jp_set_read msg) sets gs"
    using Cons.IH [OF d'] Cons.prems(2) by simp_all
  have "pim_parse_jp_sets msg (length (s # sets)) \<lparr>c_p = p, c_left = length (concat (map set_bytes (s # sets)))\<rparr> jp = Some (PIM_JP_OK, jp)"
    using c IH(1) by (simp del: length_set length_append)
  moreover have "\<exists>gs. jp_groups_at msg p (length (s # sets)) = Some gs \<and> list_all2 (jp_set_read msg) (s # sets) gs"
    using g IH(2) by (auto simp del: length_set)
  ultimately show ?case by blast
qed simp

lemma puts_room_from:
  assumes "writer_inv 0 cap orig w" "\<not> w_full w" "length (concat cs) \<le> w_left w"
  shows "\<exists>w'. puts pim_put w cs = Some w' \<and> writer_inv 0 cap orig w' \<and> \<not> w_full w' \<and>
    written 0 w' = written 0 w @ concat cs \<and> w_left w' = w_left w - length (concat cs) \<and> w_p w' = w_p w + length (concat cs)"
proof -
  obtain w' where w': "puts pim_put w cs = Some w'" "writer_inv 0 cap orig w'" "\<not> w_full w'"
    "written 0 w' = written 0 w @ concat cs" "w_left w' = w_left w - length (concat cs)"
    using ws.puts_fit [OF assms] by blast
  moreover have "w_p w' = w_p w + length (concat cs)" using assms(1,3) w'(2,5) unfolding writer_inv_def by auto
  ultimately show ?thesis by blast
qed

definition set_chunks :: "jp_set \<Rightarrow> bytes list" where
  "set_chunks s = [eaddr_bytes (js_group s) (js_masklen s) 0, be16b (of_nat (length (js_joins s))),
     be16b (of_nat (length (js_prunes s))), concat (map src_bytes (js_joins s)), concat (map src_bytes (js_prunes s))]"

lemma concat_set_chunks [simp]: "concat (set_chunks s) = set_bytes s"
  by (simp add: set_chunks_def set_bytes_def)

lemma concat_sets_chunks [simp]: "concat (concat (map set_chunks sets)) = concat (map set_bytes sets)"
  by (induction sets) simp_all

lemma jp_put_sets_chunks: "jp_put_sets w sets = puts pim_put w (concat (map set_chunks sets))"
proof (induction sets arbitrary: w)
  case (Cons s sets)
  then show ?case by (simp add: jp_group_chunks puts_append set_chunks_def del: puts.simps) (simp add: split_def)
qed simp

lemma jp_put_message_written:
  assumes "10 + length (concat (map set_bytes sets)) \<le> length mem"
  shows "\<exists>w. jp_put_message (pim_writer_init mem 0 (length mem)) up ht sets = Some (7, w) \<and> \<not> w_full w \<and>
    written 0 w = euaddr_bytes up @ [0, 0] @ be16b ht @ concat (map set_bytes sets)"
proof -
  let ?w = "pim_writer_init mem 0 (length mem)"
  have w: "\<not> w_full ?w" "w_left ?w = length mem" "written 0 ?w = []" "w_p ?w = 0"
    by (simp_all add: pim_writer_init_def written_def)
  obtain w1 where w1: "puts pim_put ?w [euaddr_bytes up, [0]] = Some w1" "writer_inv 0 (length mem) mem w1" "\<not> w_full w1"
    "written 0 w1 = euaddr_bytes up @ [0]" "w_left w1 = length mem - 7" "w_p w1 = 7"
    using puts_room_from [OF init_inv w(1), of "[euaddr_bytes up, [0]]"] assms w by auto
  have "length (concat [[0], be16b ht]) \<le> w_left w1" using assms w1(5) by simp
  then obtain w2 where w2: "puts pim_put w1 [[0], be16b ht] = Some w2" "writer_inv 0 (length mem) mem w2" "\<not> w_full w2"
    "written 0 w2 = euaddr_bytes up @ [0, 0] @ be16b ht" "w_left w2 = length mem - 10"
    using puts_room_from [OF w1(2,3), of "[[0], be16b ht]"] assms w1 by auto
  have "length (concat (concat (map set_chunks sets))) \<le> w_left w2" using assms w2(5) by simp
  then obtain w3 where w3: "puts pim_put w2 (concat (map set_chunks sets)) = Some w3" "\<not> w_full w3"
    "written 0 w3 = written 0 w2 @ concat (map set_bytes sets)"
    using puts_room_from [OF w2(2,3), of "concat (map set_chunks sets)"] assms w2(5) by auto
  show ?thesis
    using w1(1,6) w2(1) w2(4) w3 by (simp add: jp_put_message_def jp_hdr_chunks jp_put_sets_chunks del: puts.simps)
qed

lemma jp_roundtrip:
  assumes hdr: "length hdr = 4" and sets: "sets \<noteq> []" "length sets < 256" "list_all jp_set_ok sets"
    and room: "10 + length (concat (map set_bytes sets)) \<le> length mem"
  shows "\<exists>ng w. jp_put_message (pim_writer_init mem 0 (length mem)) up ht sets = Some (ng, w) \<and>
    (let msg = hdr @ (written 0 w)[ng := of_nat (length sets)] in
     \<exists>jp p gs. pim_parse_jp msg = Some (PIM_JP_OK, jp) \<and> jp_upstream jp = up \<and> jp_holdtime jp = ht \<and>
       jp_groups jp = Some p \<and> jp_groups_at msg p (unat (jp_num_groups jp)) = Some gs \<and>
       list_all2 (jp_set_read msg) sets gs)"
proof -
  obtain w where w: "jp_put_message (pim_writer_init mem 0 (length mem)) up ht sets = Some (7, w)"
    "written 0 w = euaddr_bytes up @ [0, 0] @ be16b ht @ concat (map set_bytes sets)"
    using jp_put_message_written [OF room] by blast
  define n :: u8 where "n = of_nat (length sets)"
  define msg where "msg = hdr @ (written 0 w)[7 := n]"
  have n0: "unat n = length sets" using sets by (simp add: n_def unat_of_nat)
  then have n: "unat n = length sets" "n \<noteq> 0" using sets(1) by auto
  have d0: "drop 4 msg = euaddr_bytes up @ [0] @ [n] @ be16b ht @ concat (map set_bytes sets)"
    using hdr by (simp add: msg_def w(2) list_update_append)
  have d1: "drop (4 + 6) msg = [0] @ [n] @ be16b ht @ concat (map set_bytes sets)" using drop_step [OF d0] by simp
  have d2: "drop 11 msg = [n] @ be16b ht @ concat (map set_bytes sets)" using drop_step [OF d1] by simp
  have d3: "drop 12 msg = be16b ht @ concat (map set_bytes sets)" using drop_step [OF d2] by simp
  have d4: "drop 14 msg = concat (map set_bytes sets)" using drop_step [OF d3] by simp
  have len: "length msg = 14 + length (concat (map set_bytes sets))"
    using hdr by (simp add: msg_def w(2))
  define jp where "jp = jp_zero\<lparr>jp_num_groups := n, jp_holdtime := ht, jp_upstream := up, jp_groups := Some 14\<rparr>"
  have "pim_parse_jp_hdr msg \<lparr>c_p = 0, c_left = 0\<rparr> jp_zero =
      Some (PIM_JP_OK, \<lparr>c_p = 14, c_left = length (concat (map set_bytes sets))\<rparr>, jp)"
    using get_euaddr_at [OF d0] get_byte_at [OF d2] get_hostshort_at [OF d3] len n
    by (simp add: pim_parse_jp_hdr_def pim_join_prune_minlen_def jp_def)
  then have parse: "pim_parse_jp msg = Some (PIM_JP_OK, jp)"
    using sets_at [OF d4 sets(3), of jp] n by (simp add: pim_parse_jp_def jp_def)
  obtain gs where gs: "jp_groups_at msg 14 (length sets) = Some gs" "list_all2 (jp_set_read msg) sets gs"
    using sets_at [OF d4 sets(3), of jp] by blast
  have "jp_upstream jp = up" "jp_holdtime jp = ht" "jp_groups jp = Some 14" "unat (jp_num_groups jp) = length sets"
    using n by (simp_all add: jp_def)
  then show ?thesis
    using w(1) parse gs unfolding Let_def by (intro exI [of _ 7] exI [of _ w]) (auto simp: msg_def n_def)
qed


section \<open>Bootstrap\<close>

text \<open>
  A Bootstrap message as \<open>create_pim_bootstrap_message\<close> builds it: the header, then for every group
  range the range with its RP counts and the RP records, here as many as the counts say.
\<close>

record bsr_set =
  bs_group :: u32
  bs_masklen :: u8
  bs_rps :: "pim_bsr_rp_t list"

definition rp_bytes :: "pim_bsr_rp_t \<Rightarrow> bytes" where
  "rp_bytes r = euaddr_bytes (br_addr r) @ be16b (br_holdtime r) @ [br_priority r, 0]"

definition bsr_set_bytes :: "bsr_set \<Rightarrow> bytes" where
  "bsr_set_bytes s = eaddr_bytes (bs_group s) (bs_masklen s) 0 @
     [of_nat (length (bs_rps s)), of_nat (length (bs_rps s))] @ be16b 0 @ concat (map rp_bytes (bs_rps s))"

fun bsr_put_rps :: "pim_writer \<Rightarrow> pim_bsr_rp_t list \<Rightarrow> pim_writer option" where
  "bsr_put_rps w [] = Some w"
| "bsr_put_rps w (r # rs) = do {
     (_, w) \<leftarrow> pim_encode_bsr_rp w (br_addr r) (br_holdtime r) (br_priority r);
     bsr_put_rps w rs }"

fun bsr_put_sets :: "pim_writer \<Rightarrow> bsr_set list \<Rightarrow> pim_writer option" where
  "bsr_put_sets w [] = Some w"
| "bsr_put_sets w (s # ss) = do {
     (_, w) \<leftarrow> pim_encode_bsr_group w (bs_group s) (bs_masklen s) (of_nat (length (bs_rps s))) (of_nat (length (bs_rps s)));
     w \<leftarrow> bsr_put_rps w (bs_rps s);
     bsr_put_sets w ss }"

definition bsr_put_message :: "pim_writer \<Rightarrow> u16 \<Rightarrow> u8 \<Rightarrow> u8 \<Rightarrow> u32 \<Rightarrow> bsr_set list \<Rightarrow> pim_writer option" where
  "bsr_put_message w tag hm prio bsr sets = do {
     (_, w) \<leftarrow> pim_encode_bsr_hdr w tag hm prio bsr;
     bsr_put_sets w sets }"

definition bsr_set_ok :: "bsr_set \<Rightarrow> bool" where
  "bsr_set_ok s \<longleftrightarrow> bs_masklen s \<le> 32 \<and> bs_rps s \<noteq> [] \<and> length (bs_rps s) < 256"

definition bsr_set_read :: "bytes \<Rightarrow> bsr_set \<Rightarrow> pim_bsr_grp \<Rightarrow> bool" where
  "bsr_set_read msg s g \<longleftrightarrow>
     bg_grp g = \<lparr>ega_addr_family = 1, ega_encod_type = 0, ega_reserved = 0, ega_masklen = bs_masklen s,
       ega_mcast_addr = bs_group s AND masklen_to_mask (unat (bs_masklen s))\<rparr> \<and>
     unat (bg_rp_count g) = length (bs_rps s) \<and> unat (bg_frag_rp_count g) = length (bs_rps s) \<and>
     map (pim_bsr_rp msg g) [0 ..< length (bs_rps s)] = map Some (bs_rps s)"

lemma length_rps [simp]: "length (concat (map rp_bytes rs)) = 10 * length rs"
  by (induction rs) (simp_all add: rp_bytes_def)

lemma length_bsr_set [simp]: "length (bsr_set_bytes s) = 12 + 10 * length (bs_rps s)"
  by (simp add: bsr_set_bytes_def)

lemma rp_at:
  "drop p msg = concat (map rp_bytes rs) @ rest \<Longrightarrow> i < length rs \<Longrightarrow> bg_rps g = p \<Longrightarrow>
     pim_bsr_rp msg g i = Some (rs ! i)"
proof (induction rs arbitrary: p i g)
  case (Cons r rs)
  have d0: "drop p msg = euaddr_bytes (br_addr r) @ be16b (br_holdtime r) @ [br_priority r] @ [0] @ concat (map rp_bytes rs) @ rest"
    using Cons.prems by (simp add: rp_bytes_def [of r])
  have d1: "drop (p + 6) msg = be16b (br_holdtime r) @ [br_priority r] @ [0] @ concat (map rp_bytes rs) @ rest"
    using drop_step [OF d0] by simp
  have d2: "drop (p + 6 + 2) msg = [br_priority r] @ [0] @ concat (map rp_bytes rs) @ rest" using drop_step [OF d1] by simp
  have d3: "drop (p + 6 + 2 + 1) msg = [0] @ concat (map rp_bytes rs) @ rest" using drop_step [OF d2] by simp
  have d4: "drop (p + 10) msg = concat (map rp_bytes rs) @ rest" using drop_step [OF d3] by (simp add: ac_simps)
  show ?case
  proof (cases i)
    case 0
    then show ?thesis
      using get_euaddr_at [OF d0] get_hostshort_at [OF d1] get_byte_at [OF d2] Cons.prems(3) by (simp add: pim_bsr_rp_def)
  next
    case (Suc j)
    have "pim_bsr_rp msg (g\<lparr>bg_rps := p + 10\<rparr>) j = Some (rs ! j)"
      using Cons.IH [OF d4, of j "g\<lparr>bg_rps := p + 10\<rparr>"] Suc Cons.prems(2) by simp
    then show ?thesis using Suc Cons.prems(3) by (simp add: pim_bsr_rp_def pim_bsr_rp_len_def algebra_simps)
  qed
qed simp

lemma bsr_set_at:
  assumes d: "drop p msg = bsr_set_bytes s @ rest" and ok: "bsr_set_ok s" and left: "left = length (bsr_set_bytes s @ rest)"
  shows "pim_parse_bsr_set msg \<lparr>c_p = p, c_left = left\<rparr> bsr =
      Some (PIM_BSR_OK, \<lparr>c_p = p + length (bsr_set_bytes s), c_left = length rest\<rparr>, bsr)"
    and "\<exists>g. pim_bsr_group msg p = Some (p + length (bsr_set_bytes s), g) \<and> bsr_set_read msg s g"
proof -
  let ?n = "of_nat (length (bs_rps s)) :: u8"
  have n: "unat ?n = length (bs_rps s)" "bs_masklen s \<le> 32" using ok by (simp_all add: bsr_set_ok_def unat_of_nat)
  have d0: "drop p msg = eaddr_bytes (bs_group s) (bs_masklen s) 0 @ [?n] @ [?n] @ be16b 0 @ concat (map rp_bytes (bs_rps s)) @ rest"
    using d by (simp add: bsr_set_bytes_def)
  have d1: "drop (p + 8) msg = [?n] @ [?n] @ be16b 0 @ concat (map rp_bytes (bs_rps s)) @ rest" using drop_step [OF d0] by simp
  have d2: "drop (p + 8 + 1) msg = [?n] @ be16b 0 @ concat (map rp_bytes (bs_rps s)) @ rest" using drop_step [OF d1] by simp
  have d3: "drop (p + 10) msg = be16b 0 @ concat (map rp_bytes (bs_rps s)) @ rest" using drop_step [OF d2] by (simp add: ac_simps)
  have d4: "drop (p + 12) msg = concat (map rp_bytes (bs_rps s)) @ rest" using drop_step [OF d3] by (simp add: ac_simps)
  have "rd msg (p + 8 + 1) = Some ?n" using get_byte_at [OF d2] by (simp add: get_byte_def split: bind_splits)
  then show "pim_parse_bsr_set msg \<lparr>c_p = p, c_left = left\<rparr> bsr =
      Some (PIM_BSR_OK, \<lparr>c_p = p + length (bsr_set_bytes s), c_left = length rest\<rparr>, bsr)"
    using eaddr_rd [OF d0] n left
    by (simp add: pim_parse_bsr_set_def pim_bsr_grp_set_len_def pim_bsr_rp_len_def cursor_step_def not_less algebra_simps Let_def)
  define g where "g = \<lparr>bg_grp = \<lparr>ega_addr_family = 1, ega_encod_type = 0, ega_reserved = 0, ega_masklen = bs_masklen s,
       ega_mcast_addr = bs_group s AND masklen_to_mask (unat (bs_masklen s))\<rparr>,
     bg_rp_count = ?n, bg_frag_rp_count = ?n, bg_rps = p + 12\<rparr>"
  have "pim_bsr_group msg p = Some (p + length (bsr_set_bytes s), g)"
    using get_egaddr_at [OF d0] get_byte_at [OF d1] get_byte_at [OF d2] n
    by (simp add: pim_bsr_group_def g_def pim_bsr_rp_len_def algebra_simps Let_def)
  moreover have "bsr_set_read msg s g"
    using rp_at [OF d4, of _ g] n by (auto simp: bsr_set_read_def g_def intro!: nth_equalityI)
  ultimately show "\<exists>g. pim_bsr_group msg p = Some (p + length (bsr_set_bytes s), g) \<and> bsr_set_read msg s g" by blast
qed

lemma bsr_sets_at:
  "drop p msg = concat (map bsr_set_bytes sets) \<Longrightarrow> list_all bsr_set_ok sets \<Longrightarrow>
     (\<exists>c. pim_bsr_walk msg \<lparr>c_p = p, c_left = length (concat (map bsr_set_bytes sets))\<rparr> bsr =
       Some (PIM_BSR_OK, c, bsr\<lparr>bsr_num_sets := bsr_num_sets bsr + length sets\<rparr>)) \<and>
     (\<exists>gs. bsr_groups_at msg p (length sets) = Some gs \<and> list_all2 (bsr_set_read msg) sets gs)"
proof (induction sets arbitrary: p bsr)
  case Nil
  then show ?case by (simp add: pim_bsr_walk.simps pim_bsr_grp_set_len_def)
next
  case (Cons s sets)
  let ?rest = "concat (map bsr_set_bytes sets)"
  have d: "drop p msg = bsr_set_bytes s @ ?rest" and ok: "bsr_set_ok s" using Cons.prems by simp_all
  have d': "drop (p + length (bsr_set_bytes s)) msg = ?rest" using drop_step [OF d] .
  note st = bsr_set_at(1) [OF d ok refl]
  obtain g where g: "pim_bsr_group msg p = Some (p + length (bsr_set_bytes s), g)" "bsr_set_read msg s g"
    using bsr_set_at(2) [OF d ok refl] by blast
  have big: "pim_bsr_grp_set_len + pim_bsr_rp_len \<le> length (bsr_set_bytes s @ ?rest)"
    using ok by (cases "bs_rps s") (auto simp: bsr_set_ok_def pim_bsr_grp_set_len_def pim_bsr_rp_len_def)
  obtain c where c: "pim_bsr_walk msg \<lparr>c_p = p + length (bsr_set_bytes s), c_left = length ?rest\<rparr> (bsr\<lparr>bsr_num_sets := bsr_num_sets bsr + 1\<rparr>) =
       Some (PIM_BSR_OK, c, bsr\<lparr>bsr_num_sets := bsr_num_sets bsr + 1 + length sets\<rparr>)"
    using Cons.IH [OF d', of "bsr\<lparr>bsr_num_sets := bsr_num_sets bsr + 1\<rparr>"] Cons.prems(2) by auto
  have "pim_bsr_walk msg \<lparr>c_p = p, c_left = length (bsr_set_bytes s @ ?rest)\<rparr> bsr =
      Some (PIM_BSR_OK, c, bsr\<lparr>bsr_num_sets := bsr_num_sets bsr + length (s # sets)\<rparr>)"
    using st c big by (subst pim_bsr_walk.simps) (simp del: length_append length_bsr_set)
  moreover obtain gs where gs: "bsr_groups_at msg (p + length (bsr_set_bytes s)) (length sets) = Some gs"
      "list_all2 (bsr_set_read msg) sets gs"
    using Cons.IH [OF d', of bsr] Cons.prems(2) by (auto simp del: length_bsr_set)
  have "\<exists>gs. bsr_groups_at msg p (length (s # sets)) = Some gs \<and> list_all2 (bsr_set_read msg) (s # sets) gs"
    using g gs by (simp del: length_bsr_set)
  ultimately show ?case by auto
qed

definition rp_chunks :: "pim_bsr_rp_t \<Rightarrow> bytes list" where
  "rp_chunks r = [euaddr_bytes (br_addr r), be16b (br_holdtime r), [br_priority r], [0]]"

definition bsr_set_chunks :: "bsr_set \<Rightarrow> bytes list" where
  "bsr_set_chunks s = [eaddr_bytes (bs_group s) (bs_masklen s) 0, [of_nat (length (bs_rps s))],
     [of_nat (length (bs_rps s))], be16b 0] @ concat (map rp_chunks (bs_rps s))"

lemma concat_rp_chunks [simp]: "concat (concat (map rp_chunks rs)) = concat (map rp_bytes rs)"
  by (induction rs) (simp_all add: rp_chunks_def rp_bytes_def)

lemma concat_bsr_set_chunks [simp]: "concat (concat (map bsr_set_chunks sets)) = concat (map bsr_set_bytes sets)"
  by (induction sets) (simp_all add: bsr_set_chunks_def bsr_set_bytes_def)

lemma bsr_put_rps_chunks: "bsr_put_rps w rs = puts pim_put w (concat (map rp_chunks rs))"
proof (induction rs arbitrary: w)
  case (Cons r rs)
  then show ?case by (simp add: bsr_rp_chunks puts_append rp_chunks_def del: puts.simps) (simp add: split_def)
qed simp

lemma bsr_put_sets_chunks: "bsr_put_sets w sets = puts pim_put w (concat (map bsr_set_chunks sets))"
proof (induction sets arbitrary: w)
  case (Cons s sets)
  then show ?case
    by (simp add: bsr_group_chunks bsr_put_rps_chunks puts_append bsr_set_chunks_def [of s] del: puts.simps) (simp add: split_def puts_append)
qed simp

lemma bsr_parse_at:
  assumes hdr: "length hdr = 4" and sets: "list_all bsr_set_ok sets" and hm: "hm \<le> 32"
    and msg: "msg = hdr @ be16b tag @ [hm, prio] @ euaddr_bytes addr @ concat (map bsr_set_bytes sets)"
  shows "\<exists>bsr gs. pim_parse_bsr msg = Some (PIM_BSR_OK, bsr) \<and> bsr_frag_tag bsr = tag \<and> bsr_hash_masklen bsr = hm \<and>
     bsr_priority bsr = prio \<and> bsr_bsr bsr = addr \<and> bsr_no_forward bsr = uint (msg ! 1 AND 0x80) \<and> bsr_sets bsr = Some 14 \<and>
     bsr_num_sets bsr = length sets \<and> bsr_groups_at msg 14 (length sets) = Some gs \<and> list_all2 (bsr_set_read msg) sets gs"
proof -
  have d0: "drop 4 msg = be16b tag @ [hm] @ [prio] @ euaddr_bytes addr @ concat (map bsr_set_bytes sets)"
    using hdr by (simp add: msg)
  have d1: "drop 6 msg = [hm] @ [prio] @ euaddr_bytes addr @ concat (map bsr_set_bytes sets)" using drop_step [OF d0] by simp
  have d2: "drop 7 msg = [prio] @ euaddr_bytes addr @ concat (map bsr_set_bytes sets)" using drop_step [OF d1] by simp
  have d3: "drop 8 msg = euaddr_bytes addr @ concat (map bsr_set_bytes sets)" using drop_step [OF d2] by simp
  have d4: "drop 14 msg = concat (map bsr_set_bytes sets)" using drop_step [OF d3] by simp
  have len: "length msg = 14 + length (concat (map bsr_set_bytes sets))" using hdr by (simp add: msg)
  define bsr where "bsr = bsr_zero\<lparr>bsr_no_forward := uint (msg ! 1 AND 0x80), bsr_frag_tag := tag, bsr_hash_masklen := hm,
    bsr_priority := prio, bsr_bsr := addr, bsr_sets := Some 14\<rparr>"
  have "pim_parse_bsr_hdr msg \<lparr>c_p = 0, c_left = 0\<rparr> bsr_zero =
      Some (PIM_BSR_OK, \<lparr>c_p = 14, c_left = length (concat (map bsr_set_bytes sets))\<rparr>, bsr)"
    using get_hostshort_at [OF d0] get_byte_at [OF d1] get_byte_at [OF d2] get_euaddr_at [OF d3] len hm
    by (simp add: pim_parse_bsr_hdr_def pim_bootstrap_minlen_def bsr_def not_less Let_def)
  then have "pim_parse_bsr msg = Some (PIM_BSR_OK, bsr\<lparr>bsr_num_sets := length sets\<rparr>)"
    using bsr_sets_at [OF d4 sets, of bsr] by (auto simp: pim_parse_bsr_def bsr_def bsr_zero_def)
  moreover obtain gs where "bsr_groups_at msg 14 (length sets) = Some gs" "list_all2 (bsr_set_read msg) sets gs"
    using bsr_sets_at [OF d4 sets, of bsr] by blast
  ultimately show ?thesis by (auto simp: bsr_def)
qed

lemma bsr_roundtrip:
  assumes hdr: "length hdr = 4" and sets: "list_all bsr_set_ok sets" and hm: "hm \<le> 32"
    and room: "10 + length (concat (map bsr_set_bytes sets)) \<le> length mem"
  shows "\<exists>w. bsr_put_message (pim_writer_init mem 0 (length mem)) tag hm prio addr sets = Some w \<and>
    (let msg = hdr @ written 0 w in
     \<exists>bsr p gs. pim_parse_bsr msg = Some (PIM_BSR_OK, bsr) \<and> bsr_frag_tag bsr = tag \<and> bsr_hash_masklen bsr = hm \<and>
       bsr_priority bsr = prio \<and> bsr_bsr bsr = addr \<and> bsr_sets bsr = Some p \<and> bsr_num_sets bsr = length sets \<and>
       bsr_groups_at msg p (length sets) = Some gs \<and> list_all2 (bsr_set_read msg) sets gs)"
proof -
  let ?cs = "[be16b tag, [hm], [prio], euaddr_bytes addr] @ concat (map bsr_set_chunks sets)"
  obtain w where w: "puts pim_put (pim_writer_init mem 0 (length mem)) ?cs = Some w" "written 0 w = concat ?cs"
    using puts_room [of ?cs mem] room by auto
  have put: "bsr_put_message (pim_writer_init mem 0 (length mem)) tag hm prio addr sets = Some w"
    using w(1) by (simp add: bsr_put_message_def bsr_hdr_chunks bsr_put_sets_chunks puts_append del: puts.simps) (simp add: split_def)
  show ?thesis
    unfolding Let_def using put bsr_parse_at [OF hdr sets hm, of "hdr @ written 0 w" tag prio addr] w(2)
    by (intro exI [of _ w]) auto
qed


section \<open>Properties\<close>



text \<open>
  C3: A Bootstrap built from an RP set parses, and says what it was built from: the fragment tag, the
  hash mask length, the priority and the address of the BSR, and in order every group range with all
  its RPs, their holdtimes and priorities.
\<close>
theorem bootstrap_roundtrip:
  assumes "length hdr = 4" "list_all bsr_set_ok sets" "hm \<le> 32"
    and "10 + length (concat (map bsr_set_bytes sets)) \<le> length mem"
  shows "\<exists>w. bsr_put_message (pim_writer_init mem 0 (length mem)) tag hm prio addr sets = Some w \<and>
    (let msg = hdr @ written 0 w in
     \<exists>bsr p gs. pim_parse_bsr msg = Some (PIM_BSR_OK, bsr) \<and> bsr_frag_tag bsr = tag \<and> bsr_hash_masklen bsr = hm \<and>
       bsr_priority bsr = prio \<and> bsr_bsr bsr = addr \<and> bsr_sets bsr = Some p \<and> bsr_num_sets bsr = length sets \<and>
       bsr_groups_at msg p (length sets) = Some gs \<and> list_all2 (bsr_set_read msg) sets gs)"
  by (rule bsr_roundtrip) (use assms in auto)

theorem bootstrap_roundtrip_witness:
  "\<exists>w. bsr_put_message (pim_writer_init (replicate 64 0) 0 (length (replicate 64 (0 :: u8)))) 7 30 1 2
      [\<lparr>bs_group = 239, bs_masklen = 8, bs_rps = [\<lparr>br_addr = 3, br_holdtime = 150, br_priority = 0\<rparr>]\<rparr>] = Some w \<and>
    (let msg = [0x24, 0, 0, 0] @ written 0 w in
     \<exists>bsr p gs. pim_parse_bsr msg = Some (PIM_BSR_OK, bsr) \<and> bsr_frag_tag bsr = 7 \<and> bsr_hash_masklen bsr = 30 \<and>
       bsr_priority bsr = 1 \<and> bsr_bsr bsr = 2 \<and> bsr_sets bsr = Some p \<and> bsr_num_sets bsr =
         length [\<lparr>bs_group = 239, bs_masklen = 8, bs_rps = [\<lparr>br_addr = 3, br_holdtime = 150, br_priority = 0\<rparr>]\<rparr>] \<and>
       bsr_groups_at msg p (length [\<lparr>bs_group = 239, bs_masklen = 8, bs_rps = [\<lparr>br_addr = 3, br_holdtime = 150, br_priority = 0\<rparr>]\<rparr>]) = Some gs \<and>
       list_all2 (bsr_set_read msg) [\<lparr>bs_group = 239, bs_masklen = 8, bs_rps = [\<lparr>br_addr = 3, br_holdtime = 150, br_priority = 0\<rparr>]\<rparr>] gs)"
  by (rule bootstrap_roundtrip) (simp_all add: bsr_set_ok_def)

text \<open>
  C35: An Assert and a Register-Stop built for a source and a group parse to that source and that
  group, the Assert with its preference, the RPT bit included, and its metric.
\<close>
theorem assert_register_stop_roundtrip:
  assumes "length hdr = 4" "22 \<le> length mem"
  shows "(\<exists>w. pim_encode_assert (pim_writer_init mem 0 (length mem)) g s pref metric = Some (True, w) \<and>
      pim_parse_assert (hdr @ written 0 w) =
        Some (PIM_SG_OK, \<lparr>sg_group = g, sg_source = s, sg_preference = pref, sg_metric = metric\<rparr>)) \<and>
    (\<exists>w. pim_encode_register_stop (pim_writer_init mem 0 (length mem)) g s = Some (True, w) \<and>
      pim_parse_register_stop (hdr @ written 0 w) =
        Some (PIM_SG_OK, \<lparr>sg_group = g, sg_source = s, sg_preference = 0, sg_metric = 0\<rparr>))"
  using assert_roundtrip [OF assms] register_stop_roundtrip [OF assms(1), of mem] assms(2) by simp

theorem assert_register_stop_roundtrip_witness:
  "\<exists>w. pim_encode_assert (pim_writer_init (replicate 22 0) 0 22) 1 2 0x80000065 7 = Some (True, w) \<and>
      pim_parse_assert ([0x25, 0, 0, 0] @ written 0 w) =
        Some (PIM_SG_OK, \<lparr>sg_group = 1, sg_source = 2, sg_preference = 0x80000065, sg_metric = 7\<rparr>)"
  using assert_register_stop_roundtrip [of "[0x25, 0, 0, 0]" "replicate 22 0" 1 2 "0x80000065" 7] by auto

end
