(* ===== verification/Ranges.thy ===== *)
theory Ranges
  imports Inet
begin

text \<open>
  The lists of prefixes the daemon is configured with or learns, and the questions asked of them: the
  SSM ranges and the accept lists of \<^verbatim>\<open>src/config.c\<close>, and the accept list and the mappings of
  \<^verbatim>\<open>src/autorp.c\<close>.  A list is the Isabelle list of its entries, the head first.  \<open>mem\<close> says whether
  \<open>calloc\<close> finds memory.  The flags that let a refusal be logged once are not modelled.
\<close>


section \<open>Prefixes\<close>

record prefix_acl =
  pa_addr :: u32
  pa_mask :: u32
  pa_masklen :: nat

text \<open>\<open>VAL_TO_MASK\<close>; the callers bound the length to 1 to 32, below which the shift is undefined.\<close>

definition val_to_mask :: "nat \<Rightarrow> u32" where
  "val_to_mask i = htonl (NOT (push_bit (32 - i) 1 - 1))"

definition pim_group_prefix_min_masklen :: nat where
  "pim_group_prefix_min_masklen = 4"

definition add_ssm_range :: "bool \<Rightarrow> u32 \<Rightarrow> nat \<Rightarrow> prefix_acl list \<Rightarrow> bool \<times> prefix_acl list" where
  "add_ssm_range mem grp masklen ssm_list =
     (if masklen < pim_group_prefix_min_masklen \<or> 32 < masklen then (False, ssm_list)
      else if 255 \<le> length ssm_list then (False, ssm_list)
      else if \<not> mem then (False, ssm_list)
      else let m = val_to_mask masklen in
        (True, \<lparr>pa_addr = grp AND m, pa_mask = m, pa_masklen = masklen\<rparr> # ssm_list))"

definition default_ssm_range :: "prefix_acl list \<Rightarrow> prefix_acl list" where
  "default_ssm_range ssm_list =
     (if ssm_list = [] then snd (add_ssm_range True (htonl 0xe8000000) 8 ssm_list) else ssm_list)"

definition is_ssm_group :: "prefix_acl list \<Rightarrow> u32 \<Rightarrow> bool" where
  "is_ssm_group ssm_list grp =
     list_ex (\<lambda>range. grp AND pa_mask range = pa_addr range) (default_ssm_range ssm_list)"

definition add_crp_acl :: "bool \<Rightarrow> u32 \<Rightarrow> nat \<Rightarrow> prefix_acl list \<Rightarrow> bool \<times> prefix_acl list" where
  "add_crp_acl mem addr masklen acls =
     (if masklen < 1 \<or> 32 < masklen then (False, acls)
      else if 255 \<le> length acls then (False, acls)
      else if \<not> mem then (False, acls)
      else let m = val_to_mask masklen in
        (True, \<lparr>pa_addr = addr AND m, pa_mask = m, pa_masklen = masklen\<rparr> # acls))"

definition cand_rp_accepted_from :: "prefix_acl list \<Rightarrow> u32 \<Rightarrow> bool" where
  "cand_rp_accepted_from crp_from_list addr =
     (if crp_from_list = [] then True
      else list_ex (\<lambda>acl. addr AND pa_mask acl = pa_addr acl) crp_from_list)"

definition cand_rp_group_accepted :: "prefix_acl list \<Rightarrow> u32 \<Rightarrow> nat \<Rightarrow> bool" where
  "cand_rp_group_accepted crp_group_list grp masklen =
     (if crp_group_list = [] then True
      else list_ex (\<lambda>acl. pa_masklen acl \<le> masklen \<and> grp AND pa_mask acl = pa_addr acl) crp_group_list)"

definition add_reg_acl :: "bool \<Rightarrow> u32 \<Rightarrow> nat \<Rightarrow> prefix_acl list \<Rightarrow> bool \<times> prefix_acl list" where
  "add_reg_acl mem addr masklen acls =
     (if masklen < 1 \<or> 32 < masklen then (False, acls)
      else if 255 \<le> length acls then (False, acls)
      else if \<not> mem then (False, acls)
      else let m = val_to_mask masklen in
        (True, \<lparr>pa_addr = addr AND m, pa_mask = m, pa_masklen = masklen\<rparr> # acls))"

definition register_accepted_from :: "prefix_acl list \<Rightarrow> u32 \<Rightarrow> bool" where
  "register_accepted_from reg_acl_list addr =
     (if reg_acl_list = [] then True
      else list_ex (\<lambda>acl. addr AND pa_mask acl = pa_addr acl) reg_acl_list)"

definition autorp_accepted_from :: "prefix_acl list \<Rightarrow> u32 \<Rightarrow> bool" where
  "autorp_accepted_from autorp_acl_list from_addr =
     (if autorp_acl_list = [] then True
      else list_ex (\<lambda>acl. from_addr AND pa_mask acl = pa_addr acl) autorp_acl_list)"


section \<open>Auto-RP mappings\<close>

record autorp_map =
  am_rp_addr :: u32
  am_group_addr :: u32
  am_group_mask :: u32
  am_masklen :: u8
  am_negative :: bool
  am_holdtime :: u16
  am_origin :: u32

fun autorp_denied_loop :: "u32 \<Rightarrow> int \<Rightarrow> bool \<Rightarrow> autorp_map list \<Rightarrow> bool" where
  "autorp_denied_loop grp best_len denied [] = denied"
| "autorp_denied_loop grp best_len denied (m # maps) =
     (if grp AND am_group_mask m \<noteq> am_group_addr m AND am_group_mask m
      then autorp_denied_loop grp best_len denied maps
      else if uint (am_masklen m) < best_len then autorp_denied_loop grp best_len denied maps
      else if uint (am_masklen m) > best_len
      then autorp_denied_loop grp (uint (am_masklen m)) (am_negative m) maps
      else autorp_denied_loop grp best_len (if am_negative m then True else denied) maps)"

definition autorp_denied :: "autorp_map list \<Rightarrow> u32 \<Rightarrow> bool" where
  "autorp_denied autorp_maps grp = autorp_denied_loop grp (- 1) False autorp_maps"


section \<open>Prefixes as sets of addresses\<close>

text \<open>The addresses that share the first \<open>n\<close> bits with \<open>a\<close>.\<close>

definition prefix_set :: "u32 \<Rightarrow> nat \<Rightarrow> u32 set" where
  "prefix_set a n = {x. \<forall>i. i < 32 \<longrightarrow> 32 - n \<le> i \<longrightarrow> bit (ntohl x) i = bit (ntohl a) i}"

lemma val_to_mask_masklen: "1 \<le> n \<Longrightarrow> n \<le> 32 \<Longrightarrow> val_to_mask n = masklen_to_mask n"
proof -
  assume n: "1 \<le> n" "n \<le> 32"
  have "NOT (push_bit (32 - n) 1 - 1) = (push_bit (32 - n) (- 1) :: u32)"
    by (rule bit_word_eqI) (auto simp: bit_simps mask_eq_exp_minus_1 [symmetric] push_bit_of_1 simp flip: mask_eq_exp_minus_1)
  then show ?thesis using n ntohl_masklen_to_mask [of n] by (simp add: val_to_mask_def ntohl_eq_iff)
qed

lemma and_masklen_eq: "n \<le> 32 \<Longrightarrow> x AND masklen_to_mask n = a AND masklen_to_mask n \<longleftrightarrow> x \<in> prefix_set a n"
proof -
  assume n: "n \<le> 32"
  have "x AND masklen_to_mask n = a AND masklen_to_mask n \<longleftrightarrow>
      ntohl x AND push_bit (32 - n) (- 1) = ntohl a AND push_bit (32 - n) (- 1)"
    using n by (metis ntohl_and ntohl_inject ntohl_masklen_to_mask)
  also have "\<dots> \<longleftrightarrow> x \<in> prefix_set a n"
    by (auto simp: prefix_set_def bit_eq_iff bit_simps)
  finally show ?thesis .
qed

lemma prefix_set_mono: "k \<le> n \<Longrightarrow> prefix_set a n \<subseteq> prefix_set a k"
  by (auto simp: prefix_set_def)

lemma prefix_set_sub:
  assumes "k \<le> 32" "n \<le> 32"
  shows "prefix_set g n \<subseteq> prefix_set a k \<longleftrightarrow> k \<le> n \<and> g \<in> prefix_set a k"
proof
  assume sub: "prefix_set g n \<subseteq> prefix_set a k"
  have g: "g \<in> prefix_set g n" by (simp add: prefix_set_def)
  have "k \<le> n"
  proof (rule ccontr)
    assume "\<not> k \<le> n"
    then have n: "n < k" by simp
    let ?x = "ntohl (ntohl g XOR push_bit (31 - n) 1)"
    have "?x \<in> prefix_set g n" using n assms by (auto simp: prefix_set_def bit_simps)
    then have "?x \<in> prefix_set a k" "g \<in> prefix_set a k" using sub g by auto
    then show False using n assms by (auto simp: prefix_set_def bit_simps dest!: spec [of _ "31 - n"])
  qed
  then show "k \<le> n \<and> g \<in> prefix_set a k" using sub g by auto
next
  assume "k \<le> n \<and> g \<in> prefix_set a k"
  then show "prefix_set g n \<subseteq> prefix_set a k" by (auto simp: prefix_set_def)
qed


section \<open>What the lists answer\<close>

definition acl_ok :: "prefix_acl \<Rightarrow> bool" where
  "acl_ok acl \<longleftrightarrow> pa_masklen acl \<le> 32 \<and> pa_mask acl = masklen_to_mask (pa_masklen acl) \<and>
     pa_addr acl AND pa_mask acl = pa_addr acl"

lemma acl_covers: "acl_ok acl \<Longrightarrow> x AND pa_mask acl = pa_addr acl \<longleftrightarrow> x \<in> prefix_set (pa_addr acl) (pa_masklen acl)"
  using and_masklen_eq [of "pa_masklen acl" x "pa_addr acl"] by (auto simp: acl_ok_def)

lemma acl_group: "acl_ok acl \<Longrightarrow> masklen \<le> 32 \<Longrightarrow>
    pa_masklen acl \<le> masklen \<and> grp AND pa_mask acl = pa_addr acl \<longleftrightarrow>
    prefix_set grp masklen \<subseteq> prefix_set (pa_addr acl) (pa_masklen acl)"
  using prefix_set_sub [of "pa_masklen acl" masklen grp "pa_addr acl"] acl_covers [of acl grp] by (auto simp: acl_ok_def)

lemma add_acls_ok:
  "list_all acl_ok acls \<Longrightarrow> list_all acl_ok (snd (add_ssm_range mem a n acls))"
  "list_all acl_ok acls \<Longrightarrow> list_all acl_ok (snd (add_crp_acl mem a n acls))"
  "list_all acl_ok acls \<Longrightarrow> list_all acl_ok (snd (add_reg_acl mem a n acls))"
  by (auto simp: add_ssm_range_def add_crp_acl_def add_reg_acl_def acl_ok_def val_to_mask_masklen
      pim_group_prefix_min_masklen_def Let_def and.assoc)

lemma default_ssm_ok: "list_all acl_ok ssm \<Longrightarrow> list_all acl_ok (default_ssm_range ssm)"
  using add_acls_ok(1) [of "[]" True "htonl 0xe8000000" 8] by (simp add: default_ssm_range_def)

definition am_covers :: "u32 \<Rightarrow> autorp_map \<Rightarrow> bool" where
  "am_covers grp m \<longleftrightarrow> grp AND am_group_mask m = am_group_addr m AND am_group_mask m"

definition longest :: "u32 \<Rightarrow> int \<Rightarrow> autorp_map list \<Rightarrow> int" where
  "longest g b maps = fold max (map (uint \<circ> am_masklen) (filter (am_covers g) maps)) b"

lemma longest_simps:
  "longest g b [] = b"
  "longest g b (m # maps) = (if am_covers g m then longest g (max (uint (am_masklen m)) b) maps else longest g b maps)"
  by (simp_all add: longest_def)

lemma longest_ge: "b \<le> longest g b maps \<and> (\<forall>m\<in>set maps. am_covers g m \<longrightarrow> uint (am_masklen m) \<le> longest g b maps)"
proof (induction maps arbitrary: b)
  case (Cons m maps)
  have "b \<le> longest g b maps" "uint (am_masklen m) \<le> longest g (max (uint (am_masklen m)) b) maps"
      "b \<le> longest g (max (uint (am_masklen m)) b) maps"
    using Cons.IH [of b] Cons.IH [of "max (uint (am_masklen m)) b"] by linarith+
  then show ?case using Cons.IH by (auto simp: longest_simps)
qed (simp add: longest_simps)

lemma denied_loop_spec:
  "autorp_denied_loop g b d maps \<longleftrightarrow>
     (\<exists>m\<in>set maps. am_covers g m \<and> am_negative m \<and> uint (am_masklen m) = longest g b maps) \<or> d \<and> longest g b maps = b"
proof (induction g b d maps rule: autorp_denied_loop.induct)
  case (2 g b d m maps)
  have ge: "max (uint (am_masklen m)) b \<le> longest g (max (uint (am_masklen m)) b) maps" using longest_ge by blast
  consider "\<not> am_covers g m" | "am_covers g m" "uint (am_masklen m) < b" | "am_covers g m" "uint (am_masklen m) > b"
    | "am_covers g m" "uint (am_masklen m) = b" by linarith
  then show ?case
    by cases (use 2 ge in \<open>auto simp: am_covers_def longest_simps max_def split: if_splits\<close>)
qed (simp add: longest_simps)


lemma longest_is: "longest g b maps = b \<or> (\<exists>m\<in>set maps. am_covers g m \<and> uint (am_masklen m) = longest g b maps)"
proof (induction maps arbitrary: b)
  case (Cons m maps)
  show ?case
  proof (cases "am_covers g m \<and> b < uint (am_masklen m)")
    case True
    then show ?thesis using Cons.IH [of "uint (am_masklen m)"] by (auto simp: longest_simps max_def)
  next
    case False
    then show ?thesis using Cons.IH [of b] by (auto simp: longest_simps max_def)
  qed
qed (simp add: longest_simps)


section \<open>Properties\<close>

text \<open>
  A group is denied by Auto-RP exactly when one of the longest mappings that cover it is a
  negative one: the longest match decides, and of two of the same length the negative one does.
\<close>
theorem autorp_denied_longest:
  "autorp_denied maps g \<longleftrightarrow>
     (\<exists>m. m \<in> set maps \<and> am_covers g m \<and> am_negative m \<and>
        list_all (\<lambda>m'. am_masklen m' \<le> am_masklen m) (filter (am_covers g) maps))"
proof -
  have le: "am_masklen x \<le> am_masklen y \<longleftrightarrow> uint (am_masklen x) \<le> uint (am_masklen y)" for x y
    by (simp add: word_le_def)
  have L: "m \<in> set maps \<Longrightarrow> am_covers g m \<Longrightarrow> uint (am_masklen m) \<le> longest g (- 1) maps" for m
    using longest_ge by blast
  have "autorp_denied maps g \<longleftrightarrow> (\<exists>m\<in>set maps. am_covers g m \<and> am_negative m \<and> uint (am_masklen m) = longest g (- 1) maps)"
    by (simp add: autorp_denied_def denied_loop_spec)
  also have "\<dots> \<longleftrightarrow> (\<exists>m. m \<in> set maps \<and> am_covers g m \<and> am_negative m \<and>
        list_all (\<lambda>m'. am_masklen m' \<le> am_masklen m) (filter (am_covers g) maps))"
  proof -
    have "uint (am_masklen m) = longest g (- 1) maps \<longleftrightarrow> (\<forall>m'\<in>set maps. am_covers g m' \<longrightarrow> am_masklen m' \<le> am_masklen m)"
      if m: "m \<in> set maps" "am_covers g m" for m
    proof
      assume "uint (am_masklen m) = longest g (- 1) maps"
      then show "\<forall>m'\<in>set maps. am_covers g m' \<longrightarrow> am_masklen m' \<le> am_masklen m" using L by (simp add: le)
    next
      assume all: "\<forall>m'\<in>set maps. am_covers g m' \<longrightarrow> am_masklen m' \<le> am_masklen m"
      have "longest g (- 1) maps \<noteq> - 1" using L [OF m] uint_ge_0 [of "am_masklen m"] by linarith
      then obtain m0 where "m0 \<in> set maps" "am_covers g m0" "uint (am_masklen m0) = longest g (- 1) maps"
        using longest_is [of g "- 1" maps] by blast
      then have "longest g (- 1) maps \<le> uint (am_masklen m)" using all le by metis
      then show "uint (am_masklen m) = longest g (- 1) maps" using L [OF m] by linarith
    qed
    then show ?thesis by (auto simp: list_all_iff)
  qed
  finally show ?thesis .
qed

text \<open>
  The accept lists mean what they say, as sets of addresses.  With entries made by the functions
  that add them, a sender is accepted exactly when the list is empty or one of its prefixes contains
  the sender, a group is an SSM group exactly when a range in effect contains it, and a group range is
  accepted exactly when the list is empty or one of its prefixes contains the whole range.
\<close>
theorem accept_lists_contain:
  assumes "list_all acl_ok acls" "masklen \<le> 32"
  shows "(cand_rp_accepted_from acls x \<longleftrightarrow> acls = [] \<or> (\<exists>a\<in>set acls. x \<in> prefix_set (pa_addr a) (pa_masklen a))) \<and>
    (register_accepted_from acls x \<longleftrightarrow> acls = [] \<or> (\<exists>a\<in>set acls. x \<in> prefix_set (pa_addr a) (pa_masklen a))) \<and>
    (is_ssm_group acls x \<longleftrightarrow> (\<exists>a\<in>set (default_ssm_range acls). x \<in> prefix_set (pa_addr a) (pa_masklen a))) \<and>
    (cand_rp_group_accepted acls x masklen \<longleftrightarrow>
       acls = [] \<or> (\<exists>a\<in>set acls. prefix_set x masklen \<subseteq> prefix_set (pa_addr a) (pa_masklen a))) \<and>
    list_all acl_ok (snd (add_crp_acl mem addr n acls)) \<and> list_all acl_ok (snd (add_reg_acl mem addr n acls)) \<and>
    list_all acl_ok (snd (add_ssm_range mem addr n acls))"
proof -
  have ex: "list_ex (\<lambda>a. x AND pa_mask a = pa_addr a) l \<longleftrightarrow> (\<exists>a\<in>set l. x \<in> prefix_set (pa_addr a) (pa_masklen a))"
    if "list_all acl_ok l" for l
    using that acl_covers by (auto simp: list_ex_iff list_all_iff)
  have grp: "list_ex (\<lambda>a. pa_masklen a \<le> masklen \<and> x AND pa_mask a = pa_addr a) acls \<longleftrightarrow>
      (\<exists>a\<in>set acls. prefix_set x masklen \<subseteq> prefix_set (pa_addr a) (pa_masklen a))"
    using assms acl_group [of _ masklen x] by (auto simp: list_ex_iff list_all_iff)
  show ?thesis
    using ex [OF assms(1)] ex [OF default_ssm_ok [OF assms(1)]] grp add_acls_ok [OF assms(1)]
    by (simp add: cand_rp_accepted_from_def register_accepted_from_def is_ssm_group_def cand_rp_group_accepted_def)
qed

theorem accept_lists_contain_witness:
  "cand_rp_group_accepted [\<lparr>pa_addr = 0xef, pa_mask = 0xff, pa_masklen = 8\<rparr>] 0x1ef 16"
proof -
  have ok: "list_all acl_ok [\<lparr>pa_addr = 0xef, pa_mask = 0xff, pa_masklen = 8\<rparr>]" by code_simp
  have "prefix_set 0x1ef 16 \<subseteq> prefix_set 0xef 8"
  proof -
    have "(0x1ef :: u32) AND masklen_to_mask 8 = 0xef AND masklen_to_mask 8" by code_simp
    then have "0x1ef \<in> prefix_set 0xef 8" using and_masklen_eq [of 8 "0x1ef" "0xef"] by simp
    then show ?thesis using prefix_set_sub [of 8 16 "0x1ef" "0xef"] by simp
  qed
  then have "\<exists>a\<in>set [\<lparr>pa_addr = 0xef, pa_mask = 0xff, pa_masklen = 8\<rparr>]. prefix_set 0x1ef 16 \<subseteq> prefix_set (pa_addr a) (pa_masklen a)"
    by simp
  moreover have "(16 :: nat) \<le> 32" by simp
  note accept_lists_contain [OF ok this, of "0x1ef" True 0 0, THEN conjunct2, THEN conjunct2, THEN conjunct2, THEN conjunct1]
  ultimately show ?thesis by (rule iffD2 [OF _ disjI2, rotated])
qed

end
