(* ===== verification/Rp_Set.thy ===== *)
theory Rp_Set
  imports Ranges Election
begin

text \<open>
  The RP set of \<^verbatim>\<open>src/rp.c\<close>: the candidate RPs, the group ranges with the RPs that serve them, the
  choice of the RP for a group, and the groups that hang off the entry they map to.

  The lists of the C are lists here, and the members they hold are in the list itself: a group range
  holds its \<open>rp_grp_entry\<close>s in the order of \<open>grp_rp_next\<close>, an entry the groups of its \<open>grplink\<close> chain,
  and a candidate RP the chain \<open>rp_grp_next\<close> of its entries, each named by its range and its priority.
  A pointer to an entry is the pair of the position of its range and its position in it.  Of the
  routing entries of a group the model keeps whether there is one of a source tree (\<open>rs_sources\<close>),
  which is what decides whether a group survives without an RP; what \<open>remap_grpentry\<close> does to the
  routes themselves is outside it, and so are the route and metric of an RP.  \<open>calloc\<close> finds memory:
  where it does not, \<open>logit\<close> ends the daemon.
\<close>


section \<open>The lists\<close>

record rp_grp_entry =
  re_rp :: u32
  re_holdtime :: u16
  re_autorp_holdtime :: u16
  re_fragment_tag :: u16
  re_priority :: u8
  re_origin :: u8
  re_grplink :: "u32 list"

record grp_mask =
  gm_group_addr :: u32
  gm_group_mask :: u32
  gm_hash_mask :: u32
  gm_fragment_tag :: u16
  gm_group_rp_number :: u8
  gm_grp_rp :: "rp_grp_entry list"

type_synonym rp_key = "u32 \<times> u32 \<times> u8"

record cand_rp =
  cr_address :: u32
  cr_adv_holdtime :: u16
  cr_rp_grp :: "rp_key list"

record rp_lists =
  rl_cand :: "cand_rp list"
  rl_grp :: "grp_mask list"

text \<open>
  The globals of \<^verbatim>\<open>src/rp.c\<close>, with the lists they depend on: \<open>rs_seg\<close> are the segmented lists,
  \<open>rs_norp\<close> is \<open>grp_norp_list\<close>, and \<open>rs_resync\<close> says that \<open>igmp_resync_leaves\<close> has asked for its timer.
\<close>

record rp_state =
  rs_main :: rp_lists
  rs_seg :: rp_lists
  rs_norp :: "u32 list"
  rs_sources :: "u32 list"
  rs_resync :: bool
  rs_ssm :: "prefix_acl list"
  rs_autorp :: "autorp_map list"
  rs_set_entries :: u32
  rs_set_limit :: u32
  curr_bsr_fragment_tag :: u16
  curr_bsr_priority :: u8
  curr_bsr_address :: u32
  curr_bsr_hash_mask :: u32
  pim_bootstrap_timer :: u16
  my_bsr_priority :: u8
  my_bsr_address :: u32
  my_bsr_hash_mask :: u32
  my_bsr_adv_period :: u16
  my_bsr_timeout :: u16
  recommended_rp_holdtime :: u16
  cand_bsr_flag :: bool
  cand_rp_flag :: bool
  my_cand_rp_address :: u32
  my_cand_rp_holdtime :: u16
  my_cand_rp_adv_period :: u16
  pim_cand_rp_adv_timer :: u16
  rp_and_bsr_inited :: bool

definition rp_origin_bsr :: u8 where
  "rp_origin_bsr = 0x01"

definition rp_origin_static :: u8 where
  "rp_origin_static = 0x02"

definition rp_origin_autorp :: u8 where
  "rp_origin_autorp = 0x04"

definition pim_max_rp_per_range :: u8 where
  "pim_max_rp_per_range = 255"

definition pim_min_bootstrap_period :: u16 where
  "pim_min_bootstrap_period = 10"

definition pim_hello_holdtime_forever :: u16 where
  "pim_hello_holdtime_forever = 0xffff"

definition pim_rp_set_limit :: u32 where
  "pim_rp_set_limit = 1024"

text \<open>The globals as the program starts, before \<^verbatim>\<open>pimd.conf\<close> is read.\<close>

definition rp_globals :: rp_state where
  "rp_globals = \<lparr>rs_main = \<lparr>rl_cand = [], rl_grp = []\<rparr>, rs_seg = \<lparr>rl_cand = [], rl_grp = []\<rparr>,
     rs_norp = [], rs_sources = [], rs_resync = False, rs_ssm = [], rs_autorp = [],
     rs_set_entries = 0, rs_set_limit = pim_rp_set_limit, curr_bsr_fragment_tag = 0, curr_bsr_priority = 0,
     curr_bsr_address = 0, curr_bsr_hash_mask = 0, pim_bootstrap_timer = 0, my_bsr_priority = 0,
     my_bsr_address = 0, my_bsr_hash_mask = 0, my_bsr_adv_period = 0, my_bsr_timeout = 0,
     recommended_rp_holdtime = 0, cand_bsr_flag = False, cand_rp_flag = False, my_cand_rp_address = 0,
     my_cand_rp_holdtime = 0, my_cand_rp_adv_period = 0, pim_cand_rp_adv_timer = 0, rp_and_bsr_inited = False\<rparr>"

definition used_lists :: "bool \<Rightarrow> rp_state \<Rightarrow> rp_lists" where
  "used_lists seg st = (if seg then rs_seg st else rs_main st)"

definition put_lists :: "bool \<Rightarrow> rp_lists \<Rightarrow> rp_state \<Rightarrow> rp_state" where
  "put_lists seg l st = (if seg then st\<lparr>rs_seg := l\<rparr> else st\<lparr>rs_main := l\<rparr>)"

definition range_key :: "grp_mask \<Rightarrow> rp_grp_entry \<Rightarrow> rp_key" where
  "range_key m e = (gm_group_addr m, gm_group_mask m, re_priority e)"

definition remove_nth :: "nat \<Rightarrow> 'a list \<Rightarrow> 'a list" where
  "remove_nth i xs = take i xs @ drop (Suc i) xs"


section \<open>The RP of a group\<close>

definition rp_hash_value :: "u32 \<Rightarrow> u32 \<Rightarrow> u32 \<Rightarrow> u32" where
  "rp_hash_value g m c = (1103515245 * ((1103515245 * (g AND m) + 12345) XOR c) + 12345) mod 0x80000000"

record match_acc =
  ma_entry :: "(nat \<times> nat) option"
  ma_priority :: u8
  ma_hash :: u32
  ma_address :: u32
  ma_mask :: u32

fun match_rps :: "u32 \<Rightarrow> grp_mask \<Rightarrow> nat \<Rightarrow> nat \<Rightarrow> rp_grp_entry list \<Rightarrow> match_acc \<Rightarrow> match_acc" where
  "match_rps group_h m n i [] acc = acc"
| "match_rps group_h m n i (e # es) acc =
     (if ma_priority acc < re_priority e then acc
      else
        let addr = ntohl (re_rp e);
            hash = rp_hash_value group_h (ntohl (gm_hash_mask m)) addr
        in if ma_priority acc = re_priority e \<and>
              (hash < ma_hash acc \<or> hash = ma_hash acc \<and> addr < ma_address acc)
           then match_rps group_h m n (Suc i) es acc
           else match_rps group_h m n (Suc i) es
                  \<lparr>ma_entry = Some (n, i), ma_priority = re_priority e, ma_hash = hash, ma_address = addr,
                   ma_mask = gm_group_mask m\<rparr>)"

fun match_ranges :: "u32 \<Rightarrow> nat \<Rightarrow> grp_mask list \<Rightarrow> match_acc \<Rightarrow> match_acc" where
  "match_ranges grp n [] acc = acc"
| "match_ranges grp n (m # ms) acc =
     (if ntohl grp AND ntohl (gm_group_mask m) \<noteq> ntohl (gm_group_mask m AND gm_group_addr m)
      then match_ranges grp (Suc n) ms acc
      else if ma_mask acc > gm_group_mask m then match_ranges grp (Suc n) ms acc
      else
        let acc = (if ma_mask acc < gm_group_mask m
                   then acc\<lparr>ma_priority := 0xff, ma_address := 0, ma_hash := 0\<rparr> else acc)
        in match_ranges grp (Suc n) ms (match_rps (ntohl grp) m n 0 (gm_grp_rp m) acc))"

definition match_init :: match_acc where
  "match_init = \<lparr>ma_entry = None, ma_priority = 0xff, ma_hash = 0, ma_address = 0, ma_mask = 0\<rparr>"

definition rp_grp_match :: "rp_state \<Rightarrow> u32 \<Rightarrow> (nat \<times> nat) option" where
  "rp_grp_match st grp =
     (if is_ssm_group (rs_ssm st) grp then None
      else if rl_grp (rs_main st) = [] then None
      else case ma_entry (match_ranges grp 0 (rl_grp (rs_main st)) match_init) of
        None \<Rightarrow> None
      | Some (n, i) \<Rightarrow>
          (if re_origin (gm_grp_rp (rl_grp (rs_main st) ! n) ! i) AND rp_origin_static = 0 \<and>
              autorp_denied (rs_autorp st) grp
           then None else Some (n, i)))"

definition rp_match :: "rp_state \<Rightarrow> u32 \<Rightarrow> u32 option" where
  "rp_match st grp =
     (case rp_grp_match st grp of
        None \<Rightarrow> None
      | Some (n, i) \<Rightarrow> Some (re_rp (gm_grp_rp (rl_grp (rs_main st) ! n) ! i)))"

fun rp_find :: "u32 \<Rightarrow> cand_rp list \<Rightarrow> cand_rp option" where
  "rp_find rp_address [] = None"
| "rp_find rp_address (c # cs) =
     (if ntohl (cr_address c) > ntohl rp_address then rp_find rp_address cs
      else if cr_address c = rp_address then Some c else None)"


section \<open>The groups of an entry\<close>

definition upd_entries :: "(rp_grp_entry \<Rightarrow> rp_grp_entry) \<Rightarrow> rp_lists \<Rightarrow> rp_lists" where
  "upd_entries f l = l\<lparr>rl_grp := map (\<lambda>m. m\<lparr>gm_grp_rp := map f (gm_grp_rp m)\<rparr>) (rl_grp l)\<rparr>"

definition upd_entry :: "nat \<Rightarrow> nat \<Rightarrow> (rp_grp_entry \<Rightarrow> rp_grp_entry) \<Rightarrow> rp_lists \<Rightarrow> rp_lists" where
  "upd_entry n i f l =
     l\<lparr>rl_grp := (rl_grp l)[n := (rl_grp l ! n)\<lparr>gm_grp_rp := (gm_grp_rp (rl_grp l ! n))[i := f (gm_grp_rp (rl_grp l ! n) ! i)]\<rparr>]\<rparr>"

text \<open>A group is on at most one chain, and \<open>grp_chain_unlink\<close> takes it off that one.\<close>

definition grp_chain_unlink :: "u32 \<Rightarrow> rp_state \<Rightarrow> rp_state" where
  "grp_chain_unlink g st =
     st\<lparr>rs_main := upd_entries (\<lambda>e. e\<lparr>re_grplink := removeAll g (re_grplink e)\<rparr>) (rs_main st),
        rs_norp := removeAll g (rs_norp st)\<rparr>"

definition grp_link :: "u32 \<Rightarrow> nat \<times> nat \<Rightarrow> rp_state \<Rightarrow> rp_state" where
  "grp_link g k st = st\<lparr>rs_main := upd_entry (fst k) (snd k) (\<lambda>e. e\<lparr>re_grplink := g # re_grplink e\<rparr>) (rs_main st)\<rparr>"

definition remap_grpentry :: "u32 \<Rightarrow> rp_state \<Rightarrow> rp_state" where
  "remap_grpentry g st =
     (let st = grp_chain_unlink g st in
      case rp_grp_match st g of
        None \<Rightarrow> if g \<in> set (rs_sources st) then st\<lparr>rs_norp := g # rs_norp st\<rparr> else st
      | Some k \<Rightarrow> grp_link g k st)"

definition entry_at :: "bool \<Rightarrow> nat \<Rightarrow> nat \<Rightarrow> rp_state \<Rightarrow> rp_grp_entry" where
  "entry_at seg n i st = gm_grp_rp (rl_grp (used_lists seg st) ! n) ! i"


section \<open>Removing\<close>

definition update_bootstrap_timer :: "rp_state \<Rightarrow> rp_state" where
  "update_bootstrap_timer st =
     (if cand_bsr_flag st \<and> curr_bsr_address st = my_bsr_address st \<and> pim_bootstrap_timer st > pim_min_bootstrap_period
      then st\<lparr>pim_bootstrap_timer := pim_min_bootstrap_period\<rparr> else st)"

definition rp_chain :: "u32 \<Rightarrow> cand_rp list \<Rightarrow> rp_key list" where
  "rp_chain a cs = (case find (\<lambda>c. cr_address c = a) cs of None \<Rightarrow> [] | Some c \<Rightarrow> cr_rp_grp c)"

definition cand_unlink :: "u32 \<Rightarrow> rp_key \<Rightarrow> cand_rp list \<Rightarrow> cand_rp list" where
  "cand_unlink a k cs = map (\<lambda>c. if cr_address c = a then c\<lparr>cr_rp_grp := removeAll k (cr_rp_grp c)\<rparr> else c) cs"

definition cand_remove :: "u32 \<Rightarrow> cand_rp list \<Rightarrow> cand_rp list" where
  "cand_remove a cs = filter (\<lambda>c. cr_address c \<noteq> a) cs"

text \<open>
  An entry leaves the chain of its RP, and an RP whose chain is empty then goes: \<open>delete_rp_entry\<close> has
  nothing else to do for such an RP.
\<close>

definition release_rp :: "bool \<Rightarrow> u32 \<Rightarrow> rp_key \<Rightarrow> rp_state \<Rightarrow> rp_state" where
  "release_rp seg a k st =
     (let l = used_lists seg st; cs = cand_unlink a k (rl_cand l) in
      put_lists seg (l\<lparr>rl_cand := (if rp_chain a cs = [] then cand_remove a cs else cs)\<rparr>) st)"

definition delete_grp_mask_entry :: "bool \<Rightarrow> nat \<Rightarrow> rp_state \<Rightarrow> rp_state" where
  "delete_grp_mask_entry seg n st =
     (let l = used_lists seg st;
          m = rl_grp l ! n;
          st = put_lists seg (l\<lparr>rl_grp := remove_nth n (rl_grp l)\<rparr>) st;
          st = fold (\<lambda>e st. release_rp seg (re_rp e) (range_key m e) (fold remap_grpentry (re_grplink e) st))
                 (gm_grp_rp m) st
      in if \<not> seg \<and> 0 < rs_set_entries st then st\<lparr>rs_set_entries := rs_set_entries st - 1\<rparr> else st)"

definition put_range :: "bool \<Rightarrow> nat \<Rightarrow> grp_mask \<Rightarrow> rp_state \<Rightarrow> rp_state" where
  "put_range seg n m st =
     (let l = used_lists seg st in put_lists seg (l\<lparr>rl_grp := (rl_grp l)[n := m]\<rparr>) st)"

definition delete_rp_grp_entry :: "bool \<Rightarrow> nat \<Rightarrow> nat \<Rightarrow> rp_state \<Rightarrow> rp_state" where
  "delete_rp_grp_entry seg n i st =
     (let m = rl_grp (used_lists seg st) ! n;
          e = gm_grp_rp m ! i;
          m' = m\<lparr>gm_group_rp_number := gm_group_rp_number m - 1, gm_grp_rp := remove_nth i (gm_grp_rp m)\<rparr>;
          st = put_range seg n m' st;
          st = (if gm_grp_rp m' = [] then delete_grp_mask_entry seg n st else st);
          st = release_rp seg (re_rp e) (range_key m e) st;
          st = fold remap_grpentry (re_grplink e) st
      in update_bootstrap_timer st)"

definition delete_rp_list :: "bool \<Rightarrow> rp_state \<Rightarrow> rp_state" where
  "delete_rp_list seg st = put_lists seg \<lparr>rl_cand = [], rl_grp = []\<rparr> st"

fun find_grp_mask :: "u32 \<Rightarrow> u32 \<Rightarrow> nat \<Rightarrow> grp_mask list \<Rightarrow> nat option" where
  "find_grp_mask group_addr group_mask n [] = None"
| "find_grp_mask group_addr group_mask n (ptr # l) =
     (if ntohl (gm_group_addr ptr AND gm_group_mask ptr) > ntohl (group_addr AND group_mask)
      then find_grp_mask group_addr group_mask (Suc n) l
      else if gm_group_addr ptr = group_addr then
        (if ntohl (gm_group_mask ptr) > ntohl group_mask then find_grp_mask group_addr group_mask (Suc n) l
         else if gm_group_mask ptr = group_mask then Some n
         else None)
      else find_grp_mask group_addr group_mask (Suc n) l)"

text \<open>
  The loop that takes the Bootstrap's part out of a range, from the entry at \<open>i\<close> on with \<open>k\<close> of them
  to come; an entry that is deleted has the next one in its place.
\<close>

fun bsr_withdraw :: "bool \<Rightarrow> nat \<Rightarrow> nat \<Rightarrow> nat \<Rightarrow> rp_state \<Rightarrow> rp_state" where
  "bsr_withdraw seg 0 n i st = st"
| "bsr_withdraw seg (Suc k) n i st =
     (let e = entry_at seg n i st; origin = re_origin e AND NOT rp_origin_bsr in
      if re_origin e AND rp_origin_bsr = 0 then bsr_withdraw seg k n (Suc i) st
      else
        let st = put_lists seg (upd_entry n i (\<lambda>e. e\<lparr>re_origin := origin\<rparr>) (used_lists seg st)) st in
        if origin = 0 then bsr_withdraw seg k n i (delete_rp_grp_entry seg n i st)
        else bsr_withdraw seg k n (Suc i) st)"

definition delete_grp_mask :: "bool \<Rightarrow> u32 \<Rightarrow> u32 \<Rightarrow> rp_state \<Rightarrow> rp_state" where
  "delete_grp_mask seg group_addr group_mask st =
     (case find_grp_mask group_addr group_mask 0 (rl_grp (used_lists seg st)) of
        None \<Rightarrow> st
      | Some n \<Rightarrow>
          let es = gm_grp_rp (rl_grp (used_lists seg st) ! n);
              keep = list_ex (\<lambda>e. re_origin e AND NOT rp_origin_bsr \<noteq> 0) es
          in if \<not> keep then delete_grp_mask_entry seg n st
             else bsr_withdraw seg (length es) n 0 st)"

text \<open>
  \<open>delete_rp_entry\<close> takes an RP off the list, frees its \<open>rpentry\<close>, and then walks the chain of its
  entries.  It reads the next entry of the chain before it deletes the range of the current one, which
  it does when that was the last entry of the range; and it remaps the groups of an entry while the
  later ones of the chain are still in their ranges.  Where the next entry was of the range that is
  gone, or \<open>rp_grp_match\<close> comes to an entry of the RP and reads the address in its \<open>rpentry\<close>, the
  memory has been freed, and the value is \<open>None\<close>.
\<close>

fun rps_read :: "u32 \<Rightarrow> u32 \<Rightarrow> grp_mask \<Rightarrow> nat \<Rightarrow> nat \<Rightarrow> rp_grp_entry list \<Rightarrow> match_acc \<Rightarrow> bool" where
  "rps_read a group_h m n i [] acc = False"
| "rps_read a group_h m n i (e # es) acc =
     (if ma_priority acc < re_priority e then False
      else re_rp e = a \<or> rps_read a group_h m n (Suc i) es (match_rps group_h m n i [e] acc))"

fun ranges_read :: "u32 \<Rightarrow> u32 \<Rightarrow> nat \<Rightarrow> grp_mask list \<Rightarrow> match_acc \<Rightarrow> bool" where
  "ranges_read a grp n [] acc = False"
| "ranges_read a grp n (m # ms) acc =
     (if ntohl grp AND ntohl (gm_group_mask m) \<noteq> ntohl (gm_group_mask m AND gm_group_addr m)
      then ranges_read a grp (Suc n) ms acc
      else if ma_mask acc > gm_group_mask m then ranges_read a grp (Suc n) ms acc
      else
        let acc = (if ma_mask acc < gm_group_mask m
                   then acc\<lparr>ma_priority := 0xff, ma_address := 0, ma_hash := 0\<rparr> else acc)
        in rps_read a (ntohl grp) m n 0 (gm_grp_rp m) acc \<or>
           ranges_read a grp (Suc n) ms (match_rps (ntohl grp) m n 0 (gm_grp_rp m) acc))"

definition match_reads :: "u32 \<Rightarrow> rp_state \<Rightarrow> u32 \<Rightarrow> bool" where
  "match_reads a st grp \<longleftrightarrow>
     \<not> is_ssm_group (rs_ssm st) grp \<and> ranges_read a grp 0 (rl_grp (rs_main st)) match_init"

definition find_entry :: "bool \<Rightarrow> u32 \<Rightarrow> rp_key \<Rightarrow> rp_state \<Rightarrow> (nat \<times> nat) option" where
  "find_entry seg a k st =
     (let ms = rl_grp (used_lists seg st) in
      do { n \<leftarrow> find (\<lambda>n. gm_group_addr (ms ! n) = fst k \<and> gm_group_mask (ms ! n) = fst (snd k)) [0..<length ms];
           i \<leftarrow> find (\<lambda>i. re_priority (gm_grp_rp (ms ! n) ! i) = snd (snd k) \<and> re_rp (gm_grp_rp (ms ! n) ! i) = a)
                  [0..<length (gm_grp_rp (ms ! n))];
           Some (n, i) })"

function delete_rp_loop :: "bool \<Rightarrow> u32 \<Rightarrow> rp_key list \<Rightarrow> rp_state \<Rightarrow> rp_state option" where
  "delete_rp_loop seg a [] st = Some st"
| "delete_rp_loop seg a (k # ks) st = do {
     (n, i) \<leftarrow> find_entry seg a k st;
     let m = rl_grp (used_lists seg st) ! n;
     let e = gm_grp_rp m ! i;
     let was_last = (Suc i = length (gm_grp_rp m));
     let st = put_range seg n (m\<lparr>gm_group_rp_number := gm_group_rp_number m - 1, gm_grp_rp := remove_nth i (gm_grp_rp m)\<rparr>) st;
     let moved = re_grplink e @ (if was_last then concat (map re_grplink (remove_nth i (gm_grp_rp m))) else []);
     let st = (if was_last then delete_grp_mask_entry seg n st else st);
     let st = fold remap_grpentry (re_grplink e) st;
     let freed = (\<lambda>k'. was_last \<and> fst k' = fst k \<and> fst (snd k') = fst (snd k));
     (if list_ex (match_reads a st) moved then None
      else if ks \<noteq> [] \<and> freed (hd ks) then None
      else delete_rp_loop seg a (filter (\<lambda>k'. \<not> freed k') ks) st) }"
  by pat_completeness auto
termination
  by (relation "measure (\<lambda>(seg, a, ks, st). length ks)") (auto simp: less_Suc_eq_le)

definition delete_rp_entry :: "bool \<Rightarrow> cand_rp \<Rightarrow> rp_state \<Rightarrow> rp_state option" where
  "delete_rp_entry seg c st =
     (let l = used_lists seg st in
      delete_rp_loop seg (cr_address c) (cr_rp_grp c)
        (put_lists seg (l\<lparr>rl_cand := cand_remove (cr_address c) (rl_cand l)\<rparr>) st))"

definition delete_rp :: "bool \<Rightarrow> u32 \<Rightarrow> rp_state \<Rightarrow> rp_state option" where
  "delete_rp seg rp_addr st =
     (case rp_find rp_addr (rl_cand (used_lists seg st)) of
        None \<Rightarrow> Some st
      | Some c \<Rightarrow> delete_rp_entry seg c st)"


section \<open>Adding\<close>

fun add_cand_rp :: "u32 \<Rightarrow> cand_rp list \<Rightarrow> cand_rp list" where
  "add_cand_rp address [] = [\<lparr>cr_address = address, cr_adv_holdtime = 0, cr_rp_grp = []\<rparr>]"
| "add_cand_rp address (c # cs) =
     (if ntohl (cr_address c) > ntohl address then c # add_cand_rp address cs
      else if cr_address c = address then c # cs
      else \<lparr>cr_address = address, cr_adv_holdtime = 0, cr_rp_grp = []\<rparr> # c # cs)"

text \<open>
  The search of \<open>add_grp_mask\<close>: the place of the range, and whether the range at that place is the one
  asked for.  There is no way out of the loop at a smaller prefix: the search goes on past it.
\<close>

fun grp_mask_place :: "u32 \<Rightarrow> u32 \<Rightarrow> grp_mask list \<Rightarrow> nat \<times> bool" where
  "grp_mask_place group_addr group_mask [] = (0, False)"
| "grp_mask_place group_addr group_mask (m # l) =
     (if ntohl (gm_group_addr m AND gm_group_mask m) > ntohl (group_addr AND group_mask)
      then apfst Suc (grp_mask_place group_addr group_mask l)
      else if gm_group_addr m AND gm_group_mask m = group_addr AND group_mask then
        (if ntohl (gm_group_mask m) > ntohl group_mask then apfst Suc (grp_mask_place group_addr group_mask l)
         else if gm_group_mask m = group_mask then (0, True)
         else (0, False))
      else apfst Suc (grp_mask_place group_addr group_mask l))"

definition insert_nth :: "nat \<Rightarrow> 'a \<Rightarrow> 'a list \<Rightarrow> 'a list" where
  "insert_nth i x xs = take i xs @ x # drop i xs"

definition add_grp_mask :: "bool \<Rightarrow> u32 \<Rightarrow> u32 \<Rightarrow> u32 \<Rightarrow> rp_state \<Rightarrow> (nat \<times> rp_state) option" where
  "add_grp_mask seg group_addr group_mask hash_mask st =
     (let l = used_lists seg st; (n, found) = grp_mask_place group_addr group_mask (rl_grp l) in
      if found then Some (n, st)
      else if \<not> seg \<and> rs_set_limit st \<le> rs_set_entries st then None
      else
        let m = \<lparr>gm_group_addr = group_addr, gm_group_mask = group_mask, gm_hash_mask = hash_mask,
                 gm_fragment_tag = 0, gm_group_rp_number = 0, gm_grp_rp = []\<rparr>;
            st = (if seg then st else st\<lparr>rs_set_entries := rs_set_entries st + 1\<rparr>)
        in Some (n, put_lists seg (l\<lparr>rl_grp := insert_nth n m (rl_grp l)\<rparr>) st))"

fun rp_grp_place :: "u8 \<Rightarrow> u32 \<Rightarrow> rp_grp_entry list \<Rightarrow> nat \<times> bool" where
  "rp_grp_place rp_priority rp_addr [] = (0, False)"
| "rp_grp_place rp_priority rp_addr (e # es) =
     (if re_priority e < rp_priority then apfst Suc (rp_grp_place rp_priority rp_addr es)
      else if re_priority e > rp_priority then (0, False)
      else if ntohl (re_rp e) > ntohl rp_addr then apfst Suc (rp_grp_place rp_priority rp_addr es)
      else if ntohl (re_rp e) < ntohl rp_addr then (0, False)
      else (0, True))"

definition rp_grp_hold :: "u8 \<Rightarrow> u16 \<Rightarrow> rp_grp_entry \<Rightarrow> rp_grp_entry" where
  "rp_grp_hold origin holdtime e =
     (if origin = rp_origin_autorp then e\<lparr>re_autorp_holdtime := holdtime\<rparr> else e\<lparr>re_holdtime := holdtime\<rparr>)"

definition rp_grp_holdtime :: "rp_grp_entry \<Rightarrow> u16" where
  "rp_grp_holdtime e =
     (if re_origin e AND rp_origin_static \<noteq> 0 then pim_hello_holdtime_forever
      else
        let holdtime = (if re_origin e AND rp_origin_bsr \<noteq> 0 then re_holdtime e else 0) in
        if re_origin e AND rp_origin_autorp \<noteq> 0 \<and> re_autorp_holdtime e > holdtime
        then re_autorp_holdtime e else holdtime)"

definition refresh_entry :: "u8 \<Rightarrow> u16 \<Rightarrow> u16 \<Rightarrow> rp_grp_entry \<Rightarrow> rp_grp_entry" where
  "refresh_entry origin holdtime fragment_tag e =
     (let e = (if origin = rp_origin_static then e\<lparr>re_origin := rp_origin_static, re_holdtime := holdtime\<rparr>
               else if re_origin e AND rp_origin_static = 0
               then rp_grp_hold origin holdtime (e\<lparr>re_origin := re_origin e OR origin\<rparr>) else e)
      in if origin = rp_origin_bsr then e\<lparr>re_fragment_tag := fragment_tag\<rparr> else e)"

text \<open>
  The groups a range that has just gained its first RP takes over.  A chain is walked with its next
  member read first, and remapping a group moves that group only.
\<close>

definition remap_of :: "(u32 \<Rightarrow> bool) \<Rightarrow> nat \<Rightarrow> nat \<Rightarrow> bool \<Rightarrow> rp_state \<Rightarrow> rp_state" where
  "remap_of P n i seg st = fold remap_grpentry (filter P (re_grplink (entry_at seg n i st))) st"

definition remap_covered_groups :: "grp_mask \<Rightarrow> rp_state \<Rightarrow> rp_state" where
  "remap_covered_groups m st =
     (let prefix = gm_group_addr m AND gm_group_mask m in
      fold (\<lambda>n st.
          let ptr = rl_grp (rs_main st) ! n in
          if ntohl (gm_group_mask ptr) \<ge> ntohl (gm_group_mask m) then st
          else if prefix AND gm_group_mask ptr \<noteq> gm_group_addr ptr AND gm_group_mask ptr then st
          else fold (\<lambda>i. remap_of (\<lambda>g. g AND gm_group_mask m = prefix) n i False) [0..<length (gm_grp_rp ptr)] st)
        [0..<length (rl_grp (rs_main st))] st)"

definition remap_norp :: "grp_mask \<Rightarrow> rp_state \<Rightarrow> rp_state" where
  "remap_norp m st =
     fold remap_grpentry
       (filter (\<lambda>g. g AND gm_group_mask m = gm_group_addr m AND gm_group_mask m) (rs_norp st)) st"

definition first_rp :: "bool \<Rightarrow> nat \<Rightarrow> rp_state \<Rightarrow> rp_state" where
  "first_rp seg n st =
     (let m = rl_grp (used_lists seg st) ! n in
      if gm_group_rp_number m = 1 \<and> \<not> seg
      then (remap_norp m (remap_covered_groups m st))\<lparr>rs_resync := True\<rparr> else st)"

definition remap_best :: "bool \<Rightarrow> nat \<Rightarrow> u8 \<Rightarrow> u8 \<Rightarrow> rp_state \<Rightarrow> rp_state" where
  "remap_best seg n rp_priority old_highest_priority st =
     (let es = gm_grp_rp (rl_grp (used_lists seg st) ! n) in
      if re_priority (hd es) = rp_priority
      then fold (\<lambda>i. remap_of (\<lambda>_. True) n i seg)
             [0..<length (takeWhile (\<lambda>e. re_priority e \<le> old_highest_priority) es)] st
      else st)"

definition add_rp_grp_entry_from ::
    "bool \<Rightarrow> u32 \<Rightarrow> u8 \<Rightarrow> u16 \<Rightarrow> u32 \<Rightarrow> u32 \<Rightarrow> u32 \<Rightarrow> u16 \<Rightarrow> u8 \<Rightarrow> rp_state \<Rightarrow> bool \<times> rp_state" where
  "add_rp_grp_entry_from seg rp_addr rp_priority rp_holdtime group_addr group_mask bsr_hash_mask fragment_tag origin st =
     (if \<not> inet_valid_host rp_addr then (False, st)
      else if \<not> in_classd (ntohl group_addr) then (False, st)
      else case add_grp_mask seg group_addr group_mask bsr_hash_mask st of
        None \<Rightarrow> (False, st)
      | Some (n, st) \<Rightarrow>
        let m = rl_grp (used_lists seg st) ! n;
            m = (if origin = rp_origin_bsr then m\<lparr>gm_fragment_tag := fragment_tag\<rparr> else m);
            st = put_range seg n m st;
            old_highest_priority = (case gm_grp_rp m of [] \<Rightarrow> 0xff | e # _ \<Rightarrow> re_priority e);
            (i, found) = rp_grp_place rp_priority rp_addr (gm_grp_rp m)
        in
        if found then
          (True, put_lists seg (upd_entry n i (refresh_entry origin rp_holdtime fragment_tag) (used_lists seg st)) st)
        else if gm_group_rp_number m \<ge> pim_max_rp_per_range then
          (False, if gm_grp_rp m = [] then delete_grp_mask seg group_addr group_mask st else st)
        else
          let e = rp_grp_hold origin rp_holdtime
                    \<lparr>re_rp = rp_addr, re_holdtime = 0, re_autorp_holdtime = 0, re_fragment_tag = fragment_tag,
                     re_priority = rp_priority, re_origin = origin, re_grplink = []\<rparr>;
              m' = m\<lparr>gm_group_rp_number := gm_group_rp_number m + 1, gm_grp_rp := insert_nth i e (gm_grp_rp m)\<rparr>;
              l = used_lists seg st;
              cs = map (\<lambda>c. if cr_address c = rp_addr
                            then c\<lparr>cr_adv_holdtime := rp_holdtime, cr_rp_grp := range_key m e # cr_rp_grp c\<rparr> else c)
                     (add_cand_rp rp_addr (rl_cand l));
              st = put_lists seg (l\<lparr>rl_cand := cs, rl_grp := (rl_grp l)[n := m']\<rparr>) st;
              st = first_rp seg n st;
              st = remap_best seg n rp_priority old_highest_priority st
          in (True, update_bootstrap_timer st))"

definition add_rp_grp_entry ::
    "bool \<Rightarrow> u32 \<Rightarrow> u8 \<Rightarrow> u16 \<Rightarrow> u32 \<Rightarrow> u32 \<Rightarrow> u32 \<Rightarrow> u16 \<Rightarrow> rp_state \<Rightarrow> bool \<times> rp_state" where
  "add_rp_grp_entry seg rp_addr rp_priority rp_holdtime group_addr group_mask bsr_hash_mask fragment_tag =
     add_rp_grp_entry_from seg rp_addr rp_priority rp_holdtime group_addr group_mask bsr_hash_mask fragment_tag
       rp_origin_bsr"

end
