(* ===== verification/Rp_Match.thy ===== *)
theory Rp_Match
  imports Rp_Set "HOL-Library.Product_Lexorder"
begin

text \<open>
  The RP \<open>rp_grp_match\<close> chooses is the one RFC 7761 sec. 4.7.1 asks for: of the ranges that cover the
  group the longest, of its RPs those of the best priority, of these the one with the highest hash
  value, and of equal hash values the highest address.  The loop keeps its best so far and leaves a
  range at the first worse priority, so what it needs of the RP set is stated first.
\<close>


section \<open>Well-formed ranges\<close>

definition range_prefix :: "grp_mask \<Rightarrow> u32" where
  "range_prefix m = gm_group_addr m AND gm_group_mask m"

definition covers :: "u32 \<Rightarrow> grp_mask \<Rightarrow> bool" where
  "covers g m \<longleftrightarrow> g AND gm_group_mask m = range_prefix m"

definition entry_before :: "rp_grp_entry \<Rightarrow> rp_grp_entry \<Rightarrow> bool" where
  "entry_before x y \<longleftrightarrow> re_priority x < re_priority y \<or> re_priority x = re_priority y \<and> ntohl (re_rp y) < ntohl (re_rp x)"

definition range_before :: "grp_mask \<Rightarrow> grp_mask \<Rightarrow> bool" where
  "range_before x y \<longleftrightarrow> (range_prefix x = range_prefix y \<longrightarrow> ntohl (gm_group_mask y) < ntohl (gm_group_mask x))"

definition range_ok :: "grp_mask \<Rightarrow> bool" where
  "range_ok m \<longleftrightarrow> inet_valid_mask (ntohl (gm_group_mask m)) \<and> gm_grp_rp m \<noteq> [] \<and>
     sorted_wrt entry_before (gm_grp_rp m) \<and> unat (gm_group_rp_number m) = length (gm_grp_rp m)"

definition ranges_ok :: "grp_mask list \<Rightarrow> bool" where
  "ranges_ok ms \<longleftrightarrow> sorted_wrt range_before ms \<and> list_all range_ok ms"


section \<open>The rank of a candidate\<close>

type_synonym rank = "nat \<times> nat \<times> nat \<times> nat"

definition rp_rank :: "u32 \<Rightarrow> grp_mask \<Rightarrow> rp_grp_entry \<Rightarrow> rank" where
  "rp_rank g m e = (unat (gm_group_mask m), 255 - unat (re_priority e),
     unat (rp_hash_value (ntohl g) (ntohl (gm_hash_mask m)) (ntohl (re_rp e))), unat (ntohl (re_rp e)))"

definition acc_rank :: "match_acc \<Rightarrow> rank" where
  "acc_rank acc = (unat (ma_mask acc), 255 - unat (ma_priority acc), unat (ma_hash acc), unat (ma_address acc))"

lemma prio_rank:
  "x < y \<longleftrightarrow> 255 - unat y < 255 - unat x" "x = y \<longleftrightarrow> 255 - unat x = 255 - unat y" for x y :: u8
  using unat_le_max8 [of x] unat_le_max8 [of y] by (auto simp: word_less_nat_alt word_unat_eq_iff)

lemma mask_rank: "unat (ma_mask a) < unat (ma_mask b) \<Longrightarrow> acc_rank a < acc_rank b"
  by (simp add: acc_rank_def)

definition chosen :: "grp_mask \<Rightarrow> nat \<Rightarrow> nat \<Rightarrow> u32 \<Rightarrow> rp_grp_entry \<Rightarrow> match_acc" where
  "chosen m n i g e = \<lparr>ma_entry = Some (n, i), ma_priority = re_priority e,
     ma_hash = rp_hash_value (ntohl g) (ntohl (gm_hash_mask m)) (ntohl (re_rp e)), ma_address = ntohl (re_rp e),
     ma_mask = gm_group_mask m\<rparr>"

lemma chosen_rank [simp]: "acc_rank (chosen m n i g e) = rp_rank g m e"
  by (simp add: chosen_def acc_rank_def rp_rank_def)

lemma match_rps_step:
  "match_rps (ntohl g) m n i (e # es) acc =
     (if ma_priority acc < re_priority e then acc
      else if ma_priority acc = re_priority e \<and> (ma_hash (chosen m n i g e) < ma_hash acc \<or>
         ma_hash (chosen m n i g e) = ma_hash acc \<and> ma_address (chosen m n i g e) < ma_address acc)
      then match_rps (ntohl g) m n (Suc i) es acc
      else match_rps (ntohl g) m n (Suc i) es (chosen m n i g e))"
  by (auto simp: chosen_def Let_def)

lemma step_rank:
  assumes "ma_mask acc = gm_group_mask m"
  shows "(ma_priority acc < re_priority e \<or> ma_priority acc = re_priority e \<and> (ma_hash (chosen m n i g e) < ma_hash acc \<or>
         ma_hash (chosen m n i g e) = ma_hash acc \<and> ma_address (chosen m n i g e) < ma_address acc))
    \<longleftrightarrow> rp_rank g m e < acc_rank acc"
proof -
  have h: "x < y \<longleftrightarrow> unat x < unat y" "x = y \<longleftrightarrow> unat x = unat y" for x y :: u32
    by (simp_all add: word_less_nat_alt word_unat_eq_iff)
  show ?thesis
    unfolding acc_rank_def rp_rank_def chosen_def assms prio_rank(1) [of "ma_priority acc"] prio_rank(2) [of "ma_priority acc"]
    using h by (auto simp: less_prod_simp)
qed

definition from_range :: "u32 \<Rightarrow> grp_mask \<Rightarrow> nat \<Rightarrow> nat \<Rightarrow> rp_grp_entry list \<Rightarrow> match_acc \<Rightarrow> bool" where
  "from_range g m n i es r \<longleftrightarrow> (\<exists>k<length es. r = chosen m n (i + k) g (es ! k))"

lemma from_range_Cons:
  "from_range g m n i (e # es) r \<longleftrightarrow> r = chosen m n i g e \<or> from_range g m n (Suc i) es r"
  by (auto simp: from_range_def less_Suc_eq_0_disj)

lemma match_rps_best:
  assumes "sorted_wrt (\<lambda>x y. re_priority x \<le> re_priority y) es" "ma_mask acc = gm_group_mask m"
    and "r = match_rps (ntohl g) m n i es acc"
  shows "ma_mask r = gm_group_mask m \<and> acc_rank acc \<le> acc_rank r \<and> (\<forall>e\<in>set es. rp_rank g m e \<le> acc_rank r) \<and>
    (r = acc \<or> from_range g m n i es r)"
  using assms
proof (induction es arbitrary: i acc)
  case (Cons e es)
  let ?c = "chosen m n i g e"
  have s: "sorted_wrt (\<lambda>x y. re_priority x \<le> re_priority y) es" using Cons.prems(1) by simp
  note step = step_rank [OF Cons.prems(2)]
  consider (stop) "ma_priority acc < re_priority e"
    | (skip) "\<not> ma_priority acc < re_priority e" "rp_rank g m e < acc_rank acc"
    | (take) "\<not> ma_priority acc < re_priority e" "acc_rank acc \<le> rp_rank g m e"
    using not_less by blast
  then show ?case
  proof cases
    case stop
    have "rp_rank g m x \<le> acc_rank acc" if "x \<in> set (e # es)" for x
    proof -
      have "re_priority e \<le> re_priority x" using that Cons.prems(1) by auto
      then have "ma_priority acc < re_priority x" using stop by simp
      then show ?thesis using step [of x n i g] by simp
    qed
    then show ?thesis using stop Cons.prems(2,3) by simp
  next
    case skip
    then have "r = match_rps (ntohl g) m n (Suc i) es acc"
      using step [of e n i g] Cons.prems(3) by (simp only: match_rps_step) auto
    from Cons.IH [OF s Cons.prems(2) this] show ?thesis using skip by (auto simp: from_range_Cons)
  next
    case take
    then have r: "r = match_rps (ntohl g) m n (Suc i) es ?c"
      using step [of e n i g] Cons.prems(3) by (simp only: match_rps_step) auto
    have "ma_mask ?c = gm_group_mask m" by (simp add: chosen_def)
    from Cons.IH [OF s this r] show ?thesis using take by (auto simp: from_range_Cons)
  qed
qed simp

lemma match_rps_first:
  assumes "sorted_wrt (\<lambda>x y. re_priority x \<le> re_priority y) es" "es \<noteq> []"
    and "ma_priority acc = 0xff" "ma_hash acc = 0" "ma_address acc = 0" "r = match_rps (ntohl g) m n i es acc"
  shows "ma_mask r = gm_group_mask m \<and> (\<forall>e\<in>set es. rp_rank g m e \<le> acc_rank r) \<and> from_range g m n i es r"
proof -
  obtain e es' where es: "es = e # es'" using assms(2) by (cases es) auto
  have "re_priority e \<le> 0xff" using unat_le_max8 [of "re_priority e"] by (simp add: word_le_nat_alt)
  then have r: "r = match_rps (ntohl g) m n (Suc i) es' (chosen m n i g e)"
    using assms(3-6) unfolding es match_rps_step by (simp add: not_less)
  have "sorted_wrt (\<lambda>x y. re_priority x \<le> re_priority y) es'" "ma_mask (chosen m n i g e) = gm_group_mask m"
    using assms(1) es by (simp_all add: chosen_def)
  from match_rps_best [OF this r] show ?thesis unfolding es from_range_Cons by auto
qed

text \<open>What the loop has seen: the candidates of the ranges so far that cover the group.\<close>

definition range_cands :: "u32 \<Rightarrow> nat \<Rightarrow> grp_mask \<Rightarrow> match_acc set" where
  "range_cands g n m = (if covers g m then {r. from_range g m n 0 (gm_grp_rp m) r} else {})"

fun all_cands :: "u32 \<Rightarrow> nat \<Rightarrow> grp_mask list \<Rightarrow> match_acc set" where
  "all_cands g n [] = {}"
| "all_cands g n (m # ms) = range_cands g n m \<union> all_cands g (Suc n) ms"

definition acc_best :: "match_acc set \<Rightarrow> match_acc \<Rightarrow> bool" where
  "acc_best C acc \<longleftrightarrow> (if C = {} then acc = match_init else acc \<in> C \<and> (\<forall>c\<in>C. acc_rank c \<le> acc_rank acc))"

lemma acc_bestI: "r \<in> C \<Longrightarrow> (\<And>c. c \<in> C \<Longrightarrow> acc_rank c \<le> acc_rank r) \<Longrightarrow> acc_best C r"
  by (auto simp: acc_best_def)

lemma sorted_prio: "sorted_wrt entry_before es \<Longrightarrow> sorted_wrt (\<lambda>x y. re_priority x \<le> re_priority y) es"
  by (rule sorted_wrt_mono_rel) (auto simp: entry_before_def)

lemma covers_ntohl:
  "ntohl g AND ntohl (gm_group_mask m) \<noteq> ntohl (gm_group_mask m AND gm_group_addr m) \<longleftrightarrow> \<not> covers g m"
  by (metis covers_def range_prefix_def ntohl_and ntohl_inject and.commute)

lemma from_range_rank:
  "from_range g m n i es r \<Longrightarrow> ma_mask r = gm_group_mask m \<and> (\<exists>e\<in>set es. acc_rank r = rp_rank g m e)"
  by (auto simp: from_range_def chosen_def acc_rank_def rp_rank_def)

lemma from_range_ex: "es \<noteq> [] \<Longrightarrow> \<exists>r. from_range g m n i es r"
  by (cases es) (auto simp: from_range_Cons)

lemma match_step_best:
  assumes "acc_best C acc" "range_ok m" "covers g m" "\<not> gm_group_mask m < ma_mask acc"
  shows "acc_best (C \<union> range_cands g n m)
    (match_rps (ntohl g) m n 0 (gm_grp_rp m)
       (if ma_mask acc < gm_group_mask m then acc\<lparr>ma_priority := 0xff, ma_address := 0, ma_hash := 0\<rparr> else acc))"
    (is "acc_best _ ?r")
proof -
  have s: "sorted_wrt (\<lambda>x y. re_priority x \<le> re_priority y) (gm_grp_rp m)" and ne: "gm_grp_rp m \<noteq> []"
    using assms(2) by (auto simp: range_ok_def sorted_prio)
  have R: "range_cands g n m = {r. from_range g m n 0 (gm_grp_rp m) r}" "range_cands g n m \<noteq> {}"
    using assms(3) from_range_ex [OF ne] by (auto simp: range_cands_def)
  show ?thesis
  proof (cases "ma_mask acc < gm_group_mask m \<or> C = {}")
    case True
    then have r: "ma_mask ?r = gm_group_mask m \<and> (\<forall>e\<in>set (gm_grp_rp m). rp_rank g m e \<le> acc_rank ?r) \<and> from_range g m n 0 (gm_grp_rp m) ?r"
      using assms(1) by (intro match_rps_first [OF s ne]) (auto simp: acc_best_def match_init_def)
    have "acc_rank c \<le> acc_rank ?r" if "c \<in> C" for c
    proof -
      have le: "acc_rank c \<le> acc_rank acc" and "C \<noteq> {}" using that assms(1) by (auto simp: acc_best_def split: if_splits)
      then have "unat (ma_mask acc) < unat (gm_group_mask m)" using True by (simp add: word_less_nat_alt)
      then have "acc_rank acc < acc_rank ?r" using conjunct1 [OF r] mask_rank [of acc ?r] by simp
      then show ?thesis using le by simp
    qed
    moreover have "acc_rank c \<le> acc_rank ?r" if "c \<in> range_cands g n m" for c
      using that r R(1) from_range_rank [of g m n 0 "gm_grp_rp m" c] by auto
    ultimately show ?thesis using r R(1) by (intro acc_bestI) blast+
  next
    case False
    then have eq: "ma_mask acc = gm_group_mask m" "C \<noteq> {}" using assms(4) by auto
    then have r: "ma_mask ?r = gm_group_mask m \<and> acc_rank acc \<le> acc_rank ?r \<and> (\<forall>e\<in>set (gm_grp_rp m). rp_rank g m e \<le> acc_rank ?r) \<and>
        (?r = acc \<or> from_range g m n 0 (gm_grp_rp m) ?r)"
      by (intro match_rps_best [OF s eq(1)]) simp
    have a: "acc \<in> C" "\<And>c. c \<in> C \<Longrightarrow> acc_rank c \<le> acc_rank acc" using assms(1) eq(2) by (auto simp: acc_best_def)
    have "acc_rank c \<le> acc_rank ?r" if "c \<in> C" for c using a(2) [OF that] r order_trans by blast
    moreover have "acc_rank c \<le> acc_rank ?r" if "c \<in> range_cands g n m" for c
      using that r R(1) from_range_rank [of g m n 0 "gm_grp_rp m" c] by auto
    moreover have "?r \<in> C \<union> range_cands g n m" using r a(1) R(1) by auto
    ultimately show ?thesis by (intro acc_bestI) blast+
  qed
qed


lemma match_ranges_best:
  "list_all range_ok ms \<Longrightarrow> acc_best C acc \<Longrightarrow> acc_best (C \<union> all_cands g n ms) (match_ranges g n ms acc)"
proof (induction ms arbitrary: n acc C)
  case (Cons m ms)
  have ok: "range_ok m" "list_all range_ok ms" using Cons.prems(1) by simp_all
  consider "\<not> covers g m" | "covers g m" "gm_group_mask m < ma_mask acc" | "covers g m" "\<not> gm_group_mask m < ma_mask acc"
    by blast
  then show ?case
  proof cases
    case 1
    then show ?thesis using Cons.IH [OF ok(2) Cons.prems(2), of "Suc n"] covers_ntohl [of g m] by (simp add: range_cands_def)
  next
    case 2
    have "C \<noteq> {}" using 2 Cons.prems(2) by (auto simp: acc_best_def match_init_def)
    moreover have "acc_rank c \<le> acc_rank acc" if "c \<in> range_cands g n m" for c
      using that 2 from_range_rank [of g m n 0 "gm_grp_rp m" c] mask_rank [of c acc]
      by (auto simp: range_cands_def word_less_nat_alt)
    ultimately have "acc_best (C \<union> range_cands g n m) acc" using Cons.prems(2) by (auto simp: acc_best_def)
    from Cons.IH [OF ok(2) this, of "Suc n"] show ?thesis using 2 covers_ntohl [of g m] by (simp add: Un_assoc)
  next
    case 3
    from Cons.IH [OF ok(2) match_step_best [OF Cons.prems(2) ok(1) 3, of n], of "Suc n"]
    show ?thesis using 3 covers_ntohl [of g m] by (simp add: Un_assoc Let_def)
  qed
qed simp

lemma all_cands_iff:
  "c \<in> all_cands g n ms \<longleftrightarrow> (\<exists>k<length ms. covers g (ms ! k) \<and>
     (\<exists>i<length (gm_grp_rp (ms ! k)). c = chosen (ms ! k) (n + k) i g (gm_grp_rp (ms ! k) ! i)))"
proof (induction ms arbitrary: n)
  case (Cons m ms)
  have "c \<in> range_cands g n m \<longleftrightarrow> covers g m \<and> (\<exists>i<length (gm_grp_rp m). c = chosen m n i g (gm_grp_rp m ! i))"
    by (simp add: range_cands_def from_range_def)
  then show ?case using Cons.IH [of "Suc n"] by (simp add: Ex_less_Suc2)
qed simp

text \<open>The choice as a relation: the entry at \<open>(n, i)\<close> covers the group and has the highest rank of those that do.\<close>

definition best_entry :: "u32 \<Rightarrow> grp_mask list \<Rightarrow> nat \<times> nat \<Rightarrow> bool" where
  "best_entry g ms k \<longleftrightarrow> fst k < length ms \<and> covers g (ms ! fst k) \<and> snd k < length (gm_grp_rp (ms ! fst k)) \<and>
     (\<forall>m\<in>set ms. covers g m \<longrightarrow> (\<forall>e\<in>set (gm_grp_rp m).
        rp_rank g m e \<le> rp_rank g (ms ! fst k) (gm_grp_rp (ms ! fst k) ! snd k)))"

lemma match_ranges_entry:
  assumes "list_all range_ok ms"
  shows "(case ma_entry (match_ranges g 0 ms match_init) of
      None \<Rightarrow> \<not> list_ex (covers g) ms
    | Some k \<Rightarrow> best_entry g ms k)"
proof -
  let ?r = "match_ranges g 0 ms match_init"
  have b: "acc_best (all_cands g 0 ms) ?r"
    using match_ranges_best [OF assms, of "{}" match_init g 0] by (simp add: acc_best_def)
  show ?thesis
  proof (cases "all_cands g 0 ms = {}")
    case True
    have "\<not> covers g m" if m: "m \<in> set ms" for m
    proof
      assume c: "covers g m"
      obtain k where k: "k < length ms" "m = ms ! k" using m by (metis in_set_conv_nth)
      have "gm_grp_rp m \<noteq> []" using assms m by (auto simp: list_all_iff range_ok_def)
      then have "chosen m k 0 g (gm_grp_rp m ! 0) \<in> all_cands g 0 ms" using k c by (auto simp: all_cands_iff)
      then show False using True by simp
    qed
    then show ?thesis using b True by (auto simp: acc_best_def match_init_def list_ex_iff)
  next
    case False
    then have "?r \<in> all_cands g 0 ms" and max: "\<forall>c\<in>all_cands g 0 ms. acc_rank c \<le> acc_rank ?r" using b by (auto simp: acc_best_def)
    then obtain k i where k: "k < length ms" "covers g (ms ! k)" "i < length (gm_grp_rp (ms ! k))"
      "?r = chosen (ms ! k) k i g (gm_grp_rp (ms ! k) ! i)" by (auto simp: all_cands_iff)
    have "rp_rank g m e \<le> rp_rank g (ms ! k) (gm_grp_rp (ms ! k) ! i)" if mem: "m \<in> set ms" "covers g m" "e \<in> set (gm_grp_rp m)" for m e
    proof -
      obtain k' where k': "k' < length ms" "m = ms ! k'" using mem(1) by (auto simp: in_set_conv_nth)
      obtain i' where i': "i' < length (gm_grp_rp m)" "e = gm_grp_rp m ! i'" using mem(3) by (auto simp: in_set_conv_nth)
      have "chosen m k' i' g e \<in> all_cands g 0 ms" using mem(2) k' i' by (auto simp: all_cands_iff)
      then have "acc_rank (chosen m k' i' g e) \<le> acc_rank ?r" using max by blast
      then show ?thesis unfolding k(4) by simp
    qed
    then have "best_entry g ms (k, i)" using k by (simp add: best_entry_def)
    moreover have "ma_entry ?r = Some (k, i)" by (subst k(4)) (simp add: chosen_def)
    ultimately show ?thesis by simp
  qed
qed


lemma mask_masklen: "inet_valid_mask (ntohl m) \<Longrightarrow> inet_valid_mask (ntohl m') \<Longrightarrow>
    (m < m' \<longleftrightarrow> mask_to_masklen m < mask_to_masklen m') \<and> (mask_to_masklen m = mask_to_masklen m' \<longleftrightarrow> m = m')"
proof -
  assume m: "inet_valid_mask (ntohl m)" "inet_valid_mask (ntohl m')"
  obtain k k' where k: "k \<le> 32" "k' \<le> 32" "m = masklen_to_mask k" "m' = masklen_to_mask k'"
    using m by (auto simp: valid_mask_masklen)
  then show ?thesis using net_mask_less [of k k'] mask_to_masklen_inverse [of k] mask_to_masklen_inverse [of k'] by metis
qed

lemma same_range:
  assumes "sorted_wrt range_before ms" "m \<in> set ms" "m' \<in> set ms" "range_prefix m = range_prefix m'" "gm_group_mask m = gm_group_mask m'"
  shows "m = m'"
proof -
  obtain i j where ij: "i < length ms" "j < length ms" "m = ms ! i" "m' = ms ! j" using assms(2,3) by (auto simp: in_set_conv_nth)
  have "\<not> i < j" "\<not> j < i"
    using sorted_wrt_nth_less [OF assms(1), of i j] sorted_wrt_nth_less [OF assms(1), of j i] ij assms(4,5)
    by (auto simp: range_before_def)
  then show ?thesis using ij by (metis linorder_neqE_nat)
qed


section \<open>Properties\<close>

text \<open>
  C4: The RP of a group is the one the RFC asks for.  In a well-formed RP set, for a group that is
  neither an SSM group nor denied by Auto-RP, \<open>rp_grp_match\<close> finds none exactly when no range covers
  the group, and else an entry of a covering range such that every other candidate is of a shorter
  range, or of the same range with a worse priority, or the same priority and a smaller hash value,
  or the same hash value and no higher address.
\<close>
theorem rp_grp_match_rfc:
  assumes "ranges_ok (rl_grp (rs_main st))" "\<not> is_ssm_group (rs_ssm st) g" "\<not> autorp_denied (rs_autorp st) g"
  shows "case rp_grp_match st g of
      None \<Rightarrow> \<not> list_ex (covers g) (rl_grp (rs_main st))
    | Some (n, i) \<Rightarrow>
        n < length (rl_grp (rs_main st)) \<and> i < length (gm_grp_rp (rl_grp (rs_main st) ! n)) \<and>
        covers g (rl_grp (rs_main st) ! n) \<and>
        (\<forall>m'\<in>set (rl_grp (rs_main st)). covers g m' \<longrightarrow> (\<forall>e'\<in>set (gm_grp_rp m').
          let m = rl_grp (rs_main st) ! n; e = gm_grp_rp m ! i;
              hash = (\<lambda>e. rp_hash_value (ntohl g) (ntohl (gm_hash_mask m)) (ntohl (re_rp e)))
          in mask_to_masklen (gm_group_mask m') < mask_to_masklen (gm_group_mask m) \<or>
             m' = m \<and> (re_priority e < re_priority e' \<or> re_priority e = re_priority e' \<and>
               (hash e' < hash e \<or> hash e' = hash e \<and> ntohl (re_rp e') \<le> ntohl (re_rp e)))))"
proof -
  let ?ms = "rl_grp (rs_main st)"
  have ok: "list_all range_ok ?ms" "sorted_wrt range_before ?ms" using assms(1) by (auto simp: ranges_ok_def)
  have eq: "rp_grp_match st g = ma_entry (match_ranges g 0 ?ms match_init)"
    using assms(2,3) by (auto simp: rp_grp_match_def match_init_def split: option.splits prod.splits)
  note match = match_ranges_entry [OF ok(1), of g, folded eq]
  show ?thesis
  proof (cases "rp_grp_match st g")
    case None
    then show ?thesis using match by simp
  next
    case (Some k)
    obtain n i where k: "k = (n, i)" by (cases k)
    let ?m = "?ms ! n" and ?e = "gm_grp_rp (?ms ! n) ! i"
    have b: "n < length ?ms" "i < length (gm_grp_rp ?m)" "covers g ?m"
      "\<And>m' e'. m' \<in> set ?ms \<Longrightarrow> covers g m' \<Longrightarrow> e' \<in> set (gm_grp_rp m') \<Longrightarrow> rp_rank g m' e' \<le> rp_rank g ?m ?e"
      using match Some k by (auto simp: best_entry_def)
    have cmp: "let m = ?m; e = ?e; hash = (\<lambda>e. rp_hash_value (ntohl g) (ntohl (gm_hash_mask m)) (ntohl (re_rp e)))
          in mask_to_masklen (gm_group_mask m') < mask_to_masklen (gm_group_mask m) \<or>
             m' = m \<and> (re_priority e < re_priority e' \<or> re_priority e = re_priority e' \<and>
               (hash e' < hash e \<or> hash e' = hash e \<and> ntohl (re_rp e') \<le> ntohl (re_rp e)))"
      if m': "m' \<in> set ?ms" "covers g m'" "e' \<in> set (gm_grp_rp m')" for m' e'
    proof (cases "gm_group_mask m' = gm_group_mask ?m")
      case True
      have "range_prefix m' = range_prefix ?m" using True m'(2) b(3) by (simp add: covers_def)
      then have "m' = ?m" using same_range [OF ok(2) m'(1) _ _ True] b(1) by simp
      then show ?thesis using b(4) [OF m'] unfolding Let_def rp_rank_def prio_rank(1) [of "re_priority ?e"] prio_rank(2) [of "re_priority ?e"]
        by (auto simp: word_less_nat_alt word_le_nat_alt word_unat_eq_iff [where 'a = 32])
    next
      case False
      have "unat (gm_group_mask m') \<le> unat (gm_group_mask ?m)" using b(4) [OF m'] by (auto simp: rp_rank_def)
      then have "gm_group_mask m' < gm_group_mask ?m" using False by (simp add: word_less_nat_alt word_unat_eq_iff)
      moreover have "inet_valid_mask (ntohl (gm_group_mask m'))" "inet_valid_mask (ntohl (gm_group_mask ?m))"
        using ok(1) m'(1) b(1) by (auto simp: list_all_iff range_ok_def)
      ultimately show ?thesis using mask_masklen by (simp add: Let_def)
    qed
    then show ?thesis using Some k b by simp
  qed
qed


definition example_entry :: "u32 \<Rightarrow> u8 \<Rightarrow> rp_grp_entry" where
  "example_entry a p = \<lparr>re_rp = a, re_holdtime = 150, re_autorp_holdtime = 0, re_fragment_tag = 5,
     re_priority = p, re_origin = rp_origin_bsr, re_grplink = []\<rparr>"

definition example_range :: "u32 \<Rightarrow> u32 \<Rightarrow> rp_grp_entry list \<Rightarrow> grp_mask" where
  "example_range a m es = \<lparr>gm_group_addr = a, gm_group_mask = m, gm_hash_mask = 0xfcffffff, gm_fragment_tag = 5,
     gm_group_rp_number = of_nat (length es), gm_grp_rp = es\<rparr>"

definition example_rps :: rp_state where
  "example_rps = rp_globals\<lparr>rs_main := \<lparr>rl_cand = [],
     rl_grp = [example_range 0xe0 0xf0 [example_entry 0x0100000a 1],
               example_range 0xef 0xff [example_entry 0x0300000a 0, example_entry 0x0200000a 0]]\<rparr>\<rparr>"

theorem rp_grp_match_rfc_witness:
  "rp_grp_match example_rps 0x010101ef = Some (1, 0) \<and> covers 0x010101ef (rl_grp (rs_main example_rps) ! 1) \<and>
   list_all (\<lambda>m'. list_all (\<lambda>e'. mask_to_masklen (gm_group_mask m') < 8 \<or> m' = rl_grp (rs_main example_rps) ! 1) (gm_grp_rp m'))
     (rl_grp (rs_main example_rps))"
proof -
  have ok: "ranges_ok (rl_grp (rs_main example_rps))" "\<not> is_ssm_group (rs_ssm example_rps) 0x010101ef"
    "\<not> autorp_denied (rs_autorp example_rps) 0x010101ef" by code_simp+
  have "rp_grp_match example_rps 0x010101ef = Some (1, 0)"
    "mask_to_masklen (gm_group_mask (rl_grp (rs_main example_rps) ! 1)) = 8"
    "list_all (covers 0x010101ef) (rl_grp (rs_main example_rps))" by code_simp+
  then show ?thesis using rp_grp_match_rfc [OF ok] by (auto simp: Let_def list_all_iff)
qed

end
