(* ===== verification/Rp_Order.thy ===== *)
theory Rp_Order
  imports Rp_Match
begin

text \<open>
  Where \<open>add_grp_mask\<close> and \<open>add_rp_grp_entry_from\<close> link a range and an entry in, and that the lists stay
  ordered.  The keys name ranges and entries by what identifies them, and the pool of the keys is what
  the choice of \<open>rp_grp_match\<close> depends on.
\<close>


section \<open>Linking in\<close>

lemma insert_nth_set [simp]: "set (insert_nth i x xs) = insert x (set xs)"
  by (simp add: insert_nth_def) (metis Un_insert_right append_take_drop_id set_append)

lemma insert_nth_length [simp]: "length (insert_nth i x xs) = Suc (length xs)"
  by (simp add: insert_nth_def)

lemma insert_nth_nth [simp]: "i \<le> length xs \<Longrightarrow> insert_nth i x xs ! i = x"
  by (simp add: insert_nth_def nth_append)

lemma insert_nth_sorted:
  assumes "sorted_wrt R xs" "\<And>j. j < i \<Longrightarrow> j < length xs \<Longrightarrow> R (xs ! j) x" "\<And>j. i \<le> j \<Longrightarrow> j < length xs \<Longrightarrow> R x (xs ! j)"
  shows "sorted_wrt R (insert_nth i x xs)"
proof -
  have "R y x" if "y \<in> set (take i xs)" for y using that assms(2) by (auto simp: in_set_conv_nth)
  moreover have "R x y" if "y \<in> set (drop i xs)" for y
    using that assms(3) by (auto simp: in_set_conv_nth)
  moreover have "sorted_wrt R (take i xs @ drop i xs)" using assms(1) by simp
  ultimately show ?thesis by (auto simp: insert_nth_def sorted_wrt_append simp del: append_take_drop_id)
qed

lemma remove_nth_set: "set (remove_nth i xs) \<subseteq> set xs"
  using set_take_subset [of i xs] set_drop_subset [of "Suc i" xs] by (auto simp: remove_nth_def)

lemma remove_nth_length: "i < length xs \<Longrightarrow> length (remove_nth i xs) = length xs - 1"
  by (simp add: remove_nth_def)

lemma remove_nth_sorted: "sorted_wrt R xs \<Longrightarrow> sorted_wrt R (remove_nth i xs)"
proof -
  assume s: "sorted_wrt R xs"
  have "sorted_wrt R (take i xs @ drop i xs)" using s by simp
  moreover have "set (drop (Suc i) xs) \<subseteq> set (drop i xs)" by (rule set_drop_subset_set_drop) simp
  ultimately show ?thesis using s by (auto simp: remove_nth_def sorted_wrt_append sorted_wrt_drop simp del: append_take_drop_id)
qed

lemma remove_nth_split: "i < length xs \<Longrightarrow> set xs = insert (xs ! i) (set (remove_nth i xs))"
  by (metis id_take_nth_drop list.simps(15) remove_nth_def set_append Un_insert_right)

lemma grp_mask_place_le: "fst (grp_mask_place a k ms) \<le> length ms"
  by (induction ms) auto

lemma grp_mask_place_found:
  "snd (grp_mask_place a k ms) \<Longrightarrow> fst (grp_mask_place a k ms) < length ms \<and>
     range_prefix (ms ! fst (grp_mask_place a k ms)) = a AND k \<and> gm_group_mask (ms ! fst (grp_mask_place a k ms)) = k"
  by (induction ms) (auto simp: range_prefix_def split: if_splits)

lemma range_before_asym: "range_before x y \<Longrightarrow> range_prefix x = range_prefix y \<Longrightarrow> gm_group_mask x \<noteq> gm_group_mask y"
  by (auto simp: range_before_def)

lemma grp_mask_place_new:
  assumes "sorted_wrt range_before ms" "\<not> snd (grp_mask_place a k ms)" "range_prefix m = a AND k" "gm_group_mask m = k" "j < length ms"
  shows "if j < fst (grp_mask_place a k ms) then range_before (ms ! j) m else range_before m (ms ! j)"
  using assms(1,2,5)
proof (induction ms arbitrary: j)
  case (Cons x ms)
  have tail: "if i < fst (grp_mask_place a k ms) then range_before (ms ! i) m else range_before m (ms ! i)"
    if "\<not> snd (grp_mask_place a k ms)" "i < length ms" for i using Cons.IH Cons.prems(1) that by simp
  consider (past) "grp_mask_place a k (x # ms) = apfst Suc (grp_mask_place a k ms)" "range_before x m"
    | (here) "grp_mask_place a k (x # ms) = (0, False)" "range_prefix x = a AND k" "ntohl (gm_group_mask x) < ntohl k"
  proof (cases "range_prefix x = a AND k")
    case True
    consider "ntohl (gm_group_mask x) > ntohl k" | "ntohl (gm_group_mask x) < ntohl k" "\<not> ntohl (gm_group_mask x) > ntohl k" "gm_group_mask x \<noteq> k"
      | "gm_group_mask x = k" using less_linear [of "ntohl (gm_group_mask x)" "ntohl k"] by auto
    then show thesis using that True Cons.prems(2) assms(3,4) by cases (simp_all add: range_prefix_def range_before_def)
  next
    case False
    then show thesis using that(1) assms(3) by (simp add: range_prefix_def range_before_def)
  qed
  then show ?case
  proof cases
    case past
    then show ?thesis using tail Cons.prems(2,3) by (cases j) auto
  next
    case here
    have "range_before m y" if "y \<in> set (x # ms)" for y
    proof -
      have "range_before x y \<or> y = x" using Cons.prems(1) that by auto
      then show ?thesis using here assms(3,4) by (auto simp: range_before_def)
    qed
    then show ?thesis using here Cons.prems(3) by (simp add: nth_Cons' split: nat.splits)
  qed
qed simp

lemma rp_grp_place_le: "fst (rp_grp_place p a es) \<le> length es"
  by (induction es) auto

lemma rp_grp_place_found:
  "snd (rp_grp_place p a es) \<Longrightarrow> fst (rp_grp_place p a es) < length es \<and>
     re_priority (es ! fst (rp_grp_place p a es)) = p \<and> re_rp (es ! fst (rp_grp_place p a es)) = a"
  by (induction es) (auto split: if_splits)

lemma entry_before_trans: "entry_before x y \<Longrightarrow> entry_before y z \<Longrightarrow> entry_before x z"
  by (auto simp: entry_before_def)

lemma rp_grp_place_new:
  assumes "sorted_wrt entry_before es" "\<not> snd (rp_grp_place p a es)" "re_priority e = p" "re_rp e = a" "j < length es"
  shows "if j < fst (rp_grp_place p a es) then entry_before (es ! j) e else entry_before e (es ! j)"
  using assms(1,2,5)
proof (induction es arbitrary: j)
  case (Cons x es)
  have tail: "if i < fst (rp_grp_place p a es) then entry_before (es ! i) e else entry_before e (es ! i)"
    if "\<not> snd (rp_grp_place p a es)" "i < length es" for i using Cons.IH Cons.prems(1) that by simp
  consider (past) "rp_grp_place p a (x # es) = apfst Suc (rp_grp_place p a es)" "entry_before x e"
    | (here) "rp_grp_place p a (x # es) = (0, False)" "entry_before e x"
    using Cons.prems(2) assms(3,4) by (auto simp: entry_before_def not_less le_less split: if_splits)
  then show ?case
  proof cases
    case past
    then show ?thesis using tail Cons.prems(2,3) by (cases j) auto
  next
    case here
    have "entry_before e y" if "y \<in> set (x # es)" for y
      using here(2) that Cons.prems(1) entry_before_trans by auto
    then show ?thesis using here Cons.prems(3) by (simp add: nth_Cons' split: nat.splits)
  qed
qed simp



section \<open>Keys and the pool\<close>

type_synonym rid = "u32 \<times> u32 \<times> u32"
type_synonym rkey = "rid \<times> u8 \<times> u32"

definition rid :: "grp_mask \<Rightarrow> rid" where
  "rid m = (range_prefix m, gm_group_mask m, gm_hash_mask m)"

definition eid :: "rp_grp_entry \<Rightarrow> u8 \<times> u32" where
  "eid e = (re_priority e, re_rp e)"

definition key_at :: "grp_mask list \<Rightarrow> nat \<times> nat \<Rightarrow> rkey" where
  "key_at ms k = (rid (ms ! fst k), eid (gm_grp_rp (ms ! fst k) ! snd k))"

definition pool :: "grp_mask list \<Rightarrow> rkey set" where
  "pool ms = (\<Union>m\<in>set ms. (\<lambda>e. (rid m, eid e)) ` set (gm_grp_rp m))"

definition kcov :: "u32 \<Rightarrow> rkey \<Rightarrow> bool" where
  "kcov g k \<longleftrightarrow> g AND fst (snd (fst k)) = fst (fst k)"

definition krank :: "u32 \<Rightarrow> rkey \<Rightarrow> rank" where
  "krank g k = (unat (fst (snd (fst k))), 255 - unat (fst (snd k)),
     unat (rp_hash_value (ntohl g) (ntohl (snd (snd (fst k)))) (ntohl (snd (snd k)))), unat (ntohl (snd (snd k))))"

definition pool_best :: "u32 \<Rightarrow> rkey set \<Rightarrow> rkey \<Rightarrow> bool" where
  "pool_best g P k \<longleftrightarrow> k \<in> P \<and> kcov g k \<and> (\<forall>k'\<in>P. kcov g k' \<longrightarrow> krank g k' \<le> krank g k)"

lemma kcov_rid [simp]: "kcov g (rid m, k) \<longleftrightarrow> covers g m"
  by (simp add: kcov_def rid_def covers_def)

lemma krank_key [simp]: "krank g (rid m, eid e) = rp_rank g m e"
  by (simp add: krank_def rid_def eid_def rp_rank_def)

lemma pool_iff: "k \<in> pool ms \<longleftrightarrow> (\<exists>m\<in>set ms. \<exists>e\<in>set (gm_grp_rp m). k = (rid m, eid e))"
  by (auto simp: pool_def)

lemma pool_best_entry:
  assumes "best_entry g ms k"
  shows "pool_best g (pool ms) (key_at ms k)"
  using assms by (auto simp: best_entry_def pool_best_def pool_iff key_at_def in_set_conv_nth) (metis nth_mem)+

lemma sorted_wrt_nth_eq:
  assumes "sorted_wrt R xs" "i < length xs" "j < length xs" "\<not> R (xs ! i) (xs ! j)" "\<not> R (xs ! j) (xs ! i)"
  shows "i = j"
  using assms sorted_wrt_nth_less by (metis linorder_neqE_nat)

lemma rid_inj: "sorted_wrt range_before ms \<Longrightarrow> i < length ms \<Longrightarrow> j < length ms \<Longrightarrow>
    range_prefix (ms ! i) = range_prefix (ms ! j) \<Longrightarrow> gm_group_mask (ms ! i) = gm_group_mask (ms ! j) \<Longrightarrow> i = j"
  by (erule sorted_wrt_nth_eq) (auto simp: range_before_def)

lemma eid_inj: "sorted_wrt entry_before es \<Longrightarrow> i < length es \<Longrightarrow> j < length es \<Longrightarrow> eid (es ! i) = eid (es ! j) \<Longrightarrow> i = j"
  by (erule sorted_wrt_nth_eq) (auto simp: entry_before_def eid_def)

definition valid_at :: "grp_mask list \<Rightarrow> nat \<times> nat \<Rightarrow> bool" where
  "valid_at ms k \<longleftrightarrow> fst k < length ms \<and> snd k < length (gm_grp_rp (ms ! fst k))"

lemma key_at_inj:
  assumes "ranges_ok ms" "valid_at ms k" "valid_at ms k'" "key_at ms k = key_at ms k'"
  shows "k = k'"
proof -
  have "fst k = fst k'" using assms by (intro rid_inj [of ms]) (auto simp: ranges_ok_def key_at_def rid_def valid_at_def)
  moreover have "snd k = snd k'"
    using assms calculation by (intro eid_inj [of "gm_grp_rp (ms ! fst k)"]) (auto simp: ranges_ok_def range_ok_def list_all_iff key_at_def valid_at_def)
  ultimately show ?thesis by (simp add: prod_eq_iff)
qed

lemma pool_best_unique:
  assumes "sorted_wrt range_before ms" "pool_best g (pool ms) k" "pool_best g (pool ms) k'"
  shows "k = k'"
proof -
  obtain m e m' e' where k: "k = (rid m, eid e)" "m \<in> set ms" and k': "k' = (rid m', eid e')" "m' \<in> set ms"
    using assms(2,3) by (auto simp: pool_best_def pool_iff)
  have "krank g k = krank g k'" using assms(2,3) by (intro antisym) (simp_all add: pool_best_def)
  then have eq: "rp_rank g m e = rp_rank g m' e'" and c: "covers g m" "covers g m'"
    using assms(2,3) k k' by (simp_all add: pool_best_def)
  then have "gm_group_mask m = gm_group_mask m'" by (simp add: rp_rank_def word_unat_eq_iff)
  moreover have "range_prefix m = range_prefix m'" using c calculation by (simp add: covers_def)
  ultimately have "m = m'" using same_range [OF assms(1) k(2) k'(2)] by simp
  moreover have "eid e = eid e'" using eq prio_rank(2) [of "re_priority e" "re_priority e'"]
    by (auto simp: rp_rank_def eid_def word_unat_eq_iff [where 'a = 32, symmetric])
  ultimately show ?thesis using k k' by simp
qed

text \<open>The choice is the best of the pool.\<close>

lemma rp_grp_match_pool:
  assumes "ranges_ok (rl_grp (rs_main st))" "\<not> autorp_denied (rs_autorp st) g"
  shows "rp_grp_match st g = Some k \<longleftrightarrow> \<not> is_ssm_group (rs_ssm st) g \<and> valid_at (rl_grp (rs_main st)) k \<and>
      pool_best g (pool (rl_grp (rs_main st))) (key_at (rl_grp (rs_main st)) k)"
    and "rp_grp_match st g = None \<longleftrightarrow> is_ssm_group (rs_ssm st) g \<or> (\<forall>k\<in>pool (rl_grp (rs_main st)). \<not> kcov g k)"
proof -
  let ?ms = "rl_grp (rs_main st)"
  have ok: "list_all range_ok ?ms" "sorted_wrt range_before ?ms" using assms(1) by (simp_all add: ranges_ok_def)
  have eq: "rp_grp_match st g = (if is_ssm_group (rs_ssm st) g then None else ma_entry (match_ranges g 0 ?ms match_init))"
    using assms(2) by (auto simp: rp_grp_match_def match_init_def split: option.splits prod.splits)
  have some: "pool_best g (pool ?ms) (key_at ?ms k) \<and> valid_at ?ms k" if "rp_grp_match st g = Some k" for k
    using match_ranges_entry [OF ok(1), of g] that eq pool_best_entry by (auto simp: best_entry_def valid_at_def split: if_splits)
  have cov: "list_ex (covers g) ?ms \<longleftrightarrow> (\<exists>k\<in>pool ?ms. kcov g k)"
  proof
    assume "list_ex (covers g) ?ms"
    then obtain m where m: "m \<in> set ?ms" "covers g m" by (auto simp: list_ex_iff)
    then have "gm_grp_rp m \<noteq> []" using ok(1) by (simp add: list_all_iff range_ok_def)
    then obtain e where "e \<in> set (gm_grp_rp m)" by (meson list.set_sel(1))
    then have "(rid m, eid e) \<in> pool ?ms" using m(1) by (auto simp: pool_iff)
    then show "\<exists>k\<in>pool ?ms. kcov g k" using m(2) kcov_rid by blast
  qed (fastforce simp: pool_iff list_ex_iff)
  have none: "rp_grp_match st g = None \<Longrightarrow> is_ssm_group (rs_ssm st) g \<or> \<not> list_ex (covers g) ?ms"
    using match_ranges_entry [OF ok(1), of g] eq by (auto split: if_splits)
  show "rp_grp_match st g = None \<longleftrightarrow> is_ssm_group (rs_ssm st) g \<or> (\<forall>k\<in>pool ?ms. \<not> kcov g k)"
  proof
    assume r: "is_ssm_group (rs_ssm st) g \<or> (\<forall>k\<in>pool ?ms. \<not> kcov g k)"
    show "rp_grp_match st g = None"
    proof (cases "is_ssm_group (rs_ssm st) g")
      case True
      then show ?thesis using eq by simp
    next
      case False
      then show ?thesis using r some by (meson not_None_eq pool_best_def)
    qed
  qed (use none cov in blast)
  show "rp_grp_match st g = Some k \<longleftrightarrow> \<not> is_ssm_group (rs_ssm st) g \<and> valid_at ?ms k \<and> pool_best g (pool ?ms) (key_at ?ms k)"
  proof
    assume r: "\<not> is_ssm_group (rs_ssm st) g \<and> valid_at ?ms k \<and> pool_best g (pool ?ms) (key_at ?ms k)"
    then have "list_ex (covers g) ?ms" using cov by (auto simp: pool_best_def)
    then obtain k' where k': "rp_grp_match st g = Some k'" using none r by (cases "rp_grp_match st g") auto
    have "key_at ?ms k' = key_at ?ms k" using pool_best_unique [OF ok(2)] some [OF k'] r by blast
    then show "rp_grp_match st g = Some k" using k' key_at_inj [OF assms(1), of k' k] some [OF k'] r by simp
  qed (use some eq in \<open>auto split: if_splits\<close>)
qed

end
