(* ===== verification/Rp_Remap.thy ===== *)
theory Rp_Remap
  imports Rp_Order
begin

text \<open>
  The groups of a router hang off the entry of the RP set they map to, and whoever changes the set
  has to move the groups the change concerns: RFC 7761 sec. 4.7.1.  Here are what \<open>remap_grpentry\<close>
  does to the place of a group, the walks that remap many of them, and the invariant that every group
  hangs where \<open>rp_grp_match\<close> now puts it.
\<close>


section \<open>Where the groups are\<close>

abbreviation ranges :: "rp_state \<Rightarrow> grp_mask list" where
  "ranges st \<equiv> rl_grp (rs_main st)"

definition hung :: "rp_state \<Rightarrow> u32 \<Rightarrow> (nat \<times> nat) set" where
  "hung st g = {(n, i). n < length (ranges st) \<and> i < length (gm_grp_rp (ranges st ! n)) \<and>
     g \<in> set (re_grplink (gm_grp_rp (ranges st ! n) ! i))}"

definition located :: "rp_state \<Rightarrow> u32 \<Rightarrow> (nat \<times> nat) set \<times> bool" where
  "located st g = (hung st g, g \<in> set (rs_norp st))"

text \<open>The place \<open>remap_grpentry\<close> gives a group.\<close>

definition home :: "rp_state \<Rightarrow> u32 \<Rightarrow> (nat \<times> nat) set \<times> bool" where
  "home st g = (case rp_grp_match st g of None \<Rightarrow> ({}, g \<in> set (rs_sources st)) | Some k \<Rightarrow> ({k}, False))"

definition placed :: "rp_state \<Rightarrow> u32 \<Rightarrow> bool" where
  "placed st g \<longleftrightarrow> (\<forall>k\<in>hung st g. rp_grp_match st g = Some k) \<and> (g \<in> set (rs_norp st) \<longrightarrow> rp_grp_match st g = None)"

lemma home_placed: "located st g = home st g \<Longrightarrow> placed st g"
  by (auto simp: located_def home_def placed_def split: option.splits)


section \<open>What moving groups leaves alone\<close>

definition bare_entry :: "rp_grp_entry \<Rightarrow> rp_grp_entry" where
  "bare_entry e = e\<lparr>re_grplink := []\<rparr>"

definition bare_range :: "grp_mask \<Rightarrow> grp_mask" where
  "bare_range m = m\<lparr>gm_grp_rp := map bare_entry (gm_grp_rp m)\<rparr>"

definition core :: "rp_state \<Rightarrow> rp_state" where
  "core st = st\<lparr>rs_main := \<lparr>rl_cand = [], rl_grp = map bare_range (ranges st)\<rparr>, rs_norp := [], rs_resync := False\<rparr>"

lemma bare_entry_simps [simp]:
  "re_rp (bare_entry e) = re_rp e" "re_priority (bare_entry e) = re_priority e" "re_origin (bare_entry e) = re_origin e"
  "re_grplink (bare_entry e) = []" "bare_entry (e\<lparr>re_grplink := x\<rparr>) = bare_entry e"
  by (simp_all add: bare_entry_def)

lemma bare_range_simps [simp]:
  "gm_group_addr (bare_range m) = gm_group_addr m" "gm_group_mask (bare_range m) = gm_group_mask m"
  "gm_hash_mask (bare_range m) = gm_hash_mask m" "gm_group_rp_number (bare_range m) = gm_group_rp_number m"
  "gm_grp_rp (bare_range m) = map bare_entry (gm_grp_rp m)"
  by (simp_all add: bare_range_def)

lemma core_simps [simp]:
  "ranges (core st) = map bare_range (ranges st)" "rs_ssm (core st) = rs_ssm st" "rs_autorp (core st) = rs_autorp st"
  "rs_sources (core st) = rs_sources st" "rs_seg (core st) = rs_seg st"
  "rs_set_entries (core st) = rs_set_entries st" "rs_set_limit (core st) = rs_set_limit st"
  by (simp_all add: core_def)

lemma match_rps_bare [simp]: "match_rps h (bare_range m) n i (map bare_entry es) acc = match_rps h m n i es acc"
  by (induction es arbitrary: i acc) (auto simp: Let_def)

lemma match_ranges_bare [simp]: "match_ranges g n (map bare_range ms) acc = match_ranges g n ms acc"
  by (induction ms arbitrary: n acc) (simp_all add: Let_def)

lemma match_rps_valid:
  "ma_entry (match_rps h m n i es acc) = Some (k, j) \<Longrightarrow> ma_entry acc = Some (k, j) \<or> k = n \<and> i \<le> j \<and> j < i + length es"
  by (induction h m n i es acc rule: match_rps.induct) (fastforce simp: Let_def split: if_splits)+

lemma match_ranges_valid:
  "ma_entry (match_ranges g n ms acc) = Some (k, j) \<Longrightarrow>
     ma_entry acc = Some (k, j) \<or> n \<le> k \<and> k < n + length ms \<and> j < length (gm_grp_rp (ms ! (k - n)))"
proof (induction g n ms acc rule: match_ranges.induct)
  case (2 g n m ms acc)
  let ?acc = "if ma_mask acc < gm_group_mask m then acc\<lparr>ma_priority := 0xff, ma_address := 0, ma_hash := 0\<rparr> else acc"
  have s: "(m # ms) ! (k - n) = ms ! (k - Suc n)" if "Suc n \<le> k" using that by (simp add: nth_Cons' Suc_diff_Suc diff_Suc)
  consider "ntohl g AND ntohl (gm_group_mask m) \<noteq> ntohl (gm_group_mask m AND gm_group_addr m)"
    | "ntohl g AND ntohl (gm_group_mask m) = ntohl (gm_group_mask m AND gm_group_addr m)" "ma_mask acc > gm_group_mask m"
    | "ntohl g AND ntohl (gm_group_mask m) = ntohl (gm_group_mask m AND gm_group_addr m)" "\<not> ma_mask acc > gm_group_mask m" by blast
  then show ?case
  proof cases
    case 1
    then show ?thesis using 2 s by auto
  next
    case b: 2
    then show ?thesis using 2 s by auto
  next
    case 3
    then have "ma_entry (match_rps (ntohl g) m n 0 (gm_grp_rp m) ?acc) = Some (k, j) \<or>
        Suc n \<le> k \<and> k < Suc n + length ms \<and> j < length (gm_grp_rp (ms ! (k - Suc n)))"
      using "2.IH"(3) "2.prems" by (simp add: Let_def)
    then show ?thesis using match_rps_valid [of "ntohl g" m n 0 "gm_grp_rp m" ?acc k j] s by (auto split: if_splits)
  qed
qed simp

lemma rp_grp_match_valid:
  "rp_grp_match st g = Some (n, i) \<Longrightarrow> n < length (ranges st) \<and> i < length (gm_grp_rp (ranges st ! n))"
  using match_ranges_valid [of g 0 "ranges st" match_init n i]
  by (auto simp: rp_grp_match_def match_init_def split: if_splits option.splits prod.splits)

lemma rp_grp_match_core [simp]: "rp_grp_match (core st) g = rp_grp_match st g"
proof (cases "ma_entry (match_ranges g 0 (ranges st) match_init)")
  case (Some k)
  obtain n i where k: "k = (n, i)" by (cases k)
  have "n < length (ranges st)" "i < length (gm_grp_rp (ranges st ! n))"
    using match_ranges_valid [of g 0 "ranges st" match_init n i] Some k by (auto simp: match_init_def)
  then show ?thesis using Some k by (simp add: rp_grp_match_def)
qed (simp add: rp_grp_match_def)

lemma core_match: "core st = core st' \<Longrightarrow> rp_grp_match st = rp_grp_match st'"
  by (metis ext rp_grp_match_core)

lemma core_home: "core st = core st' \<Longrightarrow> home st = home st'"
proof -
  assume c: "core st = core st'"
  have "rs_sources st = rs_sources st'" using c by (metis core_simps(4))
  then show ?thesis using core_match [OF c] by (auto simp: home_def fun_eq_iff split: option.split)
qed


section \<open>Moving one group\<close>

lemma hung_unlink: "hung (grp_chain_unlink g st) g' = (if g' = g then {} else hung st g')"
  by (auto simp: hung_def grp_chain_unlink_def upd_entries_def)

lemma core_unlink: "core (grp_chain_unlink g st) = core st"
  by (simp add: core_def grp_chain_unlink_def upd_entries_def bare_range_def)

lemma hung_link:
  assumes "n < length (ranges st)" "i < length (gm_grp_rp (ranges st ! n))"
  shows "hung (grp_link g (n, i) st) g' = (if g' = g then insert (n, i) (hung st g) else hung st g')"
  using assms by (auto simp: hung_def grp_link_def upd_entry_def nth_list_update split: if_splits)

lemma bare_link:
  "n < length ms \<Longrightarrow> i < length (gm_grp_rp (ms ! n)) \<Longrightarrow>
   bare_range ((ms ! n)\<lparr>gm_grp_rp := (gm_grp_rp (ms ! n))[i := (gm_grp_rp (ms ! n) ! i)\<lparr>re_grplink := x\<rparr>]\<rparr>) = bare_range (ms ! n)"
  by (simp add: bare_range_def map_update)
     (metis (no_types, lifting) bare_entry_simps(5) list_update_id map_update nth_map)

lemma core_link:
  assumes "n < length (ranges st)" "i < length (gm_grp_rp (ranges st ! n))"
  shows "core (grp_link g (n, i) st) = core st"
  using bare_link [OF assms] assms
  by (simp add: core_def grp_link_def upd_entry_def map_update) (metis list_update_id nth_map)

lemma remap_core [simp]: "core (remap_grpentry g st) = core st"
proof (cases "rp_grp_match (grp_chain_unlink g st) g")
  case None
  have "core (st\<lparr>rs_norp := x\<rparr>) = core st" for st x by (simp add: core_def)
  then show ?thesis using None core_unlink [of g st] by (simp add: remap_grpentry_def Let_def)
next
  case (Some k)
  then obtain n i where "rp_grp_match (grp_chain_unlink g st) g = Some (n, i)" by (cases k) auto
  then show ?thesis using core_link rp_grp_match_valid core_unlink [of g st] by (fastforce simp: remap_grpentry_def Let_def)
qed

lemma remap_located: "located (remap_grpentry g st) g' = (if g' = g then home st g else located st g')"
proof -
  let ?u = "grp_chain_unlink g st"
  have m: "rp_grp_match ?u = rp_grp_match st" by (rule core_match) (rule core_unlink)
  have n: "set (rs_norp ?u) = set (rs_norp st) - {g}" "rs_sources ?u = rs_sources st" by (simp_all add: grp_chain_unlink_def)
  show ?thesis
  proof (cases "rp_grp_match st g")
    case None
    have "hung (?u\<lparr>rs_norp := x\<rparr>) = hung ?u" for x by (simp add: hung_def fun_eq_iff)
    then show ?thesis using None by (auto simp: remap_grpentry_def Let_def m n located_def home_def hung_unlink)
  next
    case (Some k)
    obtain i j where k: "k = (i, j)" by (cases k)
    have "i < length (ranges ?u)" "j < length (gm_grp_rp (ranges ?u ! i))"
      using rp_grp_match_valid [of ?u g i j] Some k m by simp_all
    note l = hung_link [OF this]
    have "rs_norp (grp_link g k ?u) = rs_norp ?u" by (simp add: grp_link_def)
    then show ?thesis using Some k l by (auto simp: remap_grpentry_def Let_def m n located_def home_def hung_unlink)
  qed
qed


section \<open>Moving many\<close>

text \<open>A walk leaves every group where it was, or takes it home.\<close>

definition regroups :: "rp_state \<Rightarrow> rp_state \<Rightarrow> bool" where
  "regroups st st' \<longleftrightarrow> core st' = core st \<and> (\<forall>g. located st' g = located st g \<or> located st' g = home st g)"

lemma regroups_refl [simp]: "regroups st st"
  by (simp add: regroups_def)

lemma regroups_remap [simp]: "regroups st (remap_grpentry g st)"
  by (auto simp: regroups_def remap_located)

lemma regroups_home: "regroups st st' \<Longrightarrow> home st' = home st"
  by (rule core_home) (simp add: regroups_def)

lemma regroups_match: "regroups st st' \<Longrightarrow> rp_grp_match st' = rp_grp_match st"
  by (rule core_match) (simp add: regroups_def)

lemma regroups_trans [trans]: "regroups a b \<Longrightarrow> regroups b c \<Longrightarrow> regroups a c"
  using regroups_home [of a b] by (simp add: regroups_def) metis

lemma regroups_placed: "regroups st st' \<Longrightarrow> placed st g \<Longrightarrow> placed st' g"
proof -
  assume r: "regroups st st'" and p: "placed st g"
  consider "located st' g = located st g" | "located st' g = home st' g"
    using r regroups_home [OF r] by (auto simp: regroups_def)
  then show ?thesis
  proof cases
    case 1
    then show ?thesis using p regroups_match [OF r] by (simp add: placed_def located_def)
  qed (rule home_placed)
qed

lemma fold_remap:
  "regroups st (fold remap_grpentry gs st) \<and> (\<forall>g\<in>set gs. located (fold remap_grpentry gs st) g = home st g)"
proof (induction gs arbitrary: st)
  case (Cons a gs)
  let ?s = "remap_grpentry a st"
  have IH: "regroups ?s (fold remap_grpentry gs ?s)" "\<forall>g\<in>set gs. located (fold remap_grpentry gs ?s) g = home ?s g"
    using Cons.IH [of ?s] by simp_all
  have h: "home ?s = home st" by (rule regroups_home) simp
  have "located (fold remap_grpentry gs ?s) a = home st a" using IH(1) h by (simp add: regroups_def remap_located) metis
  then show ?case using IH h regroups_trans [OF regroups_remap IH(1)] by simp
qed simp

lemma remap_of_walk:
  assumes "n < length (ranges st)" "i < length (gm_grp_rp (ranges st ! n))"
  shows "regroups st (remap_of P n i False st) \<and>
    (\<forall>g. (n, i) \<in> hung st g \<longrightarrow> P g \<longrightarrow> located (remap_of P n i False st) g = home st g)"
  using assms fold_remap by (simp add: remap_of_def entry_at_def used_lists_def hung_def)

text \<open>Walks compose: a later one finds a group in its place, or already at home.\<close>

lemma walk_fold:
  assumes "\<And>x s. x \<in> set xs \<Longrightarrow> core s = core st \<Longrightarrow> regroups s (f x s) \<and> (\<forall>g. Q x (located s g) g \<longrightarrow> located (f x s) g = home s g)"
  shows "regroups st (fold f xs st) \<and>
    (\<forall>x\<in>set xs. \<forall>g. Q x (located st g) g \<longrightarrow> located (fold f xs st) g = home st g)"
  using assms
proof (induction xs arbitrary: st)
  case (Cons x xs)
  let ?s = "f x st"
  have 1: "regroups st ?s" "\<And>g. Q x (located st g) g \<Longrightarrow> located ?s g = home st g" using Cons.prems [of x st] by auto
  have c: "core ?s = core st" using 1(1) by (simp add: regroups_def)
  have "regroups ?s (fold f xs ?s) \<and> (\<forall>x\<in>set xs. \<forall>g. Q x (located ?s g) g \<longrightarrow> located (fold f xs ?s) g = home ?s g)"
    using Cons.prems c by (intro Cons.IH) simp
  then have 2: "regroups ?s (fold f xs ?s)" "\<And>x g. x \<in> set xs \<Longrightarrow> Q x (located ?s g) g \<Longrightarrow> located (fold f xs ?s) g = home st g"
    using regroups_home [OF 1(1)] by auto
  have stay: "located ?s g = home st g \<Longrightarrow> located (fold f xs ?s) g = home st g" for g
    using 2(1) regroups_home [OF 1(1)] by (simp add: regroups_def) metis
  have "located (fold f xs ?s) g = home st g" if "y \<in> set (x # xs)" "Q y (located st g) g" for y g
  proof (cases "y = x")
    case True
    then show ?thesis using that(2) 1(2) stay by blast
  next
    case False
    then have y: "y \<in> set xs" using that(1) by simp
    consider "located ?s g = located st g" | "located ?s g = home st g" using 1(1) by (auto simp: regroups_def)
    then show ?thesis by cases (use that(2) 2(2) [OF y, of g] stay in simp_all)
  qed
  then show ?case using regroups_trans [OF 1(1) 2(1)] by simp
qed simp


lemma core_nth:
  assumes "core s = core st"
  shows "length (ranges s) = length (ranges st)"
    and "n < length (ranges st) \<Longrightarrow> bare_range (ranges s ! n) = bare_range (ranges st ! n)"
proof -
  have "map bare_range (ranges s) = map bare_range (ranges st)" using assms by (metis core_simps(1))
  then show "length (ranges s) = length (ranges st)" "n < length (ranges st) \<Longrightarrow> bare_range (ranges s ! n) = bare_range (ranges st ! n)"
    by (auto dest: map_eq_imp_length_eq simp: list_eq_iff_nth_eq)
qed

lemma core_range:
  assumes "core s = core st" "n < length (ranges st)"
  shows "n < length (ranges s)" "gm_group_mask (ranges s ! n) = gm_group_mask (ranges st ! n)"
    "gm_group_addr (ranges s ! n) = gm_group_addr (ranges st ! n)"
    "length (gm_grp_rp (ranges s ! n)) = length (gm_grp_rp (ranges st ! n))"
    "map bare_entry (gm_grp_rp (ranges s ! n)) = map bare_entry (gm_grp_rp (ranges st ! n))"
  using core_nth(1) [OF assms(1)] core_nth(2) [OF assms] assms(2) bare_range_simps by (metis length_map)+

definition entries_walk :: "(u32 \<Rightarrow> bool) \<Rightarrow> nat \<Rightarrow> nat \<Rightarrow> rp_state \<Rightarrow> rp_state" where
  "entries_walk P n k st = fold (\<lambda>i. remap_of P n i False) [0..<k] st"

lemma entries_walk:
  assumes "n < length (ranges st)" "k \<le> length (gm_grp_rp (ranges st ! n))"
  shows "regroups st (entries_walk P n k st) \<and>
    (\<forall>g i. i < k \<longrightarrow> (n, i) \<in> hung st g \<longrightarrow> P g \<longrightarrow> located (entries_walk P n k st) g = home st g)"
proof -
  have "regroups st (fold (\<lambda>i. remap_of P n i False) [0..<k] st) \<and>
    (\<forall>i\<in>set [0..<k]. \<forall>g. (n, i) \<in> fst (located st g) \<and> P g \<longrightarrow> located (fold (\<lambda>i. remap_of P n i False) [0..<k] st) g = home st g)"
  proof (rule walk_fold)
    fix i s assume i: "i \<in> set [0..<k]" and c: "core s = core st"
    have "n < length (ranges s)" "i < length (gm_grp_rp (ranges s ! n))" using core_range [OF c assms(1)] i assms(2) by simp_all
    from remap_of_walk [OF this]
    show "regroups s (remap_of P n i False s) \<and>
        (\<forall>g. (n, i) \<in> fst (located s g) \<and> P g \<longrightarrow> located (remap_of P n i False s) g = home s g)"
      by (simp add: located_def)
  qed
  then show ?thesis by (simp add: entries_walk_def located_def)
qed

lemma covered_walk:
  fixes m :: grp_mask and st :: rp_state
  defines "st' \<equiv> remap_covered_groups m st"
  shows "regroups st st' \<and> (\<forall>g n i. (n, i) \<in> hung st g \<longrightarrow> ntohl (gm_group_mask (ranges st ! n)) < ntohl (gm_group_mask m) \<longrightarrow>
    range_prefix m AND gm_group_mask (ranges st ! n) = range_prefix (ranges st ! n) \<longrightarrow> covers g m \<longrightarrow> located st' g = home st g)"
proof -
  define f where "f = (\<lambda>n st. let ptr = ranges st ! n in
      if ntohl (gm_group_mask ptr) \<ge> ntohl (gm_group_mask m) then st
      else if range_prefix m AND gm_group_mask ptr \<noteq> gm_group_addr ptr AND gm_group_mask ptr then st
      else entries_walk (\<lambda>g. g AND gm_group_mask m = range_prefix m) n (length (gm_grp_rp ptr)) st)"
  have st': "st' = fold f [0..<length (ranges st)] st"
    unfolding st'_def remap_covered_groups_def f_def entries_walk_def range_prefix_def Let_def by (rule refl)
  define Q where "Q = (\<lambda>n (loc :: (nat \<times> nat) set \<times> bool) g. (\<exists>i. (n, i) \<in> fst loc) \<and>
      ntohl (gm_group_mask (ranges st ! n)) < ntohl (gm_group_mask m) \<and>
      range_prefix m AND gm_group_mask (ranges st ! n) = range_prefix (ranges st ! n) \<and> covers g m)"
  have "regroups st (fold f [0..<length (ranges st)] st) \<and>
      (\<forall>n\<in>set [0..<length (ranges st)]. \<forall>g. Q n (located st g) g \<longrightarrow> located (fold f [0..<length (ranges st)] st) g = home st g)"
  proof (rule walk_fold)
    fix n s assume n: "n \<in> set [0..<length (ranges st)]" and c: "core s = core st"
    then have n': "n < length (ranges st)" by simp
    note r = core_range [OF c n']
    have w: "regroups s (entries_walk P n (length (gm_grp_rp (ranges s ! n))) s) \<and>
        (\<forall>g i. i < length (gm_grp_rp (ranges s ! n)) \<longrightarrow> (n, i) \<in> hung s g \<longrightarrow> P g \<longrightarrow>
          located (entries_walk P n (length (gm_grp_rp (ranges s ! n))) s) g = home s g)" for P
      by (rule entries_walk [OF r(1)]) simp
    then show "regroups s (f n s) \<and> (\<forall>g. Q n (located s g) g \<longrightarrow> located (f n s) g = home s g)"
      using r by (auto simp: f_def Let_def Q_def located_def hung_def range_prefix_def covers_def)
  qed
  then have w: "regroups st st'" "\<And>n g. n < length (ranges st) \<Longrightarrow> Q n (located st g) g \<Longrightarrow> located st' g = home st g"
    unfolding st' by simp_all
  have "located st' g = home st g" if "(n, i) \<in> hung st g" "ntohl (gm_group_mask (ranges st ! n)) < ntohl (gm_group_mask m)"
    "range_prefix m AND gm_group_mask (ranges st ! n) = range_prefix (ranges st ! n)" "covers g m" for g n i
  proof (rule w(2))
    show "n < length (ranges st)" using that(1) by (simp add: hung_def)
    show "Q n (located st g) g" using that by (auto simp: Q_def located_def)
  qed
  then show ?thesis using w(1) by blast
qed

lemma norp_walk:
  "regroups st (remap_norp m st) \<and> (\<forall>g\<in>set (rs_norp st). covers g m \<longrightarrow> located (remap_norp m st) g = home st g)"
  using fold_remap [of st "filter (\<lambda>g. g AND gm_group_mask m = gm_group_addr m AND gm_group_mask m) (rs_norp st)"]
  by (simp add: remap_norp_def covers_def range_prefix_def)


lemma home_stays: "regroups st st' \<Longrightarrow> regroups st' st'' \<Longrightarrow> located st' g = home st g \<Longrightarrow> located st'' g = home st g"
  using regroups_home [of st st'] by (simp add: regroups_def) metis

lemma resync_regroups: "regroups st (st\<lparr>rs_resync := b\<rparr>)"
  by (simp add: regroups_def core_def located_def hung_def)

lemma first_rp_walk:
  fixes n :: nat and st :: rp_state
  defines "st' \<equiv> first_rp False n st" and "m \<equiv> ranges st ! n"
  shows "regroups st st' \<and> (gm_group_rp_number m = 1 \<longrightarrow>
    (\<forall>g. covers g m \<longrightarrow> g \<in> set (rs_norp st) \<or>
       (\<exists>n' i. (n', i) \<in> hung st g \<and> ntohl (gm_group_mask (ranges st ! n')) < ntohl (gm_group_mask m) \<and>
          range_prefix m AND gm_group_mask (ranges st ! n') = range_prefix (ranges st ! n')) \<longrightarrow>
       located st' g = home st g))"
proof (cases "gm_group_rp_number m = 1")
  case True
  let ?a = "remap_covered_groups m st"
  let ?b = "remap_norp m ?a"
  have st': "st' = ?b\<lparr>rs_resync := True\<rparr>" using True by (simp add: st'_def first_rp_def used_lists_def m_def Let_def)
  have a: "regroups st ?a" and b: "regroups ?a ?b" and c: "regroups ?b st'"
    using covered_walk [of st m] norp_walk [of ?a m] resync_regroups st' by simp_all
  have "located st' g = home st g" if g: "covers g m" "g \<in> set (rs_norp st) \<or>
      (\<exists>n' i. (n', i) \<in> hung st g \<and> ntohl (gm_group_mask (ranges st ! n')) < ntohl (gm_group_mask m) \<and>
          range_prefix m AND gm_group_mask (ranges st ! n') = range_prefix (ranges st ! n'))" for g
  proof (cases "located ?a g = home st g")
    case True
    then show ?thesis using home_stays [OF a regroups_trans [OF b c]] by simp
  next
    case False
    then have "located ?a g = located st g" using a by (auto simp: regroups_def)
    moreover have "g \<in> set (rs_norp st)" using False g covered_walk [of st m] by metis
    ultimately have "located ?b g = home ?a g" using norp_walk [of ?a m] g(1) by (auto simp: located_def)
    then show ?thesis using home_stays [OF b c] regroups_home [OF a] by simp
  qed
  then show ?thesis using regroups_trans [OF a regroups_trans [OF b c]] by blast
next
  case False
  then have "st' = st" by (simp add: st'_def first_rp_def used_lists_def m_def Let_def)
  then show ?thesis using False by simp
qed

lemma remap_best_walk:
  fixes n :: nat and st :: rp_state
  defines "es \<equiv> gm_grp_rp (ranges st ! n)"
  assumes "n < length (ranges st)"
  shows "regroups st (remap_best False n p q st) \<and> (re_priority (hd es) = p \<longrightarrow>
    (\<forall>g i. i < length (takeWhile (\<lambda>e. re_priority e \<le> q) es) \<longrightarrow> (n, i) \<in> hung st g \<longrightarrow>
       located (remap_best False n p q st) g = home st g))"
proof -
  let ?k = "length (takeWhile (\<lambda>e. re_priority e \<le> q) es)"
  have "?k \<le> length es" by (rule length_takeWhile_le)
  then have "regroups st (entries_walk (\<lambda>_. True) n ?k st) \<and>
    (\<forall>g i. i < ?k \<longrightarrow> (n, i) \<in> hung st g \<longrightarrow> True \<longrightarrow> located (entries_walk (\<lambda>_. True) n ?k st) g = home st g)"
    unfolding es_def by (rule entries_walk [OF assms(2)])
  then show ?thesis by (auto simp: remap_best_def used_lists_def es_def entries_walk_def Let_def)
qed


section \<open>Groups and keys\<close>

definition khung :: "rp_state \<Rightarrow> u32 \<Rightarrow> rkey set" where
  "khung st g = (\<Union>m\<in>set (ranges st). (\<lambda>e. (rid m, eid e)) ` {e \<in> set (gm_grp_rp m). g \<in> set (re_grplink e)})"

lemma khung_hung: "khung st g = key_at (ranges st) ` hung st g"
proof (rule set_eqI)
  fix k
  have "k \<in> khung st g \<longleftrightarrow> (\<exists>n<length (ranges st). \<exists>i<length (gm_grp_rp (ranges st ! n)).
      g \<in> set (re_grplink (gm_grp_rp (ranges st ! n) ! i)) \<and> k = (rid (ranges st ! n), eid (gm_grp_rp (ranges st ! n) ! i)))"
    by (fastforce simp: khung_def in_set_conv_nth)
  then show "k \<in> khung st g \<longleftrightarrow> k \<in> key_at (ranges st) ` hung st g"
    by (fastforce simp: hung_def key_at_def image_iff)
qed

lemma hung_valid: "k \<in> hung st g \<Longrightarrow> valid_at (ranges st) k"
  by (auto simp: hung_def valid_at_def)

lemma placed_pool:
  assumes "ranges_ok (ranges st)" "\<not> autorp_denied (rs_autorp st) g"
  shows "placed st g \<longleftrightarrow> (\<forall>k\<in>khung st g. \<not> is_ssm_group (rs_ssm st) g \<and> pool_best g (pool (ranges st)) k) \<and>
    (g \<in> set (rs_norp st) \<longrightarrow> is_ssm_group (rs_ssm st) g \<or> (\<forall>k\<in>pool (ranges st). \<not> kcov g k))"
  unfolding placed_def khung_hung rp_grp_match_pool [OF assms] using hung_valid by blast

end
