(* ===== verification/Rp_Inv.thy ===== *)
theory Rp_Inv
  imports Rp_Remap
begin

text \<open>
  The invariant of the RP set, and that every operation of \<^verbatim>\<open>src/rp.c\<close> that adds to the set or takes
  from it keeps it: the lists are in order, no range is without an RP, the counts are the lengths, and
  every group Auto-RP does not deny hangs off the entry that \<open>rp_grp_match\<close> finds for it.
\<close>


section \<open>The invariant\<close>

definition current :: "rp_state \<Rightarrow> bool" where
  "current st \<longleftrightarrow>
     list_all (\<lambda>n. list_all (\<lambda>i. list_all (\<lambda>g. autorp_denied (rs_autorp st) g \<or> rp_grp_match st g = Some (n, i))
         (re_grplink (gm_grp_rp (ranges st ! n) ! i))) [0..<length (gm_grp_rp (ranges st ! n))]) [0..<length (ranges st)] \<and>
     list_all (\<lambda>g. autorp_denied (rs_autorp st) g \<or> rp_grp_match st g = None) (rs_norp st)"

definition rp_set_ok :: "rp_state \<Rightarrow> bool" where
  "rp_set_ok st \<longleftrightarrow> ranges_ok (ranges st) \<and> unat (rs_set_entries st) = length (ranges st) \<and> current st"

definition set_shape :: "rp_state \<Rightarrow> bool" where
  "set_shape st \<longleftrightarrow> ranges_ok (ranges st) \<and> unat (rs_set_entries st) = length (ranges st)"

lemma rp_set_ok_shape: "rp_set_ok st \<longleftrightarrow> set_shape st \<and> current st"
  by (auto simp: rp_set_ok_def set_shape_def)

lemma current_iff: "current st \<longleftrightarrow> (\<forall>g. \<not> autorp_denied (rs_autorp st) g \<longrightarrow> placed st g)"
  by (fastforce simp: current_def placed_def hung_def list_all_iff)

definition keys :: "grp_mask \<Rightarrow> rkey set" where
  "keys m = (\<lambda>e. (rid m, eid e)) ` set (gm_grp_rp m)"

definition gkeys :: "u32 \<Rightarrow> grp_mask \<Rightarrow> rkey set" where
  "gkeys g m = (\<lambda>e. (rid m, eid e)) ` {e \<in> set (gm_grp_rp m). g \<in> set (re_grplink e)}"

lemma keys_cong:
  assumes "rid m = rid m'" "map (\<lambda>e. (eid e, re_grplink e)) (gm_grp_rp m) = map (\<lambda>e. (eid e, re_grplink e)) (gm_grp_rp m')"
  shows "keys m = keys m'" "gkeys g m = gkeys g m'"
proof -
  let ?f = "\<lambda>e. (eid e, re_grplink e)"
  have k: "keys m = (\<lambda>p. (rid m, fst p)) ` set (map ?f (gm_grp_rp m))" for m by (simp add: keys_def image_image)
  show "keys m = keys m'" unfolding k assms by (rule refl)
  have g: "gkeys g m = (\<lambda>p. (rid m, fst p)) ` {p \<in> set (map ?f (gm_grp_rp m)). g \<in> set (snd p)}" for m
    by (force simp: gkeys_def)
  show "gkeys g m = gkeys g m'" unfolding g assms by (rule refl)
qed

lemma pool_keys: "pool ms = (\<Union>m\<in>set ms. keys m)"
  by (simp add: pool_def keys_def)

lemma khung_gkeys: "khung st g = (\<Union>m\<in>set (ranges st). gkeys g m)"
  by (simp add: khung_def gkeys_def)

lemma UN_update: "n < length ms \<Longrightarrow> f (ms ! n) \<subseteq> f m \<Longrightarrow> (\<Union>x\<in>set (ms[n := m]). f x) = (\<Union>x\<in>set ms. f x) \<union> f m"
  for f :: "'a \<Rightarrow> 'b set"
proof -
  assume n: "n < length ms" and s: "f (ms ! n) \<subseteq> f m"
  have "set ms = insert (ms ! n) (set (take n ms) \<union> set (drop (Suc n) ms))"
    using id_take_nth_drop [OF n] by (metis Un_insert_right list.simps(15) set_append)
  moreover have "set (ms[n := m]) = insert m (set (take n ms) \<union> set (drop (Suc n) ms))"
    using n by (simp add: upd_conv_take_nth_drop)
  ultimately show ?thesis using s by auto
qed

text \<open>A range that is in order, with or without RPs.\<close>

definition range_sane :: "grp_mask \<Rightarrow> bool" where
  "range_sane m \<longleftrightarrow> inet_valid_mask (ntohl (gm_group_mask m)) \<and> sorted_wrt entry_before (gm_grp_rp m) \<and>
     unat (gm_group_rp_number m) = length (gm_grp_rp m)"

lemma range_ok_sane: "range_ok m \<longleftrightarrow> range_sane m \<and> gm_grp_rp m \<noteq> []"
  by (auto simp: range_ok_def range_sane_def)

text \<open>What \<open>add_grp_mask\<close> promises: the ranges it leaves, and that the pool and the groups are as they were.\<close>

definition range_ready :: "u32 \<Rightarrow> u32 \<Rightarrow> nat \<Rightarrow> grp_mask list \<Rightarrow> bool" where
  "range_ready a k n ms \<longleftrightarrow> sorted_wrt range_before ms \<and> n < length ms \<and> range_sane (ms ! n) \<and>
     (\<forall>j<length ms. j \<noteq> n \<longrightarrow> range_ok (ms ! j)) \<and> range_prefix (ms ! n) = a AND k \<and> gm_group_mask (ms ! n) = k"

lemma insert_nth_other:
  assumes "i \<le> length xs" "j < Suc (length xs)" "j \<noteq> i"
  shows "insert_nth i x xs ! j \<in> set xs"
  using assms by (auto simp: insert_nth_def nth_append nth_Cons' min_def)

lemma add_grp_mask_ready:
  assumes ok: "ranges_ok (ranges st)" and k: "inet_valid_mask (ntohl k)" and r: "add_grp_mask False a k h st = Some (n, st1)"
  shows "range_ready a k n (ranges st1)" "pool (ranges st1) = pool (ranges st)" "khung st1 = khung st"
proof -
  let ?p = "grp_mask_place a k (ranges st)"
  have s: "sorted_wrt range_before (ranges st)" and o: "\<And>m. m \<in> set (ranges st) \<Longrightarrow> range_ok m"
    using ok by (simp_all add: ranges_ok_def list_all_iff)
  have "range_ready a k n (ranges st1) \<and> pool (ranges st1) = pool (ranges st) \<and> khung st1 = khung st"
  proof (cases "snd ?p")
    case True
    then have "st1 = st" "n = fst ?p" using r by (auto simp: add_grp_mask_def used_lists_def Let_def split: prod.splits)
    then show ?thesis using grp_mask_place_found [OF True] s o by (auto simp: range_ready_def range_ok_sane)
  next
    case False
    define m where "m = \<lparr>gm_group_addr = a, gm_group_mask = k, gm_hash_mask = h, gm_fragment_tag = 0, gm_group_rp_number = 0, gm_grp_rp = []\<rparr>"
    have n: "n = fst ?p" "ranges st1 = insert_nth n m (ranges st)" "n \<le> length (ranges st)"
      using r False grp_mask_place_le [of a k "ranges st"]
      by (auto simp: add_grp_mask_def used_lists_def put_lists_def m_def Let_def split: prod.splits if_splits)
    have m: "range_prefix m = a AND k" "gm_group_mask m = k" "gm_grp_rp m = []" by (simp_all add: m_def range_prefix_def)
    have "sorted_wrt range_before (ranges st1)" unfolding n(2)
      by (rule insert_nth_sorted [OF s]) (use grp_mask_place_new [OF s False m(1,2)] n(1) in \<open>auto split: if_splits\<close>)
    moreover have "range_ok (ranges st1 ! j)" if "j < length (ranges st1)" "j \<noteq> n" for j
      using o insert_nth_other [OF n(3), of j m] that unfolding n(2) by simp
    moreover have "range_sane m" using k by (simp add: range_sane_def m_def)
    ultimately have "range_ready a k n (ranges st1)" using m n by (simp add: range_ready_def)
    moreover have "keys m = {}" "gkeys g m = {}" for g by (simp_all add: keys_def gkeys_def m)
    ultimately show ?thesis using n(2) by (simp add: pool_keys khung_gkeys fun_eq_iff)
  qed
  then show "range_ready a k n (ranges st1)" "pool (ranges st1) = pool (ranges st)" "khung st1 = khung st" by simp_all
qed


section \<open>Adding an entry\<close>

lemma sorted_update:
  assumes "sorted_wrt range_before ms" "range_prefix m = range_prefix (ms ! n)" "gm_group_mask m = gm_group_mask (ms ! n)"
  shows "sorted_wrt range_before (ms[n := m])"
proof -
  have "range_prefix (ms[n := m] ! i) = range_prefix (ms ! i) \<and> gm_group_mask (ms[n := m] ! i) = gm_group_mask (ms ! i)" for i
    using assms(2,3) by (cases "i = n"; cases "n < length ms") (auto simp: list_update_beyond not_less)
  then show ?thesis using assms(1) by (simp add: sorted_wrt_iff_nth_less range_before_def)
qed

lemma link_entry:
  assumes ready: "range_ready a k n ms" and new: "\<not> snd (rp_grp_place p b (gm_grp_rp (ms ! n)))" and e: "re_priority e = p" "re_rp e = b"
    and room: "gm_group_rp_number (ms ! n) < 255" and i: "i = fst (rp_grp_place p b (gm_grp_rp (ms ! n)))"
    and m': "rid m' = rid (ms ! n)" "gm_grp_rp m' = insert_nth i e (gm_grp_rp (ms ! n))" "gm_group_rp_number m' = gm_group_rp_number (ms ! n) + 1"
  shows "ranges_ok (ms[n := m'])" "pool (ms[n := m']) = insert (rid (ms ! n), eid e) (pool ms)" "gm_grp_rp m' \<noteq> []"
proof -
  let ?es = "gm_grp_rp (ms ! n)"
  have n: "n < length ms" "sorted_wrt entry_before ?es" "unat (gm_group_rp_number (ms ! n)) = length ?es" "sorted_wrt range_before ms"
    and other: "\<And>j. j < length ms \<Longrightarrow> j \<noteq> n \<Longrightarrow> range_ok (ms ! j)"
    using ready by (simp_all add: range_ready_def range_sane_def)
  have "sorted_wrt entry_before (gm_grp_rp m')" unfolding m'
    by (rule insert_nth_sorted [OF n(2)]) (use rp_grp_place_new [OF n(2) new e] i in \<open>auto split: if_splits\<close>)
  moreover have "unat (gm_group_rp_number m') = length (gm_grp_rp m')"
    using room n(3) m' by (simp add: unat_word_ariths word_less_nat_alt)
  moreover have id: "gm_group_mask m' = gm_group_mask (ms ! n)" "range_prefix m' = range_prefix (ms ! n)" using m'(1) by (simp_all add: rid_def)
  ultimately have "range_ok m'" using ready m'(2) by (auto simp: range_ok_def range_ready_def range_sane_def insert_nth_def)
  then have "list_all range_ok (ms[n := m'])" using other n(1) by (auto simp: list_all_length nth_list_update)
  moreover have "sorted_wrt range_before (ms[n := m'])"
    using n(4) id by (intro sorted_update)
  ultimately show "ranges_ok (ms[n := m'])" by (simp add: ranges_ok_def)
  have "keys m' = insert (rid (ms ! n), eid e) (keys (ms ! n))" by (simp add: keys_def m')
  then show "pool (ms[n := m']) = insert (rid (ms ! n), eid e) (pool ms)"
    unfolding pool_keys using UN_update [OF n(1), of keys m'] nth_mem [OF n(1)] by auto
  show "gm_grp_rp m' \<noteq> []" unfolding m' by (simp add: insert_nth_def)
qed

lemma khung_update:
  assumes "n < length (ranges st)" "gkeys g m = gkeys g (ranges st ! n)"
    and "ranges st' = (ranges st)[n := m]"
  shows "khung st' g = khung st g"
proof -
  have "gkeys g (ranges st ! n) \<subseteq> (\<Union>x\<in>set (ranges st). gkeys g x)" using nth_mem [OF assms(1)] by blast
  then show ?thesis unfolding khung_gkeys assms(3) using UN_update [OF assms(1), of "gkeys g" m] assms(2)
    by (simp add: Un_absorb2)
qed

lemma takeWhile_sorted:
  assumes "sorted_wrt R xs" "i < length xs" "P (xs ! i)" "\<And>x y. R x y \<Longrightarrow> P y \<Longrightarrow> P x"
  shows "i < length (takeWhile P xs)"
proof -
  have "P (xs ! j)" if "j \<le> i" for j
    using that assms sorted_wrt_nth_less [OF assms(1), of j i] by (cases "j = i") auto
  then show ?thesis using length_takeWhile_less_P_nth [of "Suc i" P xs] assms(2) by auto
qed

lemma masklen_and:
  assumes "k \<le> k'" "k' \<le> 32"
  shows "masklen_to_mask k' AND masklen_to_mask k = masklen_to_mask k"
proof -
  have "push_bit (32 - k') (- 1 :: u32) AND push_bit (32 - k) (- 1) = push_bit (32 - k) (- 1)"
    using assms by (intro bit_word_eqI) (auto simp: bit_simps)
  then have "ntohl (masklen_to_mask k' AND masklen_to_mask k) = ntohl (masklen_to_mask k)"
    using ntohl_masklen_to_mask [of k] ntohl_masklen_to_mask [of k'] assms unfolding ntohl_and by simp
  then show ?thesis by simp
qed

lemma covers_longer:
  assumes "covers g m" "covers g m'" "inet_valid_mask (ntohl (gm_group_mask m))" "inet_valid_mask (ntohl (gm_group_mask m'))"
    "gm_group_mask m < gm_group_mask m'"
  shows "ntohl (gm_group_mask m) < ntohl (gm_group_mask m') \<and> range_prefix m' AND gm_group_mask m = range_prefix m"
proof -
  obtain k k' where k: "k \<le> 32" "k' \<le> 32" "gm_group_mask m = masklen_to_mask k" "gm_group_mask m' = masklen_to_mask k'"
    using assms(3,4) by (auto simp: valid_mask_masklen)
  then have lt: "k < k'" using assms(5) net_mask_less by simp
  have "range_prefix m' AND gm_group_mask m = (g AND gm_group_mask m') AND gm_group_mask m" using assms(2) by (simp add: covers_def)
  also have "\<dots> = g AND (gm_group_mask m' AND gm_group_mask m)" by (simp only: and.assoc)
  also have "\<dots> = range_prefix m" using assms(1) masklen_and [of k k'] k lt by (simp add: covers_def)
  finally show ?thesis using host_mask_less [of k k'] k lt by simp
qed

text \<open>
  The heart of it: an entry has been linked in, and of the groups that were in place before, those
  that are not any more are the ones the two walks find.
\<close>

lemma core_entries:
  assumes "core s = core st" "n < length (ranges st)" "gm_grp_rp (ranges st ! n) \<noteq> []"
  shows "re_priority (hd (gm_grp_rp (ranges s ! n))) = re_priority (hd (gm_grp_rp (ranges st ! n)))"
    and "length (takeWhile (\<lambda>e. re_priority e \<le> q) (gm_grp_rp (ranges s ! n))) =
      length (takeWhile (\<lambda>e. re_priority e \<le> q) (gm_grp_rp (ranges st ! n)))"
proof -
  have eq: "map bare_entry (gm_grp_rp (ranges s ! n)) = map bare_entry (gm_grp_rp (ranges st ! n))" by (rule core_range [OF assms(1,2)])
  then have "gm_grp_rp (ranges s ! n) \<noteq> []" using assms(3) by auto
  then show "re_priority (hd (gm_grp_rp (ranges s ! n))) = re_priority (hd (gm_grp_rp (ranges st ! n)))"
    using arg_cong [OF eq, of "\<lambda>es. re_priority (hd es)"] assms(3) by (simp add: hd_map)
  have t: "length (takeWhile (\<lambda>e. re_priority e \<le> q) (map bare_entry es)) = length (takeWhile (\<lambda>e. re_priority e \<le> q) es)" for es
    by (simp add: takeWhile_map comp_def)
  show "length (takeWhile (\<lambda>e. re_priority e \<le> q) (gm_grp_rp (ranges s ! n))) =
      length (takeWhile (\<lambda>e. re_priority e \<le> q) (gm_grp_rp (ranges st ! n)))"
    using arg_cong [OF eq, of "\<lambda>es. length (takeWhile (\<lambda>e. re_priority e \<le> q) es)"] unfolding t .
qed

definition adds_entry :: "rp_state \<Rightarrow> nat \<Rightarrow> rp_grp_entry \<Rightarrow> rkey set \<Rightarrow> u8 \<Rightarrow> bool" where
  "adds_entry s1 n e P q \<longleftrightarrow>
     (let m = ranges s1 ! n in
      ranges_ok (ranges s1) \<and> n < length (ranges s1) \<and> e \<in> set (gm_grp_rp m) \<and> pool (ranges s1) = insert (rid m, eid e) P \<and>
      (\<forall>e'\<in>set (gm_grp_rp m). eid e' \<noteq> eid e \<longrightarrow> q \<le> re_priority e') \<and>
      (gm_group_rp_number m \<noteq> 1 \<longrightarrow> (\<exists>e'. re_priority e' = q \<and> (rid m, eid e') \<in> P)))"

lemma remapped_placed: "regroups s1 s3 \<Longrightarrow> located s3 g = home s1 g \<Longrightarrow> placed s3 g"
  using regroups_home [of s1 s3] home_placed [of s3 g] by simp

lemma same_range_best:
  assumes "adds_entry s1 n e P q" "(n, i) \<in> hung s1 g" "pool_best g P (key_at (ranges s1) (n, i))"
    "krank g (key_at (ranges s1) (n, i)) < krank g (rid (ranges s1 ! n), eid e)"
  shows "re_priority (hd (gm_grp_rp (ranges s1 ! n))) = re_priority e"
    "i < length (takeWhile (\<lambda>e. re_priority e \<le> q) (gm_grp_rp (ranges s1 ! n)))"
proof -
  define es where "es = gm_grp_rp (ranges s1 ! n)"
  have n: "n < length (ranges s1)" "i < length es" using assms(2) by (simp_all add: hung_def es_def)
  have e: "e \<in> set es" "\<And>e'. e' \<in> set es \<Longrightarrow> eid e' \<noteq> eid e \<Longrightarrow> q \<le> re_priority e'"
    using assms(1) by (auto simp: adds_entry_def es_def Let_def)
  have s: "sorted_wrt entry_before es" and number: "unat (gm_group_rp_number (ranges s1 ! n)) = length es"
    using assms(1) n(1) by (auto simp: adds_entry_def ranges_ok_def list_all_iff range_ok_def es_def Let_def)
  have k: "key_at (ranges s1) (n, i) = (rid (ranges s1 ! n), eid (es ! i))" by (simp add: key_at_def es_def)
  have lt: "rp_rank g (ranges s1 ! n) (es ! i) < rp_rank g (ranges s1 ! n) e" using assms(4) k by simp
  then have ne: "eid (es ! i) \<noteq> eid e" by (auto simp: eid_def rp_rank_def)
  have "length es \<noteq> 1" using ne e(1) n(2) by (auto simp: length_Suc_conv)
  then obtain e' where e': "re_priority e' = q" "(rid (ranges s1 ! n), eid e') \<in> P"
    using assms(1) number by (auto simp: adds_entry_def Let_def)
  have "covers g (ranges s1 ! n)" using assms(3) k by (simp add: pool_best_def)
  then have "rp_rank g (ranges s1 ! n) e' \<le> rp_rank g (ranges s1 ! n) (es ! i)" using assms(3) e'(2) k by (auto simp: pool_best_def)
  then have "re_priority (es ! i) \<le> q" "re_priority e \<le> re_priority (es ! i)"
    using lt e'(1) prio_rank(1) [of q "re_priority (es ! i)"] prio_rank(1) [of "re_priority (es ! i)" "re_priority e"]
    by (auto simp: rp_rank_def not_less [symmetric])
  then have q: "re_priority (es ! i) \<le> q" "re_priority e \<le> q" by simp_all
  then show "i < length (takeWhile (\<lambda>e. re_priority e \<le> q) (gm_grp_rp (ranges s1 ! n)))"
    unfolding es_def [symmetric] by (intro takeWhile_sorted [OF s n(2)]) (auto simp: entry_before_def)
  have hd: "hd es \<in> set es" "re_priority (hd es) \<le> re_priority e"
    using s e(1) by (cases es; auto simp: entry_before_def)+
  then show "re_priority (hd (gm_grp_rp (ranges s1 ! n))) = re_priority e"
    unfolding es_def [symmetric] using e(2) [OF hd(1)] q(2) by (cases "eid (hd es) = eid e") (auto simp: eid_def)
qed


lemma pool_best_insert: "pool_best g P k \<Longrightarrow> pool_best g (insert k0 P) k \<longleftrightarrow> (kcov g k0 \<longrightarrow> krank g k0 \<le> krank g k)"
  by (auto simp: pool_best_def)

lemma added_cases:
  assumes a: "adds_entry s1 n e P q" and und: "\<not> autorp_denied (rs_autorp s1) g" and no: "\<not> placed s1 g"
    and old: "\<forall>k\<in>khung s1 g. \<not> is_ssm_group (rs_ssm s1) g \<and> pool_best g P k"
      "g \<in> set (rs_norp s1) \<longrightarrow> is_ssm_group (rs_ssm s1) g \<or> (\<forall>k\<in>P. \<not> kcov g k)"
  obtains (norp) "covers g (ranges s1 ! n)" "g \<in> set (rs_norp s1)" "gm_group_rp_number (ranges s1 ! n) = 1"
  | (shorter) n' i where "covers g (ranges s1 ! n)" "(n', i) \<in> hung s1 g" "gm_group_rp_number (ranges s1 ! n) = 1"
      "ntohl (gm_group_mask (ranges s1 ! n')) < ntohl (gm_group_mask (ranges s1 ! n))"
      "range_prefix (ranges s1 ! n) AND gm_group_mask (ranges s1 ! n') = range_prefix (ranges s1 ! n')"
  | (same) i where "(n, i) \<in> hung s1 g" "pool_best g P (key_at (ranges s1) (n, i))"
      "krank g (key_at (ranges s1) (n, i)) < krank g (rid (ranges s1 ! n), eid e)"
proof -
  define m where "m = ranges s1 ! n"
  have ok: "ranges_ok (ranges s1)" and n: "n < length (ranges s1)" and pool: "pool (ranges s1) = insert (rid m, eid e) P"
    and q: "gm_group_rp_number m \<noteq> 1 \<Longrightarrow> \<exists>e'. (rid m, eid e') \<in> P" using a by (auto simp: adds_entry_def m_def Let_def)
  from no have cov: "covers g m" and cases: "(\<exists>k\<in>khung s1 g. pool_best g P k \<and> krank g k < krank g (rid m, eid e)) \<or>
      g \<in> set (rs_norp s1) \<and> (\<forall>k\<in>P. \<not> kcov g k)"
    unfolding placed_pool [OF ok und] pool using old pool_best_insert [of g P _ "(rid m, eid e)"] by (auto simp: not_le simp del: krank_key)
  from cases consider "g \<in> set (rs_norp s1)" "\<forall>k\<in>P. \<not> kcov g k"
    | n' i where "(n', i) \<in> hung s1 g" "pool_best g P (key_at (ranges s1) (n', i))"
        "krank g (key_at (ranges s1) (n', i)) < krank g (rid m, eid e)"
    by (auto simp: khung_hung)
  then show thesis
  proof cases
    case 1
    then show ?thesis using norp cov q kcov_rid unfolding m_def by blast
  next
    case 2
    let ?m' = "ranges s1 ! n'"
    have n': "n' < length (ranges s1)" using 2(1) by (simp add: hung_def)
    have c': "covers g ?m'" using 2(2) by (simp add: key_at_def pool_best_def)
    have v: "inet_valid_mask (ntohl (gm_group_mask m))" "inet_valid_mask (ntohl (gm_group_mask ?m'))"
      using ok n n' by (auto simp: ranges_ok_def list_all_iff range_ok_def m_def)
    show ?thesis
    proof (cases "gm_group_mask ?m' = gm_group_mask m")
      case True
      have "n' = n" using ok True cov c' n n' by (intro rid_inj [of "ranges s1"]) (auto simp: ranges_ok_def covers_def m_def)
      then show ?thesis using same 2 m_def by simp
    next
      case False
      have lt: "gm_group_mask ?m' < gm_group_mask m"
        using 2(3) False by (auto simp: key_at_def rp_rank_def word_less_nat_alt word_unat_eq_iff)
      have "gm_group_rp_number m = 1"
      proof (rule ccontr)
        assume "gm_group_rp_number m \<noteq> 1"
        then obtain e' where "(rid m, eid e') \<in> P" using q by blast
        then have "rp_rank g m e' \<le> krank g (key_at (ranges s1) (n', i))" using 2(2) cov kcov_rid krank_key by (metis pool_best_def)
        then show False using lt by (auto simp: key_at_def rp_rank_def word_less_nat_alt)
      qed
      then show ?thesis using shorter [of n' i] covers_longer [OF c' cov v(2,1) lt] 2(1) cov unfolding m_def by blast
    qed
  qed
qed

lemma added_placed:
  assumes a: "adds_entry s1 n e P q" and und: "\<not> autorp_denied (rs_autorp s1) g"
    and old: "\<forall>k\<in>khung s1 g. \<not> is_ssm_group (rs_ssm s1) g \<and> pool_best g P k"
      "g \<in> set (rs_norp s1) \<longrightarrow> is_ssm_group (rs_ssm s1) g \<or> (\<forall>k\<in>P. \<not> kcov g k)"
  shows "placed (remap_best False n (re_priority e) q (first_rp False n s1)) g"
proof -
  define s2 s3 where "s2 = first_rp False n s1" and "s3 = remap_best False n (re_priority e) q s2"
  have n: "n < length (ranges s1)" "gm_grp_rp (ranges s1 ! n) \<noteq> []" using a by (auto simp: adds_entry_def Let_def)
  have r12: "regroups s1 s2" using first_rp_walk [of s1 n] by (simp add: s2_def)
  then have c: "core s2 = core s1" by (simp add: regroups_def)
  note best = remap_best_walk [OF core_range(1) [OF c n(1)], of "re_priority e" q, folded s3_def]
  then have r23: "regroups s2 s3" by simp
  have r13: "regroups s1 s3" by (rule regroups_trans [OF r12 r23])
  have "placed s3 g"
  proof (cases "placed s1 g")
    case True
    then show ?thesis by (rule regroups_placed [OF r13])
  next
    case False
    have early: "placed s3 g" if "located s2 g = home s1 g" using remapped_placed [OF r13 home_stays [OF r12 r23 that]] .
    from a und False old show ?thesis
    proof (cases rule: added_cases)
      case norp
      then show ?thesis using first_rp_walk [of s1 n] early by (simp add: s2_def)
    next
      case (shorter n' i)
      then show ?thesis using first_rp_walk [of s1 n] early unfolding s2_def by blast
    next
      case (same i)
      note b = same_range_best [OF a same]
      show ?thesis
      proof (cases "located s2 g = home s1 g")
        case False
        then have "hung s2 g = hung s1 g" using r12 by (auto simp: regroups_def located_def)
        then have "located s3 g = home s2 g" using best core_entries [OF c n] b same(1) by simp
        then show ?thesis using remapped_placed [OF r13] regroups_home [OF r12] by simp
      qed (rule early)
    qed
  qed
  then show ?thesis by (simp add: s3_def s2_def)
qed


text \<open>What the groups depend on, and that it is all they depend on.\<close>

definition same_pool :: "rp_state \<Rightarrow> rp_state \<Rightarrow> bool" where
  "same_pool st st' \<longleftrightarrow> pool (ranges st') = pool (ranges st) \<and> khung st' = khung st \<and> rs_norp st' = rs_norp st \<and>
     rs_ssm st' = rs_ssm st \<and> rs_autorp st' = rs_autorp st"

lemma same_pool_current:
  "ranges_ok (ranges st) \<Longrightarrow> ranges_ok (ranges st') \<Longrightarrow> same_pool st st' \<Longrightarrow> current st \<Longrightarrow> current st'"
  unfolding current_iff same_pool_def using placed_pool [of st] placed_pool [of st'] by metis

lemma same_pool_trans: "same_pool a b \<Longrightarrow> same_pool b c \<Longrightarrow> same_pool a c"
  by (simp add: same_pool_def)

lemma ready_ok: "range_ready a k n ms \<Longrightarrow> gm_grp_rp (ms ! n) \<noteq> [] \<Longrightarrow> ranges_ok ms"
  by (auto simp: range_ready_def ranges_ok_def list_all_length range_ok_sane)

lemma update_bootstrap_timer_simps [simp]:
  "rs_main (update_bootstrap_timer st) = rs_main st" "rs_norp (update_bootstrap_timer st) = rs_norp st"
  "rs_ssm (update_bootstrap_timer st) = rs_ssm st" "rs_autorp (update_bootstrap_timer st) = rs_autorp st"
  "rs_set_entries (update_bootstrap_timer st) = rs_set_entries st" "rs_sources (update_bootstrap_timer st) = rs_sources st"
  by (simp_all add: update_bootstrap_timer_def)

lemma rp_grp_match_cong:
  "rs_main st' = rs_main st \<Longrightarrow> rs_ssm st' = rs_ssm st \<Longrightarrow> rs_autorp st' = rs_autorp st \<Longrightarrow> rp_grp_match st' = rp_grp_match st"
  by (auto simp: rp_grp_match_def fun_eq_iff split: option.split)

lemma rp_set_ok_timer [simp]: "rp_set_ok (update_bootstrap_timer st) \<longleftrightarrow> rp_set_ok st"
  using rp_grp_match_cong [of "update_bootstrap_timer st" st] by (simp add: rp_set_ok_def current_def)

lemma ranges_ok_bare: "ranges_ok (map bare_range ms) \<longleftrightarrow> ranges_ok ms"
proof -
  have "range_prefix (bare_range m) = range_prefix m" for m by (simp add: range_prefix_def)
  then have "range_before (bare_range x) (bare_range y) \<longleftrightarrow> range_before x y" for x y by (simp add: range_before_def)
  moreover have "range_ok (bare_range m) \<longleftrightarrow> range_ok m" for m by (simp add: range_ok_def sorted_wrt_map entry_before_def [abs_def])
  ultimately show ?thesis by (simp add: ranges_ok_def sorted_wrt_map list.pred_map comp_def)
qed

lemma regroups_frame:
  assumes "regroups st st'"
  shows "ranges_ok (ranges st') \<longleftrightarrow> ranges_ok (ranges st)" "length (ranges st') = length (ranges st)"
    "rs_set_entries st' = rs_set_entries st" "rs_autorp st' = rs_autorp st" "rs_ssm st' = rs_ssm st"
proof -
  have c: "core st' = core st" using assms by (simp add: regroups_def)
  show "length (ranges st') = length (ranges st)" by (rule core_nth(1) [OF c])
  show "ranges_ok (ranges st') \<longleftrightarrow> ranges_ok (ranges st)" using c ranges_ok_bare core_simps(1) by metis
  show "rs_set_entries st' = rs_set_entries st" "rs_autorp st' = rs_autorp st" "rs_ssm st' = rs_ssm st" using c core_simps by metis+
qed

text \<open>Stamping a range, which \<open>add_rp_grp_entry_from\<close> does for a Bootstrap.\<close>

lemma retag_ready:
  assumes "range_ready a k n (ranges st)" "rid m = rid (ranges st ! n)" "gm_grp_rp m = gm_grp_rp (ranges st ! n)"
    "gm_group_rp_number m = gm_group_rp_number (ranges st ! n)"
  shows "range_ready a k n (ranges (put_range False n m st))" "same_pool st (put_range False n m st)"
proof -
  let ?ms = "ranges st" and ?ms' = "(ranges st)[n := m]"
  have r: "ranges (put_range False n m st) = ?ms'" by (simp add: put_range_def used_lists_def put_lists_def Let_def)
  have n: "n < length ?ms" and id: "gm_group_mask m = gm_group_mask (?ms ! n)" "range_prefix m = range_prefix (?ms ! n)"
    using assms(1,2) by (simp_all add: range_ready_def rid_def)
  have "sorted_wrt range_before ?ms'" using assms(1) id by (intro sorted_update) (simp_all add: range_ready_def)
  then show "range_ready a k n (ranges (put_range False n m st))"
    using assms id unfolding r by (auto simp: range_ready_def range_sane_def nth_list_update)
  have k: "keys m = keys (?ms ! n)" "gkeys g m = gkeys g (?ms ! n)" for g using assms(2,3) by (simp_all add: keys_def gkeys_def)
  have "keys (?ms ! n) \<subseteq> pool ?ms" unfolding pool_keys using nth_mem [OF n] by blast
  then have "pool ?ms' = pool ?ms" using UN_update [OF n, of keys m] k(1) by (simp add: pool_keys Un_absorb2)
  moreover have "khung (put_range False n m st) g = khung st g" for g by (rule khung_update [OF n k(2) r])
  ultimately show "same_pool st (put_range False n m st)"
    unfolding same_pool_def r by (simp add: fun_eq_iff put_range_def put_lists_def used_lists_def Let_def)
qed


lemma refresh_keeps [simp]:
  "re_priority (refresh_entry o' h t e) = re_priority e" "re_rp (refresh_entry o' h t e) = re_rp e"
  "re_grplink (refresh_entry o' h t e) = re_grplink e" "eid (refresh_entry o' h t e) = eid e"
  by (simp_all add: refresh_entry_def rp_grp_hold_def eid_def Let_def)

lemma rp_grp_hold_keeps [simp]:
  "re_priority (rp_grp_hold o' h e) = re_priority e" "re_rp (rp_grp_hold o' h e) = re_rp e"
  "re_grplink (rp_grp_hold o' h e) = re_grplink e"
  by (simp_all add: rp_grp_hold_def)

text \<open>Changing an entry in what does not identify it.\<close>

lemma upd_entry_keeps:
  assumes ok: "ranges_ok (ranges st)" and n: "n < length (ranges st)" "i < length (gm_grp_rp (ranges st ! n))"
    and f: "\<And>e. re_priority (f e) = re_priority e" "\<And>e. re_rp (f e) = re_rp e" "\<And>e. re_grplink (f e) = re_grplink e"
  defines "st' \<equiv> put_lists False (upd_entry n i f (used_lists False st)) st"
  shows "ranges_ok (ranges st')" "same_pool st st'" "length (ranges st') = length (ranges st)" "rs_set_entries st' = rs_set_entries st"
proof -
  let ?m = "ranges st ! n"
  define m' where "m' = ?m\<lparr>gm_grp_rp := (gm_grp_rp ?m)[i := f (gm_grp_rp ?m ! i)]\<rparr>"
  have r: "ranges st' = (ranges st)[n := m']" by (simp add: st'_def m'_def upd_entry_def put_lists_def used_lists_def)
  have id: "rid m' = rid ?m" "range_prefix m' = range_prefix ?m" "gm_group_mask m' = gm_group_mask ?m"
    by (simp_all add: m'_def rid_def range_prefix_def)
  have nth: "re_priority (gm_grp_rp m' ! j) = re_priority (gm_grp_rp ?m ! j) \<and> re_rp (gm_grp_rp m' ! j) = re_rp (gm_grp_rp ?m ! j) \<and>
      re_grplink (gm_grp_rp m' ! j) = re_grplink (gm_grp_rp ?m ! j)" for j
    using n(2) f by (simp add: m'_def nth_list_update)
  have len: "length (gm_grp_rp m') = length (gm_grp_rp ?m)" by (simp add: m'_def)
  have m: "range_ok ?m" using ok n(1) by (simp add: ranges_ok_def list_all_length)
  have "sorted_wrt entry_before (gm_grp_rp m')"
    using m nth len by (simp add: range_ok_def sorted_wrt_iff_nth_less entry_before_def)
  then have "range_ok m'" using m id(3) len n(2) by (auto simp: range_ok_def m'_def)
  then show "ranges_ok (ranges st')" unfolding r
    using ok id n(1) sorted_update [of "ranges st" m' n] by (auto simp: ranges_ok_def list_all_length nth_list_update)
  have k: "keys m' = keys ?m" "gkeys g m' = gkeys g ?m" for g
    by (rule keys_cong [OF id(1)], rule nth_equalityI, use nth len in \<open>simp_all add: eid_def\<close>)+
  have "keys ?m \<subseteq> pool (ranges st)" unfolding pool_keys using nth_mem [OF n(1)] by blast
  then have "pool (ranges st') = pool (ranges st)" unfolding r using UN_update [OF n(1), of keys m'] k(1) by (simp add: pool_keys Un_absorb2)
  moreover have "khung st' g = khung st g" for g by (rule khung_update [OF n(1) k(2) r])
  ultimately show "same_pool st st'" by (simp add: same_pool_def fun_eq_iff st'_def put_lists_def)
  show "length (ranges st') = length (ranges st)" "rs_set_entries st' = rs_set_entries st" using r by (simp_all add: st'_def put_lists_def)
qed


definition stamp :: "u8 \<Rightarrow> u16 \<Rightarrow> grp_mask \<Rightarrow> grp_mask" where
  "stamp origin tag m = (if origin = rp_origin_bsr then m\<lparr>gm_fragment_tag := tag\<rparr> else m)"

lemma stamp_simps [simp]:
  "rid (stamp o' t m) = rid m" "gm_grp_rp (stamp o' t m) = gm_grp_rp m" "gm_group_rp_number (stamp o' t m) = gm_group_rp_number m"
  by (simp_all add: stamp_def rid_def range_prefix_def)

definition link_new :: "nat \<Rightarrow> nat \<Rightarrow> rp_grp_entry \<Rightarrow> u16 \<Rightarrow> rp_state \<Rightarrow> rp_state" where
  "link_new n i e holdtime st =
     (let m = ranges st ! n;
          m' = m\<lparr>gm_group_rp_number := gm_group_rp_number m + 1, gm_grp_rp := insert_nth i e (gm_grp_rp m)\<rparr>;
          cs = map (\<lambda>c. if cr_address c = re_rp e
                        then c\<lparr>cr_adv_holdtime := holdtime, cr_rp_grp := range_key m e # cr_rp_grp c\<rparr> else c)
                 (add_cand_rp (re_rp e) (rl_cand (rs_main st)))
      in st\<lparr>rs_main := (rs_main st)\<lparr>rl_cand := cs, rl_grp := (ranges st)[n := m']\<rparr>\<rparr>)"

definition top_priority :: "grp_mask \<Rightarrow> u8" where
  "top_priority m = (case gm_grp_rp m of [] \<Rightarrow> 0xff | e # _ \<Rightarrow> re_priority e)"

lemma add_cases:
  fixes a k h st
  obtains (same) "add_rp_grp_entry_from False b p t a k h tag origin st = (False, st)"
  | (range) n st1 st2 where "add_grp_mask False a k h st = Some (n, st1)" "inet_valid_host b" "in_classd (ntohl a)"
      "st2 = put_range False n (stamp origin tag (ranges st1 ! n)) st1"
proof (cases "inet_valid_host b \<and> in_classd (ntohl a)")
  case True
  then show ?thesis using that by (cases "add_grp_mask False a k h st") (auto simp: add_rp_grp_entry_from_def)
next
  case False
  then show ?thesis using that(1) by (auto simp: add_rp_grp_entry_from_def)
qed

lemma add_in_range:
  assumes "add_grp_mask False a k h st = Some (n, st1)" "inet_valid_host b" "in_classd (ntohl a)" "n < length (ranges st1)"
    and st2: "st2 = put_range False n (stamp origin tag (ranges st1 ! n)) st1"
    and i: "(i, found) = rp_grp_place p b (gm_grp_rp (ranges st2 ! n))"
    and e: "e = rp_grp_hold origin t \<lparr>re_rp = b, re_holdtime = 0, re_autorp_holdtime = 0, re_fragment_tag = tag, re_priority = p,
      re_origin = origin, re_grplink = []\<rparr>"
  shows "add_rp_grp_entry_from False b p t a k h tag origin st =
    (if found then (True, put_lists False (upd_entry n i (refresh_entry origin t tag) (used_lists False st2)) st2)
     else if gm_group_rp_number (ranges st2 ! n) \<ge> pim_max_rp_per_range then
       (False, if gm_grp_rp (ranges st2 ! n) = [] then delete_grp_mask False a k st2 else st2)
     else (True, update_bootstrap_timer (remap_best False n p (top_priority (ranges st2 ! n)) (first_rp False n (link_new n i e t st2)))))"
proof -
  have r: "ranges st2 ! n = stamp origin tag (ranges st1 ! n)"
    using assms(4) st2 by (simp add: put_range_def put_lists_def used_lists_def Let_def)
  show ?thesis
    using assms(1-3) i unfolding r
    by (auto simp: add_rp_grp_entry_from_def stamp_def [symmetric] st2 [symmetric] top_priority_def link_new_def r e
        used_lists_def put_lists_def Let_def split: prod.splits list.splits)
qed


lemma add_grp_mask_frame:
  assumes "add_grp_mask False a k h st = Some (n, st1)" "unat (rs_set_entries st) = length (ranges st)"
  shows "rs_norp st1 = rs_norp st" "rs_ssm st1 = rs_ssm st" "rs_autorp st1 = rs_autorp st"
    "unat (rs_set_entries st1) = length (ranges st1)"
proof -
  have inc: "unat (x + 1) = Suc (unat x)" if "x < y" for x y :: u32
    using that unsigned_less [of y, where ?'a = nat] by (simp add: unat_word_ariths word_less_nat_alt)
  show "rs_norp st1 = rs_norp st" "rs_ssm st1 = rs_ssm st" "rs_autorp st1 = rs_autorp st" "unat (rs_set_entries st1) = length (ranges st1)"
    using assms inc [of "rs_set_entries st" "rs_set_limit st"]
    by (auto simp: add_grp_mask_def used_lists_def put_lists_def Let_def not_le split: prod.splits if_splits)
qed

lemma link_new_adds:
  fixes t :: u16
  assumes ready: "range_ready a k n (ranges st2)" and new: "rp_grp_place p b (gm_grp_rp (ranges st2 ! n)) = (i, False)"
    and room: "gm_group_rp_number (ranges st2 ! n) < 255" and e: "re_priority e = p" "re_rp e = b" "re_grplink e = []"
  defines "s1 \<equiv> link_new n i e t st2"
  shows "adds_entry s1 n e (pool (ranges st2)) (top_priority (ranges st2 ! n))" "khung s1 = khung st2"
    "rs_norp s1 = rs_norp st2" "rs_ssm s1 = rs_ssm st2" "rs_autorp s1 = rs_autorp st2" "rs_set_entries s1 = rs_set_entries st2"
    "length (ranges s1) = length (ranges st2)"
proof -
  let ?m = "ranges st2 ! n"
  define m' where "m' = ?m\<lparr>gm_group_rp_number := gm_group_rp_number ?m + 1, gm_grp_rp := insert_nth i e (gm_grp_rp ?m)\<rparr>"
  have r: "ranges s1 = (ranges st2)[n := m']" by (simp add: s1_def link_new_def m'_def Let_def)
  have n: "n < length (ranges st2)" and sane: "range_sane ?m" using ready by (simp_all add: range_ready_def)
  have m': "rid m' = rid ?m" "gm_grp_rp m' = insert_nth i e (gm_grp_rp ?m)" "gm_group_rp_number m' = gm_group_rp_number ?m + 1"
    by (simp_all add: m'_def rid_def range_prefix_def)
  have "\<not> snd (rp_grp_place p b (gm_grp_rp ?m))" "i = fst (rp_grp_place p b (gm_grp_rp ?m))" using new by simp_all
  note l = link_entry [OF ready this(1) e(1,2) room this(2) m']
  have old: "re_priority e' \<ge> top_priority ?m" if "e' \<in> set (gm_grp_rp ?m)" for e'
    using that sane by (fastforce simp: top_priority_def range_sane_def entry_before_def split: list.splits)
  have "\<exists>e'. re_priority e' = top_priority ?m \<and> (rid ?m, eid e') \<in> pool (ranges st2)" if "gm_group_rp_number m' \<noteq> 1"
  proof -
    have "gm_grp_rp ?m \<noteq> []" using that sane m'(3) by (auto simp: range_sane_def unat_eq_0)
    then show ?thesis using n by (cases "gm_grp_rp ?m") (auto simp: top_priority_def pool_iff intro!: bexI [of _ ?m])
  qed
  then show "adds_entry s1 n e (pool (ranges st2)) (top_priority ?m)"
    unfolding adds_entry_def r using l n m'(1,2) old by (auto simp: Let_def)
  have "gkeys g m' = gkeys g ?m" for g using e(3) m'(1,2) by (auto simp: gkeys_def)
  then show "khung s1 = khung st2" using khung_update [OF n _ r] by blast
  show "rs_norp s1 = rs_norp st2" "rs_ssm s1 = rs_ssm st2" "rs_autorp s1 = rs_autorp st2" "rs_set_entries s1 = rs_set_entries st2"
    "length (ranges s1) = length (ranges st2)"
    unfolding r by (simp_all add: s1_def link_new_def Let_def)
qed

lemma added_rp_set_ok:
  assumes ok: "rp_set_ok st" and s: "same_pool st st2" and cnt: "unat (rs_set_entries st2) = length (ranges st2)"
    and ready: "range_ready a k n (ranges st2)" and new: "rp_grp_place p b (gm_grp_rp (ranges st2 ! n)) = (i, False)"
    and room: "gm_group_rp_number (ranges st2 ! n) < 255" and e: "re_priority e = p" "re_rp e = b" "re_grplink e = []"
  shows "rp_set_ok (remap_best False n p (top_priority (ranges st2 ! n)) (first_rp False n (link_new n i e t st2)))"
proof -
  define s1 where "s1 = link_new n i e t st2"
  define s2 where "s2 = first_rp False n s1"
  define s3 where "s3 = remap_best False n p (top_priority (ranges st2 ! n)) s2"
  note a = link_new_adds [OF ready new room e, of t, folded s1_def]
  have ok1: "ranges_ok (ranges s1)" and n: "n < length (ranges s1)" using a(1) by (simp_all add: adds_entry_def Let_def)
  have r12: "regroups s1 s2" using first_rp_walk [of s1 n] by (simp add: s2_def)
  have n2: "n < length (ranges s2)" using n regroups_frame(2) [OF r12] by simp
  have r13: "regroups s1 s3" using regroups_trans [OF r12] remap_best_walk [OF n2] by (simp add: s3_def)
  note f = regroups_frame [OF r13]
  have "placed s3 g" if "\<not> autorp_denied (rs_autorp s3) g" for g
  proof -
    have u: "\<not> autorp_denied (rs_autorp st) g" "\<not> autorp_denied (rs_autorp s1) g" using that f a s by (simp_all add: same_pool_def)
    have "placed st g" using ok u(1) by (simp add: rp_set_ok_def current_iff)
    then have "(\<forall>k\<in>khung s1 g. \<not> is_ssm_group (rs_ssm s1) g \<and> pool_best g (pool (ranges st2)) k) \<and>
        (g \<in> set (rs_norp s1) \<longrightarrow> is_ssm_group (rs_ssm s1) g \<or> (\<forall>k\<in>pool (ranges st2). \<not> kcov g k))"
      using placed_pool [of st g] ok u(1) a(2-4) s by (simp add: rp_set_ok_def same_pool_def)
    then show ?thesis using added_placed [OF a(1) u(2)] e(1) unfolding s3_def s2_def by blast
  qed
  then have "rp_set_ok s3" using f ok1 a(6,7) cnt by (simp add: rp_set_ok_def current_iff)
  then show ?thesis by (simp add: s3_def s2_def s1_def)
qed

text \<open>What \<open>add_rp_grp_entry_from\<close> comes to: the pool stays as it is, or one entry is new.\<close>

lemma add_outcomes:
  assumes ok: "set_shape st" and k: "inet_valid_mask (ntohl k)"
    and st': "st' = snd (add_rp_grp_entry_from False b p t a k h tag origin st)"
  obtains (quiet) "ranges_ok (ranges st')" "same_pool st st'" "unat (rs_set_entries st') = length (ranges st')"
  | (new) n i e st2 where "same_pool st st2" "unat (rs_set_entries st2) = length (ranges st2)" "range_ready a k n (ranges st2)"
      "rp_grp_place p b (gm_grp_rp (ranges st2 ! n)) = (i, False)" "gm_group_rp_number (ranges st2 ! n) < 255"
      "re_priority e = p" "re_rp e = b" "re_grplink e = []"
      "st' = update_bootstrap_timer (remap_best False n p (top_priority (ranges st2 ! n)) (first_rp False n (link_new n i e t st2)))"
proof (cases rule: add_cases [of b p t a k h tag origin st])
  case same
  then show ?thesis using quiet ok st' by (simp add: set_shape_def same_pool_def)
next
  case (range n st1 st2)
  have o: "ranges_ok (ranges st)" "unat (rs_set_entries st) = length (ranges st)" using ok by (simp_all add: set_shape_def)
  note f = add_grp_mask_frame [OF range(1) o(2)] and g = add_grp_mask_ready [OF o(1) k range(1)]
  have n: "n < length (ranges st1)" using g(1) by (simp add: range_ready_def)
  have ready: "range_ready a k n (ranges st2)" and s2: "same_pool st1 st2"
    using retag_ready [OF g(1), of "stamp origin tag (ranges st1 ! n)"] range(4) by simp_all
  have s: "same_pool st st2" using s2 f g by (simp add: same_pool_def)
  have cnt: "unat (rs_set_entries st2) = length (ranges st2)"
    using f(4) range(4) by (simp add: put_range_def put_lists_def used_lists_def Let_def)
  obtain i found where i: "rp_grp_place p b (gm_grp_rp (ranges st2 ! n)) = (i, found)" by fastforce
  note add = add_in_range [OF range(1-3) n range(4) i [symmetric] refl]
  consider (found) found | (full) "\<not> found" "gm_group_rp_number (ranges st2 ! n) \<ge> 255" | (room) "\<not> found" "gm_group_rp_number (ranges st2 ! n) < 255"
    using not_le by blast
  then show ?thesis
  proof cases
    case found
    then have il: "i < length (gm_grp_rp (ranges st2 ! n))" using rp_grp_place_found [of p b "gm_grp_rp (ranges st2 ! n)"] i by simp
    have ok2: "ranges_ok (ranges st2)" and n2: "n < length (ranges st2)" using ready_ok [OF ready] il ready by (fastforce simp: range_ready_def)+
    note u = upd_entry_keeps [OF ok2 n2 il, of "refresh_entry origin t tag"]
    show ?thesis using quiet found u same_pool_trans [OF s] cnt unfolding st' add by simp
  next
    case full
    have "unat (255 :: u8) \<le> unat (gm_group_rp_number (ranges st2 ! n))" using full(2) by (simp only: word_le_nat_alt)
    then have ne: "gm_grp_rp (ranges st2 ! n) \<noteq> []" using ready by (auto simp: range_ready_def range_sane_def)
    show ?thesis using quiet full ne ready_ok [OF ready ne] s cnt unfolding st' add by (simp add: pim_max_rp_per_range_def)
  next
    case room
    show ?thesis by (rule new [OF s cnt ready _ room(2)]) (use room i in \<open>simp_all add: st' add pim_max_rp_per_range_def not_le [symmetric]\<close>)
  qed
qed

lemma added_shape:
  assumes cnt: "unat (rs_set_entries st2) = length (ranges st2)"
    and ready: "range_ready a k n (ranges st2)" and new: "rp_grp_place p b (gm_grp_rp (ranges st2 ! n)) = (i, False)"
    and room: "gm_group_rp_number (ranges st2 ! n) < 255" and e: "re_priority e = p" "re_rp e = b" "re_grplink e = []"
  shows "set_shape (update_bootstrap_timer (remap_best False n p q (first_rp False n (link_new n i e t st2))))"
proof -
  let ?s = "link_new n i e t st2"
  note a = link_new_adds [OF ready new room e, of t]
  have ok: "ranges_ok (ranges ?s)" and n: "n < length (ranges ?s)" using a(1) by (simp_all add: adds_entry_def Let_def)
  have r: "regroups ?s (first_rp False n ?s)" using first_rp_walk [of ?s n] by simp
  have "n < length (ranges (first_rp False n ?s))" using n regroups_frame(2) [OF r] by simp
  then have "regroups ?s (remap_best False n p q (first_rp False n ?s))" using regroups_trans [OF r] remap_best_walk by blast
  note f = regroups_frame [OF this]
  show ?thesis using f ok a(6,7) cnt by (simp add: set_shape_def)
qed

lemma add_shape:
  assumes "set_shape st" "inet_valid_mask (ntohl k)"
  shows "set_shape (snd (add_rp_grp_entry_from False b p t a k h tag origin st))"
  using assms refl [of "snd (add_rp_grp_entry_from False b p t a k h tag origin st)"]
proof (cases rule: add_outcomes)
  case quiet
  then show ?thesis by (simp add: set_shape_def)
next
  case (new n i e st2)
  then show ?thesis using added_shape [OF new(2-8)] by simp
qed

lemma add_rp_set_ok:
  assumes ok: "rp_set_ok st" and k: "inet_valid_mask (ntohl k)"
  shows "rp_set_ok (snd (add_rp_grp_entry_from False b p t a k h tag origin st))"
  using conjunct1 [OF ok [unfolded rp_set_ok_shape]] k refl [of "snd (add_rp_grp_entry_from False b p t a k h tag origin st)"]
proof (cases rule: add_outcomes)
  case quiet
  then show ?thesis using ok same_pool_current [of st] by (simp add: rp_set_ok_def)
next
  case (new n i e st2)
  then show ?thesis using added_rp_set_ok [OF ok new(1-8)] by simp
qed

end
