(* ===== verification/Rp_Delete.thy ===== *)
theory Rp_Delete
  imports Rp_Inv
begin

text \<open>
  Taking entries and ranges out of the RP set keeps its invariant, and neither adding nor removing
  loses a group: one that had a place still has one, unless it is left without an RP and has no state
  of a source tree.
\<close>


section \<open>A smaller pool\<close>

lemma khung_pool: "khung st g \<subseteq> pool (ranges st)"
  by (auto simp: khung_def pool_def)

definition shrinks :: "rp_state \<Rightarrow> rp_state \<Rightarrow> u32 set \<Rightarrow> bool" where
  "shrinks st st' G \<longleftrightarrow> pool (ranges st') \<subseteq> pool (ranges st) \<and> (\<forall>g. khung st' g \<subseteq> khung st g) \<and>
     (\<forall>g. g \<notin> G \<longrightarrow> khung st' g = khung st g) \<and> rs_norp st' = rs_norp st \<and>
     rs_ssm st' = rs_ssm st \<and> rs_autorp st' = rs_autorp st \<and> rs_sources st' = rs_sources st"

lemma shrinks_trans: "shrinks a b G \<Longrightarrow> shrinks b c H \<Longrightarrow> shrinks a c (G \<union> H)"
  by (simp add: shrinks_def) (meson subset_trans)

lemma pool_best_subset: "pool_best g P k \<Longrightarrow> P' \<subseteq> P \<Longrightarrow> k \<in> P' \<Longrightarrow> pool_best g P' k"
  by (auto simp: pool_best_def)

lemma shrinks_current:
  assumes "ranges_ok (ranges st)" "ranges_ok (ranges st')" "shrinks st st' G" "current st"
  shows "current st'"
  unfolding current_iff
proof (intro allI impI)
  fix g assume u: "\<not> autorp_denied (rs_autorp st') g"
  then have u': "\<not> autorp_denied (rs_autorp st) g" and "placed st g" using assms(3,4) by (auto simp: shrinks_def current_iff)
  then have p: "\<forall>k\<in>khung st g. \<not> is_ssm_group (rs_ssm st) g \<and> pool_best g (pool (ranges st)) k"
      "g \<in> set (rs_norp st) \<longrightarrow> is_ssm_group (rs_ssm st) g \<or> (\<forall>k\<in>pool (ranges st). \<not> kcov g k)"
    using placed_pool [OF assms(1)] by blast+
  have s: "pool (ranges st') \<subseteq> pool (ranges st)" "khung st' g \<subseteq> khung st g" "rs_norp st' = rs_norp st" "rs_ssm st' = rs_ssm st"
    using assms(3) by (simp_all add: shrinks_def)
  have "\<not> is_ssm_group (rs_ssm st') g \<and> pool_best g (pool (ranges st')) k" if "k \<in> khung st' g" for k
    using that p(1) s pool_best_subset [of g "pool (ranges st)" k "pool (ranges st')"] khung_pool [of st' g] by auto
  moreover have "g \<in> set (rs_norp st') \<longrightarrow> is_ssm_group (rs_ssm st') g \<or> (\<forall>k\<in>pool (ranges st'). \<not> kcov g k)" using p(2) s by auto
  ultimately show "placed st' g" using placed_pool [OF assms(2) u] by blast
qed

text \<open>A group is tracked while it hangs off an entry or is on the list of those without an RP.\<close>

definition tracked :: "rp_state \<Rightarrow> u32 \<Rightarrow> bool" where
  "tracked st g \<longleftrightarrow> list_ex (\<lambda>m. list_ex (\<lambda>e. g \<in> set (re_grplink e)) (gm_grp_rp m)) (ranges st) \<or> g \<in> set (rs_norp st)"

definition loses_none :: "rp_state \<Rightarrow> rp_state \<Rightarrow> bool" where
  "loses_none st st' \<longleftrightarrow> (\<forall>g. tracked st g \<longrightarrow> tracked st' g \<or> rp_grp_match st' g = None \<and> g \<notin> set (rs_sources st'))"

lemma tracked_khung: "tracked st g \<longleftrightarrow> khung st g \<noteq> {} \<or> g \<in> set (rs_norp st)"
  by (auto simp: tracked_def khung_def list_ex_iff)

lemma tracked_located: "tracked st g \<longleftrightarrow> located st g \<noteq> ({}, False)"
  by (auto simp: tracked_khung located_def khung_hung)

lemma home_tracked: "located st g = home st g \<Longrightarrow> tracked st g \<or> rp_grp_match st g = None \<and> g \<notin> set (rs_sources st)"
  by (auto simp: tracked_located home_def split: option.splits)

lemma shrinks_loses_none:
  assumes "shrinks st s1 G" "regroups s1 st'" "\<And>g. g \<in> G \<Longrightarrow> located st' g = home s1 g"
  shows "loses_none st st'"
  unfolding loses_none_def
proof (intro allI impI)
  fix g assume t: "tracked st g"
  have h: "home st' = home s1" by (rule regroups_home [OF assms(2)])
  show "tracked st' g \<or> rp_grp_match st' g = None \<and> g \<notin> set (rs_sources st')"
  proof (cases "g \<in> G \<or> located st' g = home s1 g")
    case True
    then have "located st' g = home st' g" using assms(3) h by auto
    then show ?thesis by (rule home_tracked)
  next
    case False
    then have "located st' g = located s1 g" using assms(2) by (auto simp: regroups_def)
    moreover have "tracked s1 g" using t False assms(1) by (auto simp: tracked_khung shrinks_def)
    ultimately show ?thesis by (simp add: tracked_located)
  qed
qed


section \<open>Deleting a range\<close>

lemma release_rp_regroups: "regroups st (release_rp False a k st)"
  by (simp add: regroups_def core_def located_def hung_def release_rp_def put_lists_def used_lists_def Let_def)

definition release_entry :: "grp_mask \<Rightarrow> rp_grp_entry \<Rightarrow> rp_state \<Rightarrow> rp_state" where
  "release_entry m e st = release_rp False (re_rp e) (range_key m e) (fold remap_grpentry (re_grplink e) st)"

lemma release_entry_walk:
  "regroups st (release_entry m e st) \<and> (\<forall>g\<in>set (re_grplink e). located (release_entry m e st) g = home st g)"
proof -
  let ?s = "fold remap_grpentry (re_grplink e) st"
  have 1: "regroups st ?s" "\<forall>g\<in>set (re_grplink e). located ?s g = home st g" using fold_remap [of st "re_grplink e"] by simp_all
  have 2: "regroups ?s (release_entry m e st)" unfolding release_entry_def by (rule release_rp_regroups)
  show ?thesis using regroups_trans [OF 1(1) 2] 1(2) home_stays [OF 1(1) 2] by blast
qed

lemma release_entries_walk:
  "regroups st (fold (release_entry m) es st) \<and>
   (\<forall>e\<in>set es. \<forall>g\<in>set (re_grplink e). located (fold (release_entry m) es st) g = home st g)"
  using walk_fold [of es st "release_entry m" "\<lambda>e loc g. g \<in> set (re_grplink e)"] release_entry_walk by blast

definition drop_range :: "nat \<Rightarrow> rp_state \<Rightarrow> rp_state" where
  "drop_range n st = st\<lparr>rs_main := (rs_main st)\<lparr>rl_grp := remove_nth n (ranges st)\<rparr>\<rparr>"

definition dec_entries :: "rp_state \<Rightarrow> rp_state" where
  "dec_entries st = (if 0 < rs_set_entries st then st\<lparr>rs_set_entries := rs_set_entries st - 1\<rparr> else st)"

lemma delete_grp_mask_entry_eq:
  "delete_grp_mask_entry False n st = dec_entries (fold (release_entry (ranges st ! n)) (gm_grp_rp (ranges st ! n)) (drop_range n st))"
  by (simp add: delete_grp_mask_entry_def release_entry_def [abs_def] dec_entries_def drop_range_def used_lists_def put_lists_def Let_def)

lemma drop_range_shrinks:
  assumes "n < length (ranges st)"
  shows "shrinks st (drop_range n st) (\<Union>e\<in>set (gm_grp_rp (ranges st ! n)). set (re_grplink e))"
proof -
  have r: "ranges (drop_range n st) = remove_nth n (ranges st)" by (simp add: drop_range_def)
  have s: "set (ranges st) = insert (ranges st ! n) (set (remove_nth n (ranges st)))" by (rule remove_nth_split [OF assms])
  have "gkeys g (ranges st ! n) = {}" if "g \<notin> (\<Union>e\<in>set (gm_grp_rp (ranges st ! n)). set (re_grplink e))" for g
    using that by (auto simp: gkeys_def)
  then show ?thesis using s unfolding shrinks_def pool_keys khung_gkeys r by (auto simp: drop_range_def)
qed

lemma drop_range_ok: "ranges_ok (ranges st) \<Longrightarrow> ranges_ok (ranges (drop_range n st))"
  using remove_nth_sorted [of range_before "ranges st" n] remove_nth_set [of n "ranges st"]
  by (auto simp: ranges_ok_def drop_range_def list_all_iff)


lemma dec_entries_simps [simp]:
  "rs_main (dec_entries st) = rs_main st" "rs_norp (dec_entries st) = rs_norp st" "rs_ssm (dec_entries st) = rs_ssm st"
  "rs_autorp (dec_entries st) = rs_autorp st" "rs_sources (dec_entries st) = rs_sources st"
  by (simp_all add: dec_entries_def)

lemma same_lists:
  assumes "rs_main st' = rs_main st" "rs_norp st' = rs_norp st" "rs_ssm st' = rs_ssm st" "rs_autorp st' = rs_autorp st"
    "rs_sources st' = rs_sources st"
  shows "current st' \<longleftrightarrow> current st" "loses_none s st' \<longleftrightarrow> loses_none s st"
  using rp_grp_match_cong [OF assms(1,3,4)] assms by (simp_all add: current_def loses_none_def tracked_def)

lemma unat_dec: "0 < x \<Longrightarrow> unat (x - 1) = unat x - 1" for x :: u32
  by (simp add: unat_minus_one word_gt_0_no)

lemma regroups_current: "regroups st st' \<Longrightarrow> current st \<Longrightarrow> current st'"
  using regroups_placed regroups_frame(4) by (metis current_iff)

lemma delete_mask_set_shape:
  assumes "set_shape st" "n < length (ranges st)"
  shows "set_shape (delete_grp_mask_entry False n st)"
proof -
  define s1 where "s1 = drop_range n st"
  define s2 where "s2 = fold (release_entry (ranges st ! n)) (gm_grp_rp (ranges st ! n)) s1"
  have "regroups s1 s2" using release_entries_walk [of s1 "ranges st ! n" "gm_grp_rp (ranges st ! n)"] by (simp add: s2_def)
  note f = regroups_frame [OF this]
  have len: "length (ranges s1) = length (ranges st) - 1" "rs_set_entries s1 = rs_set_entries st"
    using remove_nth_length [OF assms(2)] by (simp_all add: s1_def drop_range_def)
  have "0 < rs_set_entries st" using assms by (auto simp: word_less_nat_alt set_shape_def)
  then have "unat (rs_set_entries (dec_entries s2)) = length (ranges s2)"
    using f len assms(1) unat_dec [of "rs_set_entries st"] by (simp add: dec_entries_def set_shape_def)
  moreover have "ranges_ok (ranges s1)" using drop_range_ok assms(1) by (simp add: s1_def set_shape_def)
  ultimately show ?thesis using f by (simp add: delete_grp_mask_entry_eq s2_def s1_def set_shape_def)
qed

lemma delete_grp_mask_entry_ok:
  assumes ok: "rp_set_ok st" and n: "n < length (ranges st)"
  shows "rp_set_ok (delete_grp_mask_entry False n st) \<and> loses_none st (delete_grp_mask_entry False n st) \<and>
    ranges_ok (ranges (drop_range n st))"
proof -
  define s1 where "s1 = drop_range n st"
  define s2 where "s2 = fold (release_entry (ranges st ! n)) (gm_grp_rp (ranges st ! n)) s1"
  have d: "delete_grp_mask_entry False n st = dec_entries s2" by (simp add: delete_grp_mask_entry_eq s2_def s1_def)
  have o: "ranges_ok (ranges st)" "unat (rs_set_entries st) = length (ranges st)" "current st" using ok by (simp_all add: rp_set_ok_def)
  have sh: "shrinks st s1 (\<Union>e\<in>set (gm_grp_rp (ranges st ! n)). set (re_grplink e))" unfolding s1_def by (rule drop_range_shrinks [OF n])
  have o1: "ranges_ok (ranges s1)" unfolding s1_def by (rule drop_range_ok [OF o(1)])
  have r: "regroups s1 s2" "\<And>e g. e \<in> set (gm_grp_rp (ranges st ! n)) \<Longrightarrow> g \<in> set (re_grplink e) \<Longrightarrow> located s2 g = home s1 g"
    using release_entries_walk [of s1 "ranges st ! n" "gm_grp_rp (ranges st ! n)"] by (auto simp: s2_def)
  note f = regroups_frame [OF r(1)]
  have len: "length (ranges s1) = length (ranges st) - 1" "rs_set_entries s1 = rs_set_entries st"
    using remove_nth_length [OF n] by (simp_all add: s1_def drop_range_def)
  have "0 < rs_set_entries st" using o(2) n by (auto simp: word_less_nat_alt)
  then have "unat (rs_set_entries (dec_entries s2)) = length (ranges s2)"
    using f len o(2) unat_dec [of "rs_set_entries st"] by (simp add: dec_entries_def)
  moreover have "current s2" by (rule regroups_current [OF r(1) shrinks_current [OF o(1) o1 sh o(3)]])
  moreover have "loses_none st s2" by (rule shrinks_loses_none [OF sh r(1)]) (use r(2) in blast)
  ultimately show ?thesis using f o1 same_lists [of "dec_entries s2" s2] by (simp add: d rp_set_ok_def s1_def)
qed


section \<open>Deleting an entry\<close>

definition drop_entry :: "nat \<Rightarrow> nat \<Rightarrow> rp_state \<Rightarrow> rp_state" where
  "drop_entry n i st =
     (let m = ranges st ! n
      in put_range False n (m\<lparr>gm_group_rp_number := gm_group_rp_number m - 1, gm_grp_rp := remove_nth i (gm_grp_rp m)\<rparr>) st)"

lemma drop_entry_frame [simp]:
  "length (ranges (drop_entry n i st)) = length (ranges st)" "rs_norp (drop_entry n i st) = rs_norp st"
  "rs_ssm (drop_entry n i st) = rs_ssm st" "rs_autorp (drop_entry n i st) = rs_autorp st"
  "rs_sources (drop_entry n i st) = rs_sources st" "rs_set_entries (drop_entry n i st) = rs_set_entries st"
  by (simp_all add: drop_entry_def put_range_def put_lists_def used_lists_def Let_def)

lemma drop_entry_ranges:
  "ranges (drop_entry n i st) = (ranges st)[n := (ranges st ! n)\<lparr>gm_group_rp_number := gm_group_rp_number (ranges st ! n) - 1,
     gm_grp_rp := remove_nth i (gm_grp_rp (ranges st ! n))\<rparr>]"
  by (simp add: drop_entry_def put_range_def put_lists_def used_lists_def Let_def)

lemma UN_update_sub:
  fixes f :: "'a \<Rightarrow> 'b set"
  assumes "n < length ms" "f m \<subseteq> f (ms ! n)"
  shows "(\<Union>x\<in>set (ms[n := m]). f x) \<subseteq> (\<Union>x\<in>set ms. f x)"
proof -
  have "set (ms[n := m]) \<subseteq> insert m (set ms)" by (rule set_update_subset_insert)
  moreover have "f m \<subseteq> (\<Union>x\<in>set ms. f x)" using assms(2) nth_mem [OF assms(1)] by blast
  ultimately show ?thesis by blast
qed

lemma drop_entry_shrinks:
  assumes "n < length (ranges st)" "i < length (gm_grp_rp (ranges st ! n))"
  shows "shrinks st (drop_entry n i st) (set (re_grplink (gm_grp_rp (ranges st ! n) ! i)))"
proof -
  let ?m = "ranges st ! n"
  define m' where "m' = ?m\<lparr>gm_group_rp_number := gm_group_rp_number ?m - 1, gm_grp_rp := remove_nth i (gm_grp_rp ?m)\<rparr>"
  have r: "ranges (drop_entry n i st) = (ranges st)[n := m']" by (simp add: drop_entry_ranges m'_def)
  have id: "rid m' = rid ?m" "gm_grp_rp m' = remove_nth i (gm_grp_rp ?m)" by (simp_all add: m'_def rid_def range_prefix_def)
  have s: "set (gm_grp_rp ?m) = insert (gm_grp_rp ?m ! i) (set (gm_grp_rp m'))" unfolding id by (rule remove_nth_split [OF assms(2)])
  have sub: "keys m' \<subseteq> keys ?m" "gkeys g m' \<subseteq> gkeys g ?m" for g using s id(1) by (auto simp: keys_def gkeys_def)
  have "gkeys g m' = gkeys g ?m" if "g \<notin> set (re_grplink (gm_grp_rp ?m ! i))" for g
    using s id(1) that by (auto simp: gkeys_def)
  then show ?thesis
    unfolding shrinks_def using UN_update_sub [OF assms(1) sub(1)] UN_update_sub [of n "ranges st" "gkeys g" m' for g, OF assms(1) sub(2)] khung_update [OF assms(1) _ r]
    by (simp add: pool_keys khung_gkeys r)
qed

lemma drop_entry_ok:
  assumes ok: "ranges_ok (ranges st)" and n: "n < length (ranges st)" "i < length (gm_grp_rp (ranges st ! n))"
    and ne: "gm_grp_rp (ranges (drop_entry n i st) ! n) \<noteq> []"
  shows "ranges_ok (ranges (drop_entry n i st))"
proof -
  let ?m = "ranges st ! n"
  define m' where "m' = ?m\<lparr>gm_group_rp_number := gm_group_rp_number ?m - 1, gm_grp_rp := remove_nth i (gm_grp_rp ?m)\<rparr>"
  have r: "ranges (drop_entry n i st) = (ranges st)[n := m']" by (simp add: drop_entry_ranges m'_def)
  have m: "range_ok ?m" using ok n(1) by (simp add: ranges_ok_def list_all_length)
  have "unat (gm_group_rp_number ?m - 1) = unat (gm_group_rp_number ?m) - 1"
    using m n(2) by (intro unat_minus_one) (auto simp: range_ok_def)
  then have "range_ok m'" using m ne n remove_nth_length [OF n(2)] remove_nth_sorted [of entry_before "gm_grp_rp ?m" i] r
    by (simp add: range_ok_def m'_def)
  moreover have "sorted_wrt range_before ((ranges st)[n := m'])"
    using ok by (intro sorted_update) (simp_all add: ranges_ok_def m'_def range_prefix_def)
  ultimately show ?thesis using ok n(1) unfolding r by (auto simp: ranges_ok_def list_all_length nth_list_update)
qed


lemma release_remap_walk:
  "regroups st (fold remap_grpentry gs (release_rp False a k st)) \<and>
   (\<forall>g\<in>set gs. located (fold remap_grpentry gs (release_rp False a k st)) g = home st g)"
proof -
  let ?s = "release_rp False a k st"
  have r: "regroups st ?s" by (rule release_rp_regroups)
  then show ?thesis using fold_remap [of ?s gs] regroups_trans [OF r] regroups_home [OF r] by simp
qed

lemma remove_nth_update: "n < length xs \<Longrightarrow> remove_nth n (xs[n := x]) = remove_nth n xs"
  by (simp add: remove_nth_def)

lemma shrinks_trans_drop:
  assumes "n < length (ranges st)" "i < length (gm_grp_rp (ranges st ! n))" "gm_grp_rp (ranges (drop_entry n i st) ! n) = []"
  shows "shrinks st (drop_range n (drop_entry n i st)) (set (re_grplink (gm_grp_rp (ranges st ! n) ! i)))"
    "ranges (drop_range n (drop_entry n i st)) = remove_nth n (ranges st)"
proof -
  show r: "ranges (drop_range n (drop_entry n i st)) = remove_nth n (ranges st)"
    using assms(1) by (simp add: drop_range_def drop_entry_ranges remove_nth_update)
  have "shrinks (drop_entry n i st) (drop_range n (drop_entry n i st)) {}"
    using drop_range_shrinks [of n "drop_entry n i st"] assms(1,3) by simp
  then show "shrinks st (drop_range n (drop_entry n i st)) (set (re_grplink (gm_grp_rp (ranges st ! n) ! i)))"
    using drop_entry_shrinks [OF assms(1,2)] by (auto simp: shrinks_def)
qed

definition drop_entry_range :: "nat \<Rightarrow> nat \<Rightarrow> rp_state \<Rightarrow> rp_state" where
  "drop_entry_range n i st =
     (let s = drop_entry n i st in if gm_grp_rp (ranges s ! n) = [] then dec_entries (drop_range n s) else s)"

lemma delete_rp_grp_entry_eq:
  assumes "n < length (ranges st)"
  shows "delete_rp_grp_entry False n i st =
    update_bootstrap_timer (fold remap_grpentry (re_grplink (gm_grp_rp (ranges st ! n) ! i))
      (release_rp False (re_rp (gm_grp_rp (ranges st ! n) ! i)) (range_key (ranges st ! n) (gm_grp_rp (ranges st ! n) ! i))
        (drop_entry_range n i st)))"
  using assms
  by (auto simp: delete_rp_grp_entry_def drop_entry_range_def drop_entry_def delete_grp_mask_entry_eq put_range_def
      put_lists_def used_lists_def Let_def)

lemma drop_entry_range_ok:
  assumes ok: "rp_set_ok st" and n: "n < length (ranges st)" "i < length (gm_grp_rp (ranges st ! n))"
  defines "s1 \<equiv> drop_entry_range n i st"
  shows "rp_set_ok s1" "shrinks st s1 (set (re_grplink (gm_grp_rp (ranges st ! n) ! i)))"
proof -
  let ?s = "drop_entry n i st" and ?G = "set (re_grplink (gm_grp_rp (ranges st ! n) ! i))"
  have o: "ranges_ok (ranges st)" "unat (rs_set_entries st) = length (ranges st)" "current st" using ok by (simp_all add: rp_set_ok_def)
  have "rp_set_ok s1 \<and> shrinks st s1 ?G"
  proof (cases "gm_grp_rp (ranges ?s ! n) = []")
    case True
    let ?d = "drop_range n ?s"
    note d = shrinks_trans_drop [OF n True]
    have s1: "s1 = dec_entries ?d" using True by (simp add: s1_def drop_entry_range_def Let_def)
    have okd: "ranges_ok (ranges ?d)" using drop_range_ok [OF o(1), of n] d(2) by (simp add: drop_range_def)
    have cnt: "0 < rs_set_entries ?d" "rs_set_entries ?d = rs_set_entries st" using o(2) n(1) by (auto simp: word_less_nat_alt drop_range_def)
    then have "unat (rs_set_entries s1) = length (ranges s1)"
      using o(2) d(2) remove_nth_length [OF n(1)] unat_dec [OF cnt(1)] by (simp add: s1 dec_entries_def)
    moreover have "current s1" using shrinks_current [OF o(1) okd d(1) o(3)] same_lists(1) [of s1 ?d] by (simp add: s1)
    moreover have "shrinks st s1 ?G" using d(1) by (simp add: s1 shrinks_def khung_def)
    ultimately show ?thesis using okd by (simp add: rp_set_ok_def s1)
  next
    case False
    have s1: "s1 = ?s" using False by (simp add: s1_def drop_entry_range_def Let_def)
    note oks = drop_entry_ok [OF o(1) n False] and sh = drop_entry_shrinks [OF n]
    show ?thesis using shrinks_current [OF o(1) oks sh o(3)] oks sh o(2) by (simp add: s1 rp_set_ok_def)
  qed
  then show "rp_set_ok s1" "shrinks st s1 ?G" by simp_all
qed

lemma drop_entry_range_shape:
  assumes "set_shape st" "n < length (ranges st)" "i < length (gm_grp_rp (ranges st ! n))"
  shows "set_shape (drop_entry_range n i st)"
proof (cases "gm_grp_rp (ranges (drop_entry n i st) ! n) = []")
  case True
  let ?d = "drop_range n (drop_entry n i st)"
  note d = shrinks_trans_drop(2) [OF assms(2,3) True]
  have "ranges_ok (ranges ?d)" using drop_range_ok [of st n] assms(1) d by (simp add: drop_range_def set_shape_def)
  moreover have cnt: "0 < rs_set_entries ?d" "rs_set_entries ?d = rs_set_entries st"
    using assms(1,2) by (auto simp: word_less_nat_alt drop_range_def set_shape_def)
  ultimately show ?thesis
    using True d assms(1) remove_nth_length [OF assms(2)] unat_dec [OF cnt(1)] by (simp add: drop_entry_range_def dec_entries_def set_shape_def Let_def)
next
  case False
  then show ?thesis using drop_entry_ok [OF _ assms(2,3) False] assms(1) by (simp add: drop_entry_range_def set_shape_def Let_def)
qed

lemma delete_entry_set_shape:
  assumes "set_shape st" "n < length (ranges st)" "i < length (gm_grp_rp (ranges st ! n))"
  shows "set_shape (delete_rp_grp_entry False n i st)"
proof -
  have "regroups (drop_entry_range n i st) (fold remap_grpentry gs (release_rp False a k (drop_entry_range n i st)))" for gs a k
    using release_remap_walk by blast
  note f = regroups_frame [OF this]
  show ?thesis using f drop_entry_range_shape [OF assms] by (simp add: delete_rp_grp_entry_eq [OF assms(2)] set_shape_def)
qed

lemma delete_rp_grp_entry_ok:
  assumes ok: "rp_set_ok st" and n: "n < length (ranges st)" "i < length (gm_grp_rp (ranges st ! n))"
  shows "rp_set_ok (delete_rp_grp_entry False n i st) \<and> loses_none st (delete_rp_grp_entry False n i st)"
proof -
  let ?e = "gm_grp_rp (ranges st ! n) ! i" and ?s1 = "drop_entry_range n i st"
  define s2 where "s2 = fold remap_grpentry (re_grplink ?e) (release_rp False (re_rp ?e) (range_key (ranges st ! n) ?e) ?s1)"
  have d: "delete_rp_grp_entry False n i st = update_bootstrap_timer s2" by (simp add: delete_rp_grp_entry_eq [OF n(1)] s2_def)
  note o = drop_entry_range_ok [OF ok n]
  have r: "regroups ?s1 s2" "\<And>g. g \<in> set (re_grplink ?e) \<Longrightarrow> located s2 g = home ?s1 g" using release_remap_walk by (simp_all add: s2_def)
  have "rp_set_ok s2" using regroups_current [OF r(1)] regroups_frame [OF r(1)] o(1) by (simp add: rp_set_ok_def)
  moreover have "loses_none st s2" by (rule shrinks_loses_none [OF o(2) r])
  ultimately show ?thesis using same_lists(2) [of "update_bootstrap_timer s2" s2] by (simp add: d)
qed



section \<open>What a Bootstrap withdraws\<close>

lemma delete_entry_ranges:
  assumes "n < length (ranges st)" "gm_grp_rp (ranges (drop_entry n i st) ! n) \<noteq> []"
  shows "map bare_range (ranges (delete_rp_grp_entry False n i st)) = map bare_range (ranges (drop_entry n i st))"
proof -
  have "drop_entry_range n i st = drop_entry n i st" using assms(2) by (simp add: drop_entry_range_def Let_def)
  then have "core (fold remap_grpentry gs (release_rp False a k (drop_entry_range n i st))) = core (drop_entry n i st)" for gs a k
    using release_remap_walk [of "drop_entry_range n i st" gs a k] by (simp add: regroups_def)
  then show ?thesis unfolding delete_rp_grp_entry_eq [OF assms(1)] update_bootstrap_timer_simps by (metis core_simps(1))
qed

definition kept :: "rp_grp_entry \<Rightarrow> bool" where
  "kept e \<longleftrightarrow> re_origin e AND NOT rp_origin_bsr \<noteq> 0"

lemma kept_bare [simp]: "kept (bare_entry e) = kept e"
  by (simp add: kept_def)

lemma remove_nth_keeps: "list_ex P xs \<Longrightarrow> i < length xs \<Longrightarrow> \<not> P (xs ! i) \<Longrightarrow> list_ex P (remove_nth i xs)"
  using remove_nth_split [of i xs] by (auto simp: list_ex_iff)

lemma bare_kept: "map bare_entry es = map bare_entry es' \<Longrightarrow> list_ex kept es = list_ex kept es'"
  by (metis (mono_tags, lifting) kept_bare list_ex_length length_map nth_map)

lemma bare_entries:
  assumes "map bare_range ms = map bare_range ms'" "n < length ms'"
  shows "n < length ms" "map bare_entry (gm_grp_rp (ms ! n)) = map bare_entry (gm_grp_rp (ms' ! n))"
  using assms by (auto dest: map_eq_imp_length_eq) (metis bare_range_simps(5) length_map nth_map)

definition unmark :: "nat \<Rightarrow> nat \<Rightarrow> rp_state \<Rightarrow> rp_state" where
  "unmark n i st = put_lists False (upd_entry n i (\<lambda>e. e\<lparr>re_origin := re_origin (entry_at False n i st) AND NOT rp_origin_bsr\<rparr>)
     (used_lists False st)) st"

lemma unmark_entries:
  "n < length (ranges st) \<Longrightarrow> gm_grp_rp (ranges (unmark n i st) ! n) =
     (gm_grp_rp (ranges st ! n))[i := (gm_grp_rp (ranges st ! n) ! i)\<lparr>re_origin := re_origin (gm_grp_rp (ranges st ! n) ! i) AND NOT rp_origin_bsr\<rparr>]"
  by (simp add: unmark_def upd_entry_def put_lists_def used_lists_def entry_at_def)

lemma unmark_lists:
  assumes n: "n < length (ranges st)" "i < length (gm_grp_rp (ranges st ! n))"
  shows "length (ranges (unmark n i st)) = length (ranges st)"
    "list_ex kept (gm_grp_rp (ranges (unmark n i st) ! n)) = list_ex kept (gm_grp_rp (ranges st ! n))"
proof -
  show "length (ranges (unmark n i st)) = length (ranges st)" by (simp add: unmark_def upd_entry_def put_lists_def used_lists_def)
  have "kept (gm_grp_rp (ranges (unmark n i st) ! n) ! j) = kept (gm_grp_rp (ranges st ! n) ! j)" for j
    unfolding unmark_entries [OF n(1)] using n(2) by (simp add: nth_list_update kept_def and.assoc)
  then show "list_ex kept (gm_grp_rp (ranges (unmark n i st) ! n)) = list_ex kept (gm_grp_rp (ranges st ! n))"
    by (simp add: list_ex_length unmark_entries [OF n(1)])
qed

lemma unmark_ok:
  assumes ok: "rp_set_ok st" and n: "n < length (ranges st)" "i < length (gm_grp_rp (ranges st ! n))"
  shows "rp_set_ok (unmark n i st)" "length (ranges (unmark n i st)) = length (ranges st)"
    "list_ex kept (gm_grp_rp (ranges (unmark n i st) ! n)) = list_ex kept (gm_grp_rp (ranges st ! n))"
proof -
  have o: "ranges_ok (ranges st)" "unat (rs_set_entries st) = length (ranges st)" "current st" using ok by (simp_all add: rp_set_ok_def)
  note u = upd_entry_keeps [OF o(1) n, of "\<lambda>e. e\<lparr>re_origin := re_origin (entry_at False n i st) AND NOT rp_origin_bsr\<rparr>",
      folded unmark_def, simplified]
  show "rp_set_ok (unmark n i st)" using u same_pool_current [OF o(1) u(1,2) o(3)] o(2) by (simp add: rp_set_ok_def)
qed (rule unmark_lists [OF n])+

lemma bsr_withdraw_step:
  "bsr_withdraw False (Suc k) n i st =
     (if re_origin (entry_at False n i st) AND rp_origin_bsr = 0 then bsr_withdraw False k n (Suc i) st
      else if kept (entry_at False n i st) then bsr_withdraw False k n (Suc i) (unmark n i st)
      else bsr_withdraw False k n i (delete_rp_grp_entry False n i (unmark n i st)))"
  by (simp add: Let_def unmark_def kept_def)

lemma bsr_withdraw_ok:
  "rp_set_ok st \<Longrightarrow> n < length (ranges st) \<Longrightarrow> i + k = length (gm_grp_rp (ranges st ! n)) \<Longrightarrow>
   list_ex kept (gm_grp_rp (ranges st ! n)) \<Longrightarrow> rp_set_ok (bsr_withdraw False k n i st)"
proof (induction k arbitrary: i st)
  case (Suc k)
  let ?es = "gm_grp_rp (ranges st ! n)" and ?s = "unmark n i st"
  have i: "i < length ?es" using Suc.prems(3) by simp
  have e: "entry_at False n i st = ?es ! i" by (simp add: entry_at_def used_lists_def)
  note u = unmark_ok [OF Suc.prems(1,2) i]
  have n': "n < length (ranges ?s)" using u(2) Suc.prems(2) by simp
  have len: "length (gm_grp_rp (ranges ?s ! n)) = length ?es" by (simp add: unmark_entries [OF Suc.prems(2)])
  consider "re_origin (?es ! i) AND rp_origin_bsr = 0" | "re_origin (?es ! i) AND rp_origin_bsr \<noteq> 0" "kept (?es ! i)"
    | "re_origin (?es ! i) AND rp_origin_bsr \<noteq> 0" "\<not> kept (?es ! i)" by blast
  then show ?case
  proof cases
    case 1
    then show ?thesis using Suc.IH [of st "Suc i"] Suc.prems by (simp only: bsr_withdraw_step e) simp
  next
    case 2
    then show ?thesis using Suc.IH [of ?s "Suc i"] Suc.prems u n' len by (simp only: bsr_withdraw_step e) simp
  next
    case 3
    let ?d = "drop_entry n i ?s" and ?t = "delete_rp_grp_entry False n i ?s"
    have i': "i < length (gm_grp_rp (ranges ?s ! n))" using i len by simp
    have "\<not> kept (gm_grp_rp (ranges ?s ! n) ! i)" using 3(2) i by (simp add: unmark_entries [OF Suc.prems(2)] kept_def and.assoc)
    then have ex: "list_ex kept (gm_grp_rp (ranges ?d ! n))" using remove_nth_keeps [of kept "gm_grp_rp (ranges ?s ! n)" i] i' u(3) Suc.prems(4) n'
      by (simp add: drop_entry_ranges)
    then have ne: "gm_grp_rp (ranges ?d ! n) \<noteq> []" by auto
    note b = bare_entries [OF delete_entry_ranges [OF n' ne]]
    have nd: "n < length (ranges ?d)" using n' by simp
    have "length (gm_grp_rp (ranges ?t ! n)) = length (gm_grp_rp (ranges ?d ! n))" using b(2) [OF nd] by (metis length_map)
    then have "i + k = length (gm_grp_rp (ranges ?t ! n))" using Suc.prems(3) len remove_nth_length [OF i'] n' by (simp add: drop_entry_ranges)
    moreover have "list_ex kept (gm_grp_rp (ranges ?t ! n))" using bare_kept [OF b(2) [OF nd]] ex by simp
    ultimately have "rp_set_ok (bsr_withdraw False k n i ?t)"
      using Suc.IH [of ?t i] delete_rp_grp_entry_ok [OF u(1) n' i'] b(1) [OF nd] by simp
    then show ?thesis using 3 by (simp only: bsr_withdraw_step e) simp
  qed
qed simp

lemma find_grp_mask_valid: "find_grp_mask a k n ms = Some j \<Longrightarrow> n \<le> j \<and> j < n + length ms"
  by (induction a k n ms rule: find_grp_mask.induct) (fastforce split: if_splits)+

lemma delete_grp_mask_ok:
  assumes "rp_set_ok st"
  shows "rp_set_ok (delete_grp_mask False a k st)"
proof (cases "find_grp_mask a k 0 (ranges st)")
  case None
  then show ?thesis using assms by (simp add: delete_grp_mask_def used_lists_def)
next
  case (Some n)
  have n: "n < length (ranges st)" using find_grp_mask_valid [OF Some] by simp
  have "delete_grp_mask False a k st = (if \<not> list_ex kept (gm_grp_rp (ranges st ! n)) then delete_grp_mask_entry False n st
      else bsr_withdraw False (length (gm_grp_rp (ranges st ! n))) n 0 st)"
    using Some by (simp add: delete_grp_mask_def used_lists_def kept_def [abs_def])
  then show ?thesis using delete_grp_mask_entry_ok [OF assms n] bsr_withdraw_ok [OF assms n, of 0] by simp
qed



section \<open>Deleting an RP\<close>

lemma delete_rp_mask_ok:
  assumes ok: "rp_set_ok st" and n: "n < length (ranges st)" "i < length (gm_grp_rp (ranges st ! n))"
  shows "rp_set_ok (delete_grp_mask_entry False n (drop_entry n i st))"
proof -
  let ?s = "drop_entry n i st" and ?d = "drop_range n (drop_entry n i st)"
  define s2 where "s2 = fold (release_entry (ranges ?s ! n)) (gm_grp_rp (ranges ?s ! n)) ?d"
  have o: "ranges_ok (ranges st)" "unat (rs_set_entries st) = length (ranges st)" "current st" using ok by (simp_all add: rp_set_ok_def)
  have r: "ranges ?d = remove_nth n (ranges st)" using n(1) by (simp add: drop_range_def drop_entry_ranges remove_nth_update)
  have okd: "ranges_ok (ranges ?d)" using drop_range_ok [OF o(1), of n] r by (simp add: drop_range_def)
  have nd: "n < length (ranges ?s)" using n(1) by simp
  note sh = shrinks_trans [OF drop_entry_shrinks [OF n] drop_range_shrinks [OF nd]]
  have g: "regroups ?d s2" using release_entries_walk unfolding s2_def by blast
  have "current s2" by (rule regroups_current [OF g shrinks_current [OF o(1) okd sh o(3)]])
  moreover have "0 < rs_set_entries st" using o(2) n(1) by (auto simp: word_less_nat_alt)
  then have "unat (rs_set_entries (dec_entries s2)) = length (ranges s2)"
    using regroups_frame [OF g] o(2) r remove_nth_length [OF n(1)] unat_dec [of "rs_set_entries st"] by (simp add: dec_entries_def drop_range_def)
  ultimately show ?thesis using regroups_frame(1) [OF g] okd same_lists(1) [of "dec_entries s2" s2]
    by (simp add: delete_grp_mask_entry_eq s2_def [symmetric] rp_set_ok_def)
qed

lemma find_entry_valid:
  assumes "find_entry False a k st = Some (n, i)"
  shows "n < length (ranges st) \<and> i < length (gm_grp_rp (ranges st ! n)) \<and> re_rp (gm_grp_rp (ranges st ! n) ! i) = a"
proof -
  have find: "find P [0..<m] = Some x \<Longrightarrow> x < m \<and> P x" for P m x by (auto simp: find_Some_iff)
  show ?thesis using assms by (auto simp: find_entry_def used_lists_def Let_def bind_eq_Some_conv dest!: find)
qed

lemma fold_remap_ok: "rp_set_ok st \<Longrightarrow> rp_set_ok (fold remap_grpentry gs st)"
  using fold_remap [of st gs] regroups_current [of st "fold remap_grpentry gs st"] regroups_frame [of st "fold remap_grpentry gs st"]
  by (simp add: rp_set_ok_def)

lemma delete_rp_loop_ok: "rp_set_ok st \<Longrightarrow> delete_rp_loop False a ks st = Some st' \<Longrightarrow> rp_set_ok st'"
proof (induction ks arbitrary: st rule: length_induct)
  case (1 ks)
  show ?case
  proof (cases ks)
    case Nil
    then show ?thesis using 1 by simp
  next
    case (Cons k ks')
    obtain n i where f: "find_entry False a k st = Some (n, i)" using "1.prems"(2) Cons by (auto simp: bind_eq_Some_conv)
    note v = find_entry_valid [OF f]
    let ?m = "ranges st ! n"
    let ?was_last = "Suc i = length (gm_grp_rp ?m)"
    define s1 where "s1 = (if ?was_last then delete_grp_mask_entry False n (drop_entry n i st) else drop_entry n i st)"
    define s2 where "s2 = fold remap_grpentry (re_grplink (gm_grp_rp ?m ! i)) s1"
    let ?freed = "\<lambda>k'. ?was_last \<and> fst k' = fst k \<and> fst (snd k') = fst (snd k)"
    have loop: "delete_rp_loop False a (filter (\<lambda>k'. \<not> ?freed k') ks') s2 = Some st'"
      using "1.prems"(2) f Cons by (simp add: used_lists_def drop_entry_def s1_def s2_def Let_def split: if_splits)
    have "rp_set_ok s1"
    proof (cases ?was_last)
      case True
      then show ?thesis using delete_rp_mask_ok [OF "1.prems"(1)] v by (simp add: s1_def)
    next
      case False
      then have ne: "gm_grp_rp (ranges (drop_entry n i st) ! n) \<noteq> []" using v remove_nth_length [of i "gm_grp_rp ?m"] by (auto simp: drop_entry_ranges)
      have "drop_entry_range n i st = drop_entry n i st" using ne by (simp add: drop_entry_range_def Let_def)
      then show ?thesis using drop_entry_range_ok(1) [OF "1.prems"(1), of n i] v False by (simp add: s1_def)
    qed
    then have "rp_set_ok s2" unfolding s2_def by (rule fold_remap_ok)
    moreover have "length (filter (\<lambda>k'. \<not> ?freed k') ks') < length ks" unfolding Cons by (simp only: length_Cons less_Suc_eq_le length_filter_le)
    ultimately show ?thesis using "1.IH" loop by blast
  qed
qed

lemma delete_rp_ok:
  assumes "rp_set_ok st" "delete_rp False a st = Some st'"
  shows "rp_set_ok st'"
proof (cases "rp_find a (rl_cand (rs_main st))")
  case None
  then show ?thesis using assms by (simp add: delete_rp_def used_lists_def)
next
  case (Some c)
  let ?s = "put_lists False ((rs_main st)\<lparr>rl_cand := cand_remove (cr_address c) (rl_cand (rs_main st))\<rparr>) st"
  have r: "regroups st ?s" by (simp add: regroups_def core_def located_def hung_def put_lists_def)
  then have "rp_set_ok ?s" using regroups_current [OF r] regroups_frame [OF r] assms(1) by (simp add: rp_set_ok_def)
  then show ?thesis using assms(2) Some delete_rp_loop_ok by (simp add: delete_rp_def delete_rp_entry_def used_lists_def Let_def)
qed



section \<open>Adding loses no group\<close>

lemma same_pool_loses_none: "same_pool st st' \<Longrightarrow> loses_none st st'"
  by (simp add: same_pool_def loses_none_def tracked_khung)

lemma added_loses_none:
  assumes s: "same_pool st st2" and ready: "range_ready a k n (ranges st2)"
    and new: "rp_grp_place p b (gm_grp_rp (ranges st2 ! n)) = (i, False)"
    and room: "gm_group_rp_number (ranges st2 ! n) < 255" and e: "re_priority e = p" "re_rp e = b" "re_grplink e = []"
  shows "loses_none st (remap_best False n p (top_priority (ranges st2 ! n)) (first_rp False n (link_new n i e t st2)))"
proof -
  define s1 where "s1 = link_new n i e t st2"
  define s2 where "s2 = first_rp False n s1"
  define s3 where "s3 = remap_best False n p (top_priority (ranges st2 ! n)) s2"
  note a = link_new_adds [OF ready new room e, of t, folded s1_def]
  have n: "n < length (ranges s1)" using a(1) by (simp_all add: adds_entry_def Let_def)
  have r12: "regroups s1 s2" using first_rp_walk [of s1 n] by (simp add: s2_def)
  have n2: "n < length (ranges s2)" using n regroups_frame(2) [OF r12] by simp
  have r: "regroups s1 s3" using regroups_trans [OF r12] remap_best_walk [OF n2] by (simp add: s3_def)
  have "tracked s3 g \<or> rp_grp_match s3 g = None \<and> g \<notin> set (rs_sources s3)" if "tracked st g" for g
  proof (cases "located s3 g = home s1 g")
    case True
    then show ?thesis using home_tracked [of s3 g] regroups_home [OF r] by simp
  next
    case False
    then have "located s3 g = located s1 g" using r by (auto simp: regroups_def)
    moreover have "tracked s1 g" using that a(2,3) s by (simp add: tracked_khung same_pool_def)
    ultimately show ?thesis by (simp add: tracked_located)
  qed
  then show ?thesis by (simp add: loses_none_def s3_def s2_def s1_def)
qed

lemma add_loses_none:
  assumes ok: "rp_set_ok st" and k: "inet_valid_mask (ntohl k)"
  shows "loses_none st (snd (add_rp_grp_entry_from False b p t a k h tag origin st))"
  using conjunct1 [OF ok [unfolded rp_set_ok_shape]] k refl [of "snd (add_rp_grp_entry_from False b p t a k h tag origin st)"]
proof (cases rule: add_outcomes)
  case quiet
  then show ?thesis by (intro same_pool_loses_none)
next
  case (new n i e st2)
  then show ?thesis using added_loses_none [OF new(1,3-8)] same_lists(2) [of "update_bootstrap_timer x" x for x] by simp
qed

end
