(* ===== verification/Rp_Keep.thy ===== *)
theory Rp_Keep
  imports Rp_Delete
begin

text \<open>
  What the operations of the RP set keep, stated of the operations themselves, on the example of an RP set of two
  RPs for one range and of one that the configuration gives.
\<close>

text \<open>
  C13: An RP mapping that is added, from a Bootstrap, from Auto-RP or from the configuration, keeps the RP set in order:
  the ranges and the RPs of each stay sorted and counted, and every group that Auto-RP does not deny hangs off the very
  entry \<open>rp_grp_match\<close> gives for it.  No group that had a place before is without one after, except one that has
  no RP and no source.
\<close>

theorem rp_set_add:
  assumes "rp_set_ok st" "inet_valid_mask (ntohl group_mask)"
  shows "rp_set_ok (snd (add_rp_grp_entry_from False rp priority holdtime group_addr group_mask hash tag origin st)) \<and>
    loses_none st (snd (add_rp_grp_entry_from False rp priority holdtime group_addr group_mask hash tag origin st))"
  using add_rp_set_ok [OF assms] add_loses_none [OF assms] by simp

definition two_rps :: rp_state where
  "two_rps = rp_globals\<lparr>rs_set_entries := 1, rs_main := \<lparr>
     rl_cand = [\<lparr>cr_address = 0x0200000a, cr_adv_holdtime = 150, cr_rp_grp = [(0xe0, 0xf0, 1)]\<rparr>,
                \<lparr>cr_address = 0x0100000a, cr_adv_holdtime = 150, cr_rp_grp = [(0xe0, 0xf0, 0)]\<rparr>],
     rl_grp = [\<lparr>gm_group_addr = 0xe0, gm_group_mask = 0xf0, gm_hash_mask = 0xfcffffff, gm_fragment_tag = 7,
       gm_group_rp_number = 2, gm_grp_rp =
       [\<lparr>re_rp = 0x0100000a, re_holdtime = 150, re_autorp_holdtime = 0, re_fragment_tag = 7, re_priority = 0,
         re_origin = 1, re_grplink = [0x010101ef, 0x010101e1]\<rparr>,
        \<lparr>re_rp = 0x0200000a, re_holdtime = 150, re_autorp_holdtime = 0, re_fragment_tag = 7, re_priority = 1,
         re_origin = 1, re_grplink = []\<rparr>]\<rparr>]\<rparr>\<rparr>"

lemma two_rps_ok: "rp_set_ok two_rps"
  by code_simp

lemma two_rps_mask: "inet_valid_mask (ntohl 0xff)"
  by code_simp

theorem rp_set_add_witness:
  "rp_set_ok two_rps \<and> inet_valid_mask (ntohl 0xff) \<and>
   rp_set_ok (snd (add_rp_grp_entry_from False 0x0300000a 1 150 0xef 0xff 0xfcffffff 7 1 two_rps)) \<and>
   loses_none two_rps (snd (add_rp_grp_entry_from False 0x0300000a 1 150 0xef 0xff 0xfcffffff 7 1 two_rps))"
  using rp_set_add [OF two_rps_ok two_rps_mask] two_rps_ok two_rps_mask by blast

definition static_rp :: "u32 \<Rightarrow> u32 \<Rightarrow> rp_state \<Rightarrow> rp_state" where
  "static_rp g k st = snd (add_rp_grp_entry_from False 0x0100000a 1 0xffff g k 0xfcffffff 0 rp_origin_static st)"

definition static_range :: "u32 \<Rightarrow> u32 \<Rightarrow> u32 list \<Rightarrow> grp_mask" where
  "static_range g k gs = \<lparr>gm_group_addr = g, gm_group_mask = k, gm_hash_mask = 0xfcffffff, gm_fragment_tag = 0,
     gm_group_rp_number = 1, gm_grp_rp = [\<lparr>re_rp = 0x0100000a, re_holdtime = 0xffff, re_autorp_holdtime = 0,
       re_fragment_tag = 0, re_priority = 1, re_origin = rp_origin_static, re_grplink = gs\<rparr>]\<rparr>"

definition static_twice :: rp_state where
  "static_twice = rp_globals\<lparr>rs_set_entries := 2, rs_resync := True, rs_main := \<lparr>
     rl_cand = [\<lparr>cr_address = 0x0100000a, cr_adv_holdtime = 0xffff, cr_rp_grp = [(0xef, 0xff, 1), (0xe0, 0xf0, 1)]\<rparr>],
     rl_grp = [static_range 0xe0 0xf0 [], static_range 0xef 0xff [0x010101ef]]\<rparr>\<rparr>"

lemma static_once: "static_rp 0xe0 0xf0 rp_globals = rp_globals\<lparr>rs_set_entries := 1, rs_resync := True, rs_main := \<lparr>
     rl_cand = [\<lparr>cr_address = 0x0100000a, cr_adv_holdtime = 0xffff, cr_rp_grp = [(0xe0, 0xf0, 1)]\<rparr>],
     rl_grp = [static_range 0xe0 0xf0 []]\<rparr>\<rparr>"
  by code_simp

text \<open>
  C14: Removing an RP from a range, withdrawing what a Bootstrap said of a range, or deleting an RP where that reads no freed
  memory keeps the RP set in order, and an entry that goes takes no group with it: its groups move to the
  RP that serves them now.
\<close>

theorem rp_set_remove:
  assumes "rp_set_ok st"
  shows "rp_set_ok (delete_grp_mask False group_addr group_mask st) \<and>
    (delete_rp False rp st = Some st' \<longrightarrow> rp_set_ok st') \<and>
    (n < length (rl_grp (rs_main st)) \<and> i < length (gm_grp_rp (rl_grp (rs_main st) ! n)) \<longrightarrow>
       rp_set_ok (delete_rp_grp_entry False n i st) \<and> loses_none st (delete_rp_grp_entry False n i st))"
  using delete_grp_mask_ok [OF assms] delete_rp_ok [OF assms] delete_rp_grp_entry_ok [OF assms] by blast

lemma static_once_ok: "rp_set_ok (static_rp 0xe0 0xf0 rp_globals)"
  unfolding static_once by code_simp

lemma static_once_deleted: "delete_rp False 0x0100000a (static_rp 0xe0 0xf0 rp_globals) = Some (rp_globals\<lparr>rs_resync := True\<rparr>)"
  unfolding static_once by code_simp

lemma two_rps_moved: "re_grplink (entry_at False 0 0 (delete_rp_grp_entry False 0 0 two_rps)) = [0x010101e1, 0x010101ef]"
  by code_simp

theorem rp_set_remove_witness:
  "rp_set_ok (static_rp 0xe0 0xf0 rp_globals) \<and> rp_set_ok (delete_grp_mask False 0xe0 0xf0 (static_rp 0xe0 0xf0 rp_globals)) \<and>
   rp_set_ok (the (delete_rp False 0x0100000a (static_rp 0xe0 0xf0 rp_globals))) \<and>
   rp_set_ok (delete_rp_grp_entry False 0 0 two_rps) \<and> loses_none two_rps (delete_rp_grp_entry False 0 0 two_rps) \<and>
   re_grplink (entry_at False 0 0 (delete_rp_grp_entry False 0 0 two_rps)) = [0x010101e1, 0x010101ef]"
proof -
  have "0 < length (rl_grp (rs_main two_rps)) \<and> 0 < length (gm_grp_rp (rl_grp (rs_main two_rps) ! 0))" by code_simp
  then show ?thesis
    using rp_set_remove [OF static_once_ok, of "0xe0" "0xf0" "0x0100000a" "rp_globals\<lparr>rs_resync := True\<rparr>" 0 0]
      rp_set_remove [OF two_rps_ok, of "0xe0" "0xf0" "0x0100000a" two_rps 0 0] static_once_ok static_once_deleted two_rps_moved
    by (metis option.sel)
qed

lemma static_both: "remap_grpentry 0x010101ef (static_rp 0xef 0xff (static_rp 0xe0 0xf0 rp_globals)) = static_twice"
  unfolding static_once by code_simp


end
