(* ===== verification/Rp_Cand.thy ===== *)
theory Rp_Cand
  imports Rp_Keep
begin

text \<open>
  The list of candidate RPs and the chained of their entries agree with the ranges: an RP is on the list exactly when
  some range has an entry of it, and its chain has the entries of all ranges that are its.
\<close>


section \<open>Chains\<close>

definition book :: "grp_mask list \<Rightarrow> u32 \<Rightarrow> rp_key set" where
  "book ms a = (\<Union>m\<in>set ms. range_key m ` {e \<in> set (gm_grp_rp m). re_rp e = a})"

definition cand_before :: "cand_rp \<Rightarrow> cand_rp \<Rightarrow> bool" where
  "cand_before c d \<longleftrightarrow> ntohl (cr_address c) > ntohl (cr_address d)"

definition chained :: "cand_rp list \<Rightarrow> (u32 \<Rightarrow> rp_key set) \<Rightarrow> bool" where
  "chained cs B \<longleftrightarrow> sorted_wrt cand_before cs \<and> list_all (\<lambda>c. cr_rp_grp c \<noteq> []) cs \<and> (\<forall>a. set (rp_chain a cs) = B a)"

abbreviation cands :: "rp_state \<Rightarrow> cand_rp list" where
  "cands st \<equiv> rl_cand (rs_main st)"

definition cand_ok :: "rp_state \<Rightarrow> bool" where
  "cand_ok st \<longleftrightarrow> sorted_wrt cand_before (cands st) \<and>
     list_all (\<lambda>c. cr_rp_grp c \<noteq> [] \<and> set (cr_rp_grp c) = book (ranges st) (cr_address c)) (cands st) \<and>
     list_all (\<lambda>m. list_all (\<lambda>e. list_ex (\<lambda>c. cr_address c = re_rp e) (cands st)) (gm_grp_rp m)) (ranges st)"

lemma cand_before_distinct: "sorted_wrt cand_before cs \<Longrightarrow> distinct (map cr_address cs)"
  by (induction cs) (auto simp: cand_before_def)

lemma find_cand:
  assumes "distinct (map cr_address cs)" "c \<in> set cs"
  shows "find (\<lambda>d. cr_address d = cr_address c) cs = Some c"
  using assms by (induction cs) auto

lemma rp_chain_cand: "sorted_wrt cand_before cs \<Longrightarrow> c \<in> set cs \<Longrightarrow> rp_chain (cr_address c) cs = cr_rp_grp c"
  using find_cand [OF cand_before_distinct] by (simp add: rp_chain_def)

lemma rp_chain_none: "\<not> list_ex (\<lambda>c. cr_address c = a) cs \<Longrightarrow> rp_chain a cs = []"
  by (induction cs) (simp_all add: rp_chain_def)

lemma cand_ok_chains: "cand_ok st \<longleftrightarrow> chained (cands st) (book (ranges st))"
proof
  assume ok: "cand_ok st"
  have "set (rp_chain a (cands st)) = book (ranges st) a" for a
  proof (cases "list_ex (\<lambda>c. cr_address c = a) (cands st)")
    case True
    then show ?thesis using ok rp_chain_cand [of "cands st"] by (auto simp: cand_ok_def list_ex_iff list_all_iff)
  next
    case False
    then have "re_rp e \<noteq> a" if "m \<in> set (ranges st)" "e \<in> set (gm_grp_rp m)" for m e
      using ok that unfolding cand_ok_def list_all_iff list_ex_iff by metis
    then have "book (ranges st) a = {}" by (auto simp: book_def)
    then show ?thesis using rp_chain_none [OF False] by simp
  qed
  then show "chained (cands st) (book (ranges st))" using ok by (auto simp: chained_def cand_ok_def list_all_iff)
next
  assume c: "chained (cands st) (book (ranges st))"
  then have s: "sorted_wrt cand_before (cands st)" and e: "set (rp_chain a (cands st)) = book (ranges st) a" for a by (simp_all add: chained_def)
  have "list_ex (\<lambda>c. cr_address c = re_rp e) (cands st)" if "m \<in> set (ranges st)" "e \<in> set (gm_grp_rp m)" for m e
  proof (rule ccontr)
    assume "\<not> list_ex (\<lambda>c. cr_address c = re_rp e) (cands st)"
    then have "book (ranges st) (re_rp e) = {}" using rp_chain_none e by (metis set_empty)
    then show False using that by (auto simp: book_def)
  qed
  then have "list_all (\<lambda>m. list_all (\<lambda>e. list_ex (\<lambda>c. cr_address c = re_rp e) (cands st)) (gm_grp_rp m)) (ranges st)"
    by (simp add: list_all_iff)
  moreover have "cr_rp_grp c \<noteq> [] \<and> set (cr_rp_grp c) = book (ranges st) (cr_address c)" if "c \<in> set (cands st)" for c
    using that c rp_chain_cand [OF s that] e [of "cr_address c"] by (simp add: chained_def list_all_iff)
  ultimately show "cand_ok st" using s by (simp add: cand_ok_def list_all_iff)
qed

lemma rp_chain_unlink: "rp_chain a (cand_unlink b k cs) = (if a = b then removeAll k (rp_chain a cs) else rp_chain a cs)"
  by (induction cs) (auto simp: rp_chain_def cand_unlink_def)

lemma rp_chain_remove: "rp_chain a (cand_remove b cs) = (if a = b then [] else rp_chain a cs)"
  by (induction cs) (auto simp: rp_chain_def cand_remove_def)

definition released :: "u32 \<Rightarrow> rp_key \<Rightarrow> cand_rp list \<Rightarrow> cand_rp list" where
  "released a k cs = (let cs = cand_unlink a k cs in if rp_chain a cs = [] then cand_remove a cs else cs)"

lemma unlink_sorted: "sorted_wrt cand_before cs \<Longrightarrow> sorted_wrt cand_before (cand_unlink a k cs)"
  unfolding cand_unlink_def sorted_wrt_map by (rule sorted_wrt_mono_rel) (auto simp: cand_before_def)

lemma released_chains:
  assumes "chained cs B"
  shows "chained (released a k cs) (B(a := B a - {k}))"
proof -
  let ?u = "cand_unlink a k cs"
  have s: "sorted_wrt cand_before ?u" using assms unlink_sorted by (simp add: chained_def)
  have ne: "cr_rp_grp c \<noteq> []" if "c \<in> set ?u" "cr_address c \<noteq> a \<or> rp_chain a ?u \<noteq> []" for c
  proof (cases "cr_address c = a")
    case True
    then show ?thesis using that rp_chain_cand [OF s that(1)] by simp
  next
    case False
    then show ?thesis using that(1) assms by (auto simp: cand_unlink_def chained_def list_all_iff)
  qed
  have r: "set (rp_chain b ?u) = (B(a := B a - {k})) b" for b using assms by (simp add: rp_chain_unlink chained_def)
  show ?thesis
  proof (cases "rp_chain a ?u = []")
    case True
    then have "B a - {k} = {}" using r by (metis fun_upd_same list.set(1))
    then have "set (rp_chain b (cand_remove a ?u)) = (B(a := B a - {k})) b" for b using r [of b] by (simp add: rp_chain_remove)
    moreover have "list_all (\<lambda>c. cr_rp_grp c \<noteq> []) (cand_remove a ?u)" using ne by (auto simp: list_all_iff cand_remove_def)
    moreover have "sorted_wrt cand_before (cand_remove a ?u)" using s by (simp add: cand_remove_def sorted_wrt_filter)
    ultimately show ?thesis using True by (simp add: released_def chained_def)
  next
    case False
    then show ?thesis using s ne r by (simp add: released_def chained_def list_all_iff)
  qed
qed

definition linked :: "u32 \<Rightarrow> u16 \<Rightarrow> rp_key \<Rightarrow> cand_rp list \<Rightarrow> cand_rp list" where
  "linked a t k cs = map (\<lambda>c. if cr_address c = a then c\<lparr>cr_adv_holdtime := t, cr_rp_grp := k # cr_rp_grp c\<rparr> else c) (add_cand_rp a cs)"

lemma add_cand_set:
  "set (add_cand_rp a cs) \<subseteq> insert \<lparr>cr_address = a, cr_adv_holdtime = 0, cr_rp_grp = []\<rparr> (set cs) \<and> list_ex (\<lambda>c. cr_address c = a) (add_cand_rp a cs)"
  by (induction cs) auto

lemma add_cand_sorted: "sorted_wrt cand_before cs \<Longrightarrow> sorted_wrt cand_before (add_cand_rp a cs)"
proof (induction cs)
  case (Cons c cs)
  have n: "ntohl x = ntohl y \<longleftrightarrow> x = y" for x y by simp
  have "ntohl a > ntohl (cr_address c)" if "\<not> ntohl (cr_address c) > ntohl a" "cr_address c \<noteq> a"
    using that n [of "cr_address c" a] by (metis linorder_less_linear)
  then have "\<forall>d\<in>set (c # cs). ntohl a > ntohl (cr_address d)" if "\<not> ntohl (cr_address c) > ntohl a" "cr_address c \<noteq> a"
    using that Cons.prems by (auto simp: cand_before_def intro: order.strict_trans)
  then show ?case using Cons add_cand_set [of a cs] by (auto simp: cand_before_def)
qed simp

lemma rp_chain_add: "sorted_wrt cand_before cs \<Longrightarrow> rp_chain b (add_cand_rp a cs) = rp_chain b cs"
proof (induction cs)
  case (Cons c cs)
  have "\<not> list_ex (\<lambda>d. cr_address d = a) (c # cs)" if "\<not> ntohl (cr_address c) > ntohl a" "cr_address c \<noteq> a"
    using that Cons.prems by (auto simp: list_ex_iff cand_before_def)
  then show ?case using Cons rp_chain_none [of a "c # cs"] by (auto simp: rp_chain_def)
qed (simp add: rp_chain_def)

lemma linked_chains:
  assumes "chained cs B"
  shows "chained (linked a t k cs) (B(a := insert k (B a)))"
proof -
  define f where "f = (\<lambda>c :: cand_rp. if cr_address c = a then c\<lparr>cr_adv_holdtime := t, cr_rp_grp := k # cr_rp_grp c\<rparr> else c)"
  let ?c = "add_cand_rp a cs"
  have l: "linked a t k cs = map f ?c" by (simp add: linked_def f_def)
  have s: "sorted_wrt cand_before ?c" using assms add_cand_sorted by (simp add: chained_def)
  have f: "cr_address (f c) = cr_address c" "cr_rp_grp (f c) = (if cr_address c = a then k # cr_rp_grp c else cr_rp_grp c)" for c
    by (simp_all add: f_def)
  have "sorted_wrt cand_before (map f ?c)" using s by (simp add: sorted_wrt_map cand_before_def [abs_def] f)
  moreover have "list_all (\<lambda>c. cr_rp_grp c \<noteq> []) (map f ?c)"
    using add_cand_set [of a cs] assms by (auto simp: list_all_iff f chained_def)
  moreover have "rp_chain b (map f xs) = (if b = a \<and> list_ex (\<lambda>c. cr_address c = a) xs then k # rp_chain b xs else rp_chain b xs)" for b xs
    by (induction xs) (auto simp: rp_chain_def f)
  then have "set (rp_chain b (map f ?c)) = (B(a := insert k (B a))) b" for b
    using add_cand_set [of a cs] assms by (auto simp: chained_def rp_chain_add)
  ultimately show ?thesis unfolding l by (simp add: chained_def)
qed



section \<open>The book of the ranges\<close>

definition place_of :: "grp_mask \<Rightarrow> u32 \<times> u32" where
  "place_of m = (gm_group_addr m, gm_group_mask m)"

lemma ranges_distinct: "ranges_ok ms \<Longrightarrow> distinct (map place_of ms)"
proof -
  have "sorted_wrt range_before ms \<Longrightarrow> distinct (map place_of ms)"
    by (induction ms) (auto simp: place_of_def range_before_def range_prefix_def image_iff)
  then show "ranges_ok ms \<Longrightarrow> distinct (map place_of ms)" by (simp add: ranges_ok_def)
qed

lemma entries_distinct: "range_ok m \<Longrightarrow> distinct (map (\<lambda>e. (re_priority e, re_rp e)) (gm_grp_rp m))"
proof -
  have "sorted_wrt entry_before es \<Longrightarrow> distinct (map (\<lambda>e. (re_priority e, re_rp e)) es)" for es
    by (induction es) (auto simp: entry_before_def image_iff)
  then show "range_ok m \<Longrightarrow> distinct (map (\<lambda>e. (re_priority e, re_rp e)) (gm_grp_rp m))" by (simp add: range_ok_def)
qed

definition rkeys :: "grp_mask \<Rightarrow> u32 \<Rightarrow> rp_key set" where
  "rkeys m a = range_key m ` {e \<in> set (gm_grp_rp m). re_rp e = a}"

lemma book_rkeys: "book ms a = (\<Union>m\<in>set ms. rkeys m a)"
  by (simp add: book_def rkeys_def)

lemma rkeys_place: "k \<in> rkeys m a \<Longrightarrow> (fst k, fst (snd k)) = place_of m"
  by (auto simp: rkeys_def range_key_def place_of_def)

lemma book_bare [simp]: "book (map bare_range ms) = book ms"
proof
  fix a
  have "rkeys (bare_range m) a = rkeys m a" for m
    by (auto simp: rkeys_def range_key_def image_iff) (metis bare_entry_simps(1,2))
  then show "book (map bare_range ms) a = book ms a" by (simp add: book_rkeys)
qed

lemma book_core: "core s = core st \<Longrightarrow> book (ranges s) = book (ranges st)"
  by (metis book_bare core_simps(1))

text \<open>Changing one range changes its own keys only.\<close>

lemma book_without:
  assumes "distinct (map place_of ms)" "n < length ms"
  shows "book (remove_nth n ms) a = book ms a - rkeys (ms ! n) a"
proof -
  have "rkeys m a \<inter> rkeys (ms ! n) a = {}" if "m \<in> set (remove_nth n ms)" for m
  proof -
    have "distinct (map place_of (take n ms @ ms ! n # drop (Suc n) ms))"
      unfolding id_take_nth_drop [OF assms(2), symmetric] by (rule assms(1))
    then have "place_of (ms ! n) \<noteq> place_of m" using that by (auto simp: remove_nth_def)
    then have "k \<notin> rkeys (ms ! n) a" if "k \<in> rkeys m a" for k using rkeys_place [OF that] rkeys_place [of k "ms ! n" a] by auto
    then show ?thesis by blast
  qed
  moreover have "book ms a = rkeys (ms ! n) a \<union> book (remove_nth n ms) a"
    using remove_nth_split [OF assms(2)] by (auto simp: book_rkeys)
  ultimately show ?thesis unfolding book_rkeys by blast
qed

lemma book_update:
  assumes "distinct (map place_of ms)" "n < length ms"
  shows "book (ms[n := m]) a = book ms a - rkeys (ms ! n) a \<union> rkeys m a"
proof -
  have "set (ms[n := m]) = insert m (set (remove_nth n ms))" using assms(2) by (auto simp: remove_nth_def upd_conv_take_nth_drop)
  then have "book (ms[n := m]) a = rkeys m a \<union> book (remove_nth n ms) a" by (simp add: book_rkeys)
  then show ?thesis using book_without [OF assms] by auto
qed

lemma rps_insert:
  "{x \<in> insert y S. re_rp x = a} = (if re_rp y = a then insert y {x \<in> S. re_rp x = a} else {x \<in> S. re_rp x = a})"
  by auto

lemma rkeys_without:
  assumes "range_ok m" "i < length (gm_grp_rp m)" "gm_grp_rp m' = remove_nth i (gm_grp_rp m)" "place_of m' = place_of m"
  shows "rkeys m' a = rkeys m a - (if a = re_rp (gm_grp_rp m ! i) then {range_key m (gm_grp_rp m ! i)} else {})"
proof -
  let ?e = "gm_grp_rp m ! i"
  have k: "range_key m' = range_key m" using assms(4) by (simp add: range_key_def place_of_def fun_eq_iff)
  have "distinct (map (\<lambda>e. (re_priority e, re_rp e)) (take i (gm_grp_rp m) @ ?e # drop (Suc i) (gm_grp_rp m)))"
    unfolding id_take_nth_drop [OF assms(2), symmetric] by (rule entries_distinct [OF assms(1)])
  then have d: "(re_priority ?e, re_rp ?e) \<notin> (\<lambda>e. (re_priority e, re_rp e)) ` set (gm_grp_rp m')" by (simp add: assms(3) remove_nth_def image_Un)
  have "re_priority e \<noteq> re_priority ?e \<or> re_rp e \<noteq> re_rp ?e" if "e \<in> set (gm_grp_rp m')" for e
    using imageI [OF that, of "\<lambda>e. (re_priority e, re_rp e)"] d by auto
  then have "range_key m ?e \<notin> rkeys m' (re_rp ?e)" by (auto simp: rkeys_def k range_key_def)
  moreover have "rkeys m a = (if a = re_rp ?e then insert (range_key m ?e) (rkeys m' a) else rkeys m' a)"
    unfolding rkeys_def k assms(3) remove_nth_split [OF assms(2)] rps_insert by simp
  ultimately show ?thesis by (cases "a = re_rp ?e") simp_all
qed


section \<open>What moving groups leaves of the list\<close>

lemma remap_cands [simp]: "cands (remap_grpentry g st) = cands st"
  by (simp add: remap_grpentry_def grp_chain_unlink_def upd_entries_def grp_link_def upd_entry_def Let_def split: option.split)

lemma fold_remap_cands [simp]: "cands (fold remap_grpentry gs st) = cands st"
  by (induction gs arbitrary: st) simp_all

lemma remap_of_cands [simp]: "cands (fold (\<lambda>i. remap_of P n i seg) is st) = cands st"
  by (induction "is" arbitrary: st) (simp_all add: remap_of_def)

lemma remap_best_cands [simp]: "cands (remap_best seg n p q st) = cands st"
  by (simp add: remap_best_def Let_def)

lemma first_rp_cands [simp]: "cands (first_rp seg n st) = cands st"
proof -
  have "cands (fold f ns s) = cands s" if "\<And>n s. cands (f n s) = cands s" for f :: "nat \<Rightarrow> rp_state \<Rightarrow> rp_state" and ns s
    by (induction ns arbitrary: s) (simp_all add: that)
  then have "cands (remap_covered_groups m s) = cands s" for m s by (simp add: remap_covered_groups_def Let_def)
  then show ?thesis by (simp add: first_rp_def remap_norp_def Let_def)
qed

lemma release_main: "cands (release_rp False a k st) = released a k (cands st)" "ranges (release_rp False a k st) = ranges st"
  by (simp_all add: release_rp_def released_def put_lists_def used_lists_def Let_def)



section \<open>Operations\<close>

lemma chains_cong: "chained cs B \<Longrightarrow> (\<And>a. B a = C a) \<Longrightarrow> chained cs C"
  by (simp add: chained_def)

lemma cand_ok_frame: "rs_main st' = rs_main st \<Longrightarrow> cand_ok st' = cand_ok st"
  by (simp add: cand_ok_def)

lemma cand_ok_regroups: "core st' = core st \<Longrightarrow> cands st' = cands st \<Longrightarrow> cand_ok st' = cand_ok st"
  unfolding cand_ok_chains using book_core [of st' st] by metis

lemma fold_remap_cand_ok [simp]: "cand_ok (fold remap_grpentry gs st) = cand_ok st"
  by (rule cand_ok_regroups) (use fold_remap [of st gs] in \<open>auto simp: regroups_def\<close>)

lemma timer_cand_ok [simp]: "cand_ok (update_bootstrap_timer st) = cand_ok st"
  by (rule cand_ok_frame) (simp add: update_bootstrap_timer_def)

lemma release_entries_chains:
  "chained (cands st) B \<Longrightarrow>
   chained (cands (fold (release_entry m) es st)) (\<lambda>a. B a - range_key m ` {e \<in> set es. re_rp e = a}) \<and>
   core (fold (release_entry m) es st) = core st"
proof (induction es arbitrary: st B)
  case Nil
  then show ?case by simp
next
  case (Cons e es)
  let ?s = "release_entry m e st"
  have "cands ?s = released (re_rp e) (range_key m e) (cands st)" by (simp add: release_entry_def release_main)
  then have c: "chained (cands ?s) (B(re_rp e := B (re_rp e) - {range_key m e}))" using released_chains [OF Cons.prems] by simp
  have r: "core ?s = core st" using release_entry_walk by (simp add: regroups_def)
  have eq: "(\<lambda>a. (B(re_rp e := B (re_rp e) - {range_key m e})) a - range_key m ` {x \<in> set es. re_rp x = a}) =
      (\<lambda>a. B a - range_key m ` {x \<in> set (e # es). re_rp x = a})"
    by (rule ext) (simp only: list.set(2) rps_insert fun_upd_apply, auto)
  from Cons.IH [OF c, unfolded eq] r show ?case by simp
qed

lemma rkeys_book: "n < length ms \<Longrightarrow> rkeys (ms ! n) a \<subseteq> book ms a"
  unfolding book_rkeys by (rule UN_upper [of "ms ! n" "set ms" "\<lambda>m. rkeys m a"]) (rule nth_mem)

lemma delete_mask_cand_ok:
  assumes "cand_ok st" "distinct (map place_of (ranges st))" "n < length (ranges st)"
  shows "cand_ok (delete_grp_mask_entry False n st)"
proof -
  let ?m = "ranges st ! n" and ?d = "drop_range n st"
  let ?s = "fold (release_entry ?m) (gm_grp_rp ?m) ?d"
  have d: "cands ?d = cands st" "ranges ?d = remove_nth n (ranges st)" by (simp_all add: drop_range_def)
  have "chained (cands ?d) (book (ranges st))" using assms(1) d(1) by (simp add: cand_ok_chains)
  note r = release_entries_chains [OF this, of ?m "gm_grp_rp ?m"]
  have "book (ranges ?s) = book (ranges ?d)" by (rule book_core) (use r in simp)
  then have "book (ranges ?s) = (\<lambda>a. book (ranges st) a - rkeys ?m a)" using book_without [OF assms(2,3)] d(2) by (simp add: fun_eq_iff)
  then have "cand_ok ?s" using r by (simp add: cand_ok_chains rkeys_def)
  then show ?thesis unfolding delete_grp_mask_entry_eq using cand_ok_frame [of "dec_entries ?s" ?s] by simp
qed

lemma drop_entry_range_book:
  assumes ok: "ranges_ok (ranges st)" and n: "n < length (ranges st)" "i < length (gm_grp_rp (ranges st ! n))"
  defines "e \<equiv> gm_grp_rp (ranges st ! n) ! i"
  shows "book (ranges (drop_entry_range n i st)) = (book (ranges st))(re_rp e := book (ranges st) (re_rp e) - {range_key (ranges st ! n) e})"
proof
  fix a
  let ?m = "ranges st ! n" and ?d = "drop_entry n i st"
  define m' where "m' = ?m\<lparr>gm_group_rp_number := gm_group_rp_number ?m - 1, gm_grp_rp := remove_nth i (gm_grp_rp ?m)\<rparr>"
  have m: "range_ok ?m" using ok n(1) by (simp add: ranges_ok_def list_all_length)
  have m': "gm_grp_rp m' = remove_nth i (gm_grp_rp ?m)" "place_of m' = place_of ?m" by (simp_all add: m'_def place_of_def)
  have r: "ranges ?d = (ranges st)[n := m']" by (simp add: drop_entry_ranges m'_def)
  note w = rkeys_without [OF m n(2) m', of a, folded e_def]
  have k: "range_key ?m e \<in> rkeys ?m (re_rp e)" using n(2) by (simp add: rkeys_def e_def)
  note u = book_update [OF ranges_distinct [OF ok] n(1), of m' a]
  have "book (ranges ?d) a = book (ranges st) a - (if a = re_rp e then {range_key ?m e} else {})"
    unfolding r u w using rkeys_book [OF n(1), of a] k by auto
  moreover have "book (ranges (drop_entry_range n i st)) a = book (ranges ?d) a"
  proof (cases "gm_grp_rp m' = []")
    case True
    then have "rkeys m' a = {}" by (simp add: rkeys_def)
    moreover have "ranges (drop_entry_range n i st) = remove_nth n (ranges st)"
      using True shrinks_trans_drop(2) [OF n] n(1) by (simp add: drop_entry_range_def r Let_def)
    ultimately show ?thesis using u book_without [OF ranges_distinct [OF ok] n(1), of a] r by simp
  qed (use n(1) in \<open>simp add: drop_entry_range_def r Let_def\<close>)
  ultimately show "book (ranges (drop_entry_range n i st)) a = ((book (ranges st))(re_rp e := book (ranges st) (re_rp e) - {range_key ?m e})) a"
    by simp
qed

lemma drop_entry_range_cands [simp]: "cands (drop_entry_range n i st) = cands st"
  by (simp add: drop_entry_range_def drop_entry_def drop_range_def put_range_def put_lists_def used_lists_def Let_def)

lemma delete_entry_cand_ok:
  assumes "cand_ok st" "ranges_ok (ranges st)" "n < length (ranges st)" "i < length (gm_grp_rp (ranges st ! n))"
  shows "cand_ok (delete_rp_grp_entry False n i st)"
proof -
  have "cand_ok (release_rp False (re_rp (gm_grp_rp (ranges st ! n) ! i)) (range_key (ranges st ! n) (gm_grp_rp (ranges st ! n) ! i)) (drop_entry_range n i st))"
    using released_chains [of "cands st" "book (ranges st)"] assms(1) drop_entry_range_book [OF assms(2-4)]
    by (simp add: cand_ok_chains release_main)
  then show ?thesis unfolding delete_rp_grp_entry_eq [OF assms(3)] by simp
qed

text \<open>Changing an entry in what does not identify it.\<close>

lemma put_entry_cand_ok:
  assumes "cand_ok st" "ranges_ok (ranges st)" "n < length (ranges st)" "i < length (gm_grp_rp (ranges st ! n))"
    and e: "re_rp e = re_rp (gm_grp_rp (ranges st ! n) ! i)" "re_priority e = re_priority (gm_grp_rp (ranges st ! n) ! i)"
  shows "cand_ok (put_lists False (upd_entry n i (\<lambda>_. e) (used_lists False st)) st)"
proof -
  let ?m = "ranges st ! n"
  define m' where "m' = ?m\<lparr>gm_grp_rp := (gm_grp_rp ?m)[i := e]\<rparr>"
  define st' where "st' = put_lists False (upd_entry n i (\<lambda>_. e) (used_lists False st)) st"
  have r: "ranges st' = (ranges st)[n := m']" "cands st' = cands st"
    by (simp_all add: st'_def m'_def upd_entry_def put_lists_def used_lists_def)
  have s: "set (gm_grp_rp m') = insert e (set (remove_nth i (gm_grp_rp ?m)))"
    using assms(4) by (auto simp: m'_def remove_nth_def upd_conv_take_nth_drop)
  have k: "range_key m' = range_key ?m" by (simp add: m'_def range_key_def fun_eq_iff)
  have ke: "range_key ?m e = range_key ?m (gm_grp_rp ?m ! i)" using e by (simp add: range_key_def)
  have "rkeys m' a = rkeys ?m a" for a unfolding rkeys_def k s remove_nth_split [OF assms(4)] rps_insert using ke e(1) by simp
  then have "book (ranges st') a = book (ranges st) a" for a
    using book_update [OF ranges_distinct [OF assms(2)] assms(3), of m' a] rkeys_book [OF assms(3), of a] r(1) by auto
  then have "book (ranges st') = book (ranges st)" ..
  then show ?thesis using assms(1) r(2) by (simp add: cand_ok_chains st'_def)
qed


lemma link_new_cand_ok:
  assumes "chained (cands st2) B" "book (ranges st2) = B" "distinct (map place_of (ranges st2))" "n < length (ranges st2)"
    "i \<le> length (gm_grp_rp (ranges st2 ! n))"
  shows "cand_ok (link_new n i e t st2)"
proof -
  let ?m = "ranges st2 ! n"
  define m' where "m' = ?m\<lparr>gm_group_rp_number := gm_group_rp_number ?m + 1, gm_grp_rp := insert_nth i e (gm_grp_rp ?m)\<rparr>"
  let ?s = "link_new n i e t st2"
  have r: "ranges ?s = (ranges st2)[n := m']" "cands ?s = linked (re_rp e) t (range_key ?m e) (cands st2)"
    by (simp_all add: link_new_def m'_def linked_def Let_def)
  have k: "range_key m' = range_key ?m" by (simp add: m'_def range_key_def fun_eq_iff)
  have "set (gm_grp_rp m') = insert e (set (gm_grp_rp ?m))"
    by (simp add: m'_def insert_nth_def) (metis append_take_drop_id set_append)
  then have "rkeys m' a = (if a = re_rp e then insert (range_key ?m e) (rkeys ?m a) else rkeys ?m a)" for a
    by (auto simp: rkeys_def k)
  then have "book (ranges ?s) a = (B(re_rp e := insert (range_key ?m e) (B (re_rp e)))) a" for a
    using book_update [OF assms(3,4), of m' a] rkeys_book [OF assms(4), of a] assms(2) r(1) by auto
  then have "book (ranges ?s) = B(re_rp e := insert (range_key ?m e) (B (re_rp e)))" ..
  then show ?thesis using linked_chains [OF assms(1)] r(2) by (simp add: cand_ok_chains)
qed

lemma add_grp_mask_cands:
  assumes "add_grp_mask False a k h st = Some (n, st1)"
  shows "cands st1 = cands st" "book (ranges st1) = book (ranges st)"
proof -
  have "book (insert_nth i m ms) = book ms" if "gm_grp_rp m = []" for i m ms
  proof
    fix a
    have "set (insert_nth i m ms) = insert m (set ms)" by (simp add: insert_nth_def) (metis append_take_drop_id set_append)
    then show "book (insert_nth i m ms) a = book ms a" using that by (simp add: book_def)
  qed
  then show "cands st1 = cands st" "book (ranges st1) = book (ranges st)"
    using assms by (auto simp: add_grp_mask_def used_lists_def put_lists_def Let_def split: prod.splits if_splits)
qed

lemma stamp_cands:
  assumes "n < length (ranges st1)" and st2_def: "st2 = put_range False n (stamp origin tag (ranges st1 ! n)) st1"
  shows "cands st2 = cands st1" "book (ranges st2) = book (ranges st1)"
proof -
  let ?m = "ranges st1 ! n"
  show "cands st2 = cands st1" by (simp add: st2_def put_range_def put_lists_def used_lists_def Let_def)
  have r: "ranges st2 = (ranges st1)[n := stamp origin tag ?m]" by (simp add: st2_def put_range_def put_lists_def used_lists_def Let_def)
  have "rkeys (stamp origin tag ?m) a = rkeys ?m a" for a by (simp add: rkeys_def stamp_def range_key_def)
  then have "book (ranges st2) a = book (ranges st1) a" for a
    using UN_update [OF assms(1), of "\<lambda>m. rkeys m a" "stamp origin tag ?m"] rkeys_book [OF assms(1), of a] r by (auto simp: book_rkeys)
  then show "book (ranges st2) = book (ranges st1)" ..
qed


lemma ready_distinct: "range_ready a k n ms \<Longrightarrow> distinct (map place_of ms)"
proof -
  have "sorted_wrt range_before ms \<Longrightarrow> distinct (map place_of ms)"
    by (induction ms) (auto simp: place_of_def range_before_def range_prefix_def image_iff)
  then show "range_ready a k n ms \<Longrightarrow> distinct (map place_of ms)" by (simp add: range_ready_def)
qed

lemma added_cand_ok:
  assumes "cand_ok (link_new n i e t st2)" "n < length (ranges (link_new n i e t st2))"
  shows "cand_ok (update_bootstrap_timer (remap_best False n p q (first_rp False n (link_new n i e t st2))))"
proof -
  let ?s = "link_new n i e t st2"
  have r: "regroups ?s (first_rp False n ?s)" using first_rp_walk [of ?s n] by simp
  have "n < length (ranges (first_rp False n ?s))" using assms(2) regroups_frame(2) [OF r] by simp
  then have "regroups ?s (remap_best False n p q (first_rp False n ?s))" using regroups_trans [OF r] remap_best_walk by blast
  then show ?thesis using assms(1) cand_ok_regroups [of "remap_best False n p q (first_rp False n ?s)" ?s] by (simp add: regroups_def)
qed

lemma add_cand_ok:
  assumes ok: "set_shape st" "cand_ok st" and k: "inet_valid_mask (ntohl k)"
  shows "cand_ok (snd (add_rp_grp_entry_from False b p t a k h tag origin st))"
proof (cases rule: add_cases [of b p t a k h tag origin st])
  case same
  then show ?thesis using ok by simp
next
  case (range n st1 st2)
  have o: "ranges_ok (ranges st)" "unat (rs_set_entries st) = length (ranges st)" using ok by (simp_all add: set_shape_def)
  note g = add_grp_mask_ready [OF o(1) k range(1)]
  have n: "n < length (ranges st1)" using g(1) by (simp add: range_ready_def)
  have ready: "range_ready a k n (ranges st2)" using retag_ready [OF g(1), of "stamp origin tag (ranges st1 ! n)"] range(4) by simp
  then have n2: "n < length (ranges st2)" by (simp add: range_ready_def)
  have c: "chained (cands st2) (book (ranges st))" "book (ranges st2) = book (ranges st)"
    using add_grp_mask_cands [OF range(1)] stamp_cands [OF n range(4)] ok(2) by (simp_all add: cand_ok_chains)
  then have ok2: "cand_ok st2" by (simp add: cand_ok_chains)
  obtain i found where i: "rp_grp_place p b (gm_grp_rp (ranges st2 ! n)) = (i, found)" by fastforce
  note add = add_in_range [OF range(1-3) n range(4) i [symmetric] refl]
  consider (found) found | (full) "\<not> found" "gm_group_rp_number (ranges st2 ! n) \<ge> 255" | (room) "\<not> found" "gm_group_rp_number (ranges st2 ! n) < 255"
    using not_le by blast
  then show ?thesis
  proof cases
    case found
    then have il: "i < length (gm_grp_rp (ranges st2 ! n))" using rp_grp_place_found [of p b "gm_grp_rp (ranges st2 ! n)"] i by simp
    then have "ranges_ok (ranges st2)" using ready_ok [OF ready] by fastforce
    from put_entry_cand_ok [OF ok2 this n2 il, of "refresh_entry origin t tag (gm_grp_rp (ranges st2 ! n) ! i)"]
    show ?thesis using found unfolding add by (simp add: upd_entry_def used_lists_def)
  next
    case full
    have "unat (255 :: u8) \<le> unat (gm_group_rp_number (ranges st2 ! n))" using full(2) by (simp only: word_le_nat_alt)
    then have "gm_grp_rp (ranges st2 ! n) \<noteq> []" using ready by (auto simp: range_ready_def range_sane_def)
    then show ?thesis using full ok2 unfolding add by (simp add: pim_max_rp_per_range_def)
  next
    case room
    have "i \<le> length (gm_grp_rp (ranges st2 ! n))" using rp_grp_place_le [of p b "gm_grp_rp (ranges st2 ! n)"] i by simp
    note l = link_new_cand_ok [OF c ready_distinct [OF ready] n2 this]
    have "length (ranges (link_new n i e t st2)) = length (ranges st2)" for e by (simp add: link_new_def Let_def)
    then show ?thesis using room added_cand_ok [OF l] n2 unfolding add by (simp add: pim_max_rp_per_range_def not_le [symmetric])
  qed
qed



section \<open>The limit\<close>

definition within_limit :: "rp_state \<Rightarrow> bool" where
  "within_limit st \<longleftrightarrow> rs_set_entries st \<le> rs_set_limit st"

lemma within_core: "core st' = core st \<Longrightarrow> within_limit st' = within_limit st"
  using core_simps(6,7) unfolding within_limit_def by metis

lemma within_dec: "within_limit st \<Longrightarrow> within_limit (dec_entries st)"
proof -
  assume w: "within_limit st"
  have "x - 1 \<le> x" if "0 < x" for x :: u32 using that unat_dec [OF that] by (simp add: word_le_nat_alt)
  then show ?thesis using w by (auto simp: within_limit_def dec_entries_def intro: order.trans)
qed

lemma within_frame: "rs_set_entries st' = rs_set_entries st \<Longrightarrow> rs_set_limit st' = rs_set_limit st \<Longrightarrow> within_limit st' = within_limit st"
  by (simp add: within_limit_def)

lemma delete_mask_within: "within_limit st \<Longrightarrow> within_limit (delete_grp_mask_entry False n st)"
proof -
  let ?m = "ranges st ! n"
  have "core (fold (release_entry ?m) (gm_grp_rp ?m) (drop_range n st)) = core (drop_range n st)"
    using release_entries_walk by (simp add: regroups_def)
  note w = within_core [OF this]
  show "within_limit st \<Longrightarrow> within_limit (delete_grp_mask_entry False n st)"
    unfolding delete_grp_mask_entry_eq using w within_frame [of "drop_range n st" st] by (intro within_dec) (simp add: drop_range_def)
qed

lemma timer_within [simp]: "within_limit (update_bootstrap_timer st) = within_limit st"
  by (rule within_frame) (simp_all add: update_bootstrap_timer_def)

lemma delete_entry_within:
  assumes "within_limit st" "n < length (ranges st)"
  shows "within_limit (delete_rp_grp_entry False n i st)"
proof -
  have d: "rs_set_limit (drop_entry n i st) = rs_set_limit st" by (simp add: drop_entry_def put_range_def put_lists_def Let_def)
  then have "within_limit (drop_entry n i st)" using assms(1) within_frame [OF drop_entry_frame(6)] by simp
  then have "within_limit (drop_entry_range n i st)"
    using within_frame [of "drop_range n s" s for s] by (auto simp: drop_entry_range_def Let_def drop_range_def intro!: within_dec)
  moreover have "within_limit (fold remap_grpentry gs (release_rp False a k s)) = within_limit s" for gs a k s
    by (rule within_core) (use release_remap_walk in \<open>simp add: regroups_def\<close>)
  ultimately show ?thesis unfolding delete_rp_grp_entry_eq [OF assms(2)] by simp
qed

lemma add_within:
  assumes ok: "set_shape st" "within_limit st" and k: "inet_valid_mask (ntohl k)"
  shows "within_limit (snd (add_rp_grp_entry_from False b p t a k h tag origin st))"
proof (cases rule: add_cases [of b p t a k h tag origin st])
  case same
  then show ?thesis using ok by simp
next
  case (range n st1 st2)
  have inc: "x + 1 \<le> y" if "x < y" for x y :: u32 using that by (simp add: inc_le)
  have w1: "within_limit st1" using range(1) ok(2) inc [of "rs_set_entries st" "rs_set_limit st"]
    by (auto simp: add_grp_mask_def within_limit_def put_lists_def not_le Let_def split: prod.splits if_splits)
  have w2: "within_limit st2" using w1 within_frame [of st2 st1] range(4) by (simp add: put_range_def put_lists_def Let_def)
  note g = add_grp_mask_ready [OF conjunct1 [OF ok(1) [unfolded set_shape_def]] k range(1)]
  have n: "n < length (ranges st1)" using g(1) by (simp add: range_ready_def)
  have ready: "range_ready a k n (ranges st2)" using retag_ready [OF g(1), of "stamp origin tag (ranges st1 ! n)"] range(4) by simp
  obtain i found where i: "rp_grp_place p b (gm_grp_rp (ranges st2 ! n)) = (i, found)" by fastforce
  note add = add_in_range [OF range(1-3) n range(4) i [symmetric] refl]
  have l: "within_limit (link_new n i e t st2)" for e using w2 within_frame [of "link_new n i e t st2" st2] by (simp add: link_new_def Let_def)
  have r: "within_limit (remap_best False n p q (first_rp False n s))" if "within_limit s" "n < length (ranges s)" for q s
  proof -
    have 1: "regroups s (first_rp False n s)" using first_rp_walk [of s n] by simp
    then have "n < length (ranges (first_rp False n s))" using that(2) regroups_frame(2) [OF 1] by simp
    then have "regroups s (remap_best False n p q (first_rp False n s))" using regroups_trans [OF 1] remap_best_walk by blast
    then have "core (remap_best False n p q (first_rp False n s)) = core s" unfolding regroups_def by (rule conjunct1)
    from within_core [OF this] that(1) show ?thesis by blast
  qed
  have len: "n < length (ranges (link_new n i e t st2))" for e using ready by (simp add: range_ready_def link_new_def Let_def)
  have ne: "gm_grp_rp (ranges st2 ! n) \<noteq> []" if "gm_group_rp_number (ranges st2 ! n) \<ge> 255"
  proof -
    have "unat (255 :: u8) \<le> unat (gm_group_rp_number (ranges st2 ! n))" using that by (simp only: word_le_nat_alt)
    then show ?thesis using ready by (auto simp: range_ready_def range_sane_def)
  qed
  have "within_limit (put_lists False x st2)" for x using w2 within_frame [of "put_lists False x st2" st2] by (simp add: put_lists_def)
  then show ?thesis unfolding add using w2 r [OF l len] ne by (simp add: pim_max_rp_per_range_def)
qed


section \<open>The invariant of the state\<close>

definition rp_state_ok :: "rp_state \<Rightarrow> bool" where
  "rp_state_ok st \<longleftrightarrow> rp_set_ok st \<and> cand_ok st \<and> within_limit st"

lemma rp_set_ok_frame:
  assumes "rs_main st' = rs_main st" "rs_norp st' = rs_norp st" "rs_ssm st' = rs_ssm st" "rs_autorp st' = rs_autorp st"
    "rs_set_entries st' = rs_set_entries st"
  shows "rp_set_ok st' = rp_set_ok st"
  using rp_grp_match_cong [OF assms(1,3,4)] assms by (simp add: rp_set_ok_def current_def)

end
