(* ===== verification/Vif.thy ===== *)
theory Vif
  imports Pim_Encode Pim_Parse
begin

text \<open>
  The virtual interfaces of \<^verbatim>\<open>src/vif.c\<close> and the PIM neighbours on them: what the interfaces and the neighbours
  hold, and the lookups of \<^verbatim>\<open>src/vif.c\<close> and \<^verbatim>\<open>src/route.c\<close> that map an address to an interface or to a neighbour.

  The array \<open>uvifs\<close> is the list of its first \<open>numvifs\<close> members and an index into it a natural number, with
  \<open>no_vif\<close> for \<open>NO_VIF\<close>.  The neighbours of an interface are in the interface, in the order of the
  list, and the pointer \<open>uv_pim_neighbor_dr\<close> into it is the address of the neighbour.  What the unicast routing table
  of the kernel answers, \<open>k_req_incoming\<close>, is a parameter: whether there is a route, and the answer.
\<close>

record pim_nbr_entry =
  nb_address :: u32
  nb_dr_prio_present :: bool
  nb_dr_prio :: u32
  nb_genid :: u32
  nb_lan_delay_present :: bool
  nb_tracking_support :: bool
  nb_propagation_delay :: u16
  nb_override_interval :: u16
  nb_secaddrs :: "u32 list"
  nb_bootstrap_owed :: bool
  nb_timer :: u16

record phaddr =
  pa_subnet :: u32
  pa_subnetmask :: u32
  pa_subnetbcast :: u32

record vif_acl =
  acl_addr :: u32
  acl_mask :: u32

record uvif =
  uv_flags :: u32
  uv_lcl_addr :: u32
  uv_rmt_addr :: u32
  uv_subnet :: u32
  uv_subnetmask :: u32
  uv_subnetbcast :: u32
  uv_acl :: "vif_acl list"
  uv_addrs :: "phaddr list"
  uv_secaddrs :: "u32 list"
  uv_nbr_acl :: "phaddr list"
  uv_hello_timer :: u16
  uv_hello_trigger :: u32
  uv_dr_prio :: u32
  uv_genid :: u32
  uv_pim_neighbors :: "pim_nbr_entry list"
  uv_pim_neighbor_dr :: "u32 option"
  uv_ifindex :: int

record rpfctl =
  rpf_source :: u32
  rpf_rpfneighbor :: u32
  rpf_iif :: nat

definition maxvifs :: nat where
  "maxvifs = 32"

definition no_vif :: nat where
  "no_vif = maxvifs"

definition viff_tunnel :: u32 where
  "viff_tunnel = 0x000001"

definition viff_register :: u32 where
  "viff_register = 0x000004"

definition viff_down :: u32 where
  "viff_down = 0x000100"

definition viff_disabled :: u32 where
  "viff_disabled = 0x000200"

definition viff_passive :: u32 where
  "viff_passive = 0x008000"

definition viff_dr :: u32 where
  "viff_dr = 0x040000"

definition viff_nonbrs :: u32 where
  "viff_nonbrs = 0x080000"

definition viff_point_to_point :: u32 where
  "viff_point_to_point = 0x100000"

definition viff_pim_nbr :: u32 where
  "viff_pim_nbr = 0x200000"

abbreviation out_of_service :: "uvif \<Rightarrow> bool" where
  "out_of_service v \<equiv> uv_flags v AND (viff_disabled OR viff_down OR viff_register) \<noteq> 0"


section \<open>Addresses and interfaces\<close>

definition is_uv_subnet :: "u32 \<Rightarrow> uvif \<Rightarrow> bool" where
  "is_uv_subnet src v \<longleftrightarrow>
     src AND uv_subnetmask v = uv_subnet v \<and> (uv_subnetmask v = 0xffffffff \<or> src \<noteq> uv_subnetbcast v)"

definition is_pa_subnet :: "u32 \<Rightarrow> phaddr \<Rightarrow> bool" where
  "is_pa_subnet src p \<longleftrightarrow>
     src AND pa_subnetmask p = pa_subnet p \<and> (pa_subnetmask p = 0xffffffff \<or> src \<noteq> pa_subnetbcast p)"

fun find_vif_loop :: "int \<Rightarrow> nat \<Rightarrow> uvif list \<Rightarrow> nat" where
  "find_vif_loop ifi vifi [] = no_vif"
| "find_vif_loop ifi vifi (v # vs) = (if uv_ifindex v = ifi then vifi else find_vif_loop ifi (Suc vifi) vs)"

definition find_vif :: "uvif list \<Rightarrow> int \<Rightarrow> nat" where
  "find_vif uvifs ifi = (if ifi < 0 then no_vif else find_vif_loop ifi 0 uvifs)"

definition k_direct :: "(u32 \<Rightarrow> bool \<times> rpfctl) \<Rightarrow> u32 \<Rightarrow> nat" where
  "k_direct k_req_incoming src =
     (case k_req_incoming src of (found, rpf) \<Rightarrow>
        if found \<and> rpf_source rpf = rpf_rpfneighbor rpf then rpf_iif rpf else no_vif)"

definition on_link :: "u32 \<Rightarrow> uvif \<Rightarrow> bool" where
  "on_link src v \<longleftrightarrow> is_uv_subnet src v \<or> list_ex (is_pa_subnet src) (uv_addrs v) \<or>
     uv_flags v AND viff_point_to_point \<noteq> 0 \<and> src = uv_rmt_addr v"

fun find_vif_direct_loop :: "(u32 \<Rightarrow> bool \<times> rpfctl) \<Rightarrow> u32 \<Rightarrow> nat \<Rightarrow> uvif list \<Rightarrow> nat" where
  "find_vif_direct_loop k_req_incoming src vifi [] = k_direct k_req_incoming src"
| "find_vif_direct_loop k_req_incoming src vifi (v # vs) =
     (if uv_flags v AND (viff_disabled OR viff_down OR viff_register OR viff_tunnel) \<noteq> 0
      then find_vif_direct_loop k_req_incoming src (Suc vifi) vs
      else if src = uv_lcl_addr v then no_vif
      else if on_link src v then vifi
      else find_vif_direct_loop k_req_incoming src (Suc vifi) vs)"

definition find_vif_direct :: "(u32 \<Rightarrow> bool \<times> rpfctl) \<Rightarrow> uvif list \<Rightarrow> u32 \<Rightarrow> nat" where
  "find_vif_direct k_req_incoming uvifs src = find_vif_direct_loop k_req_incoming src 0 uvifs"

fun local_address_loop :: "u32 \<Rightarrow> nat \<Rightarrow> uvif list \<Rightarrow> nat" where
  "local_address_loop src vifi [] = no_vif"
| "local_address_loop src vifi (v # vs) =
     (if out_of_service v then local_address_loop src (Suc vifi) vs
      else if src = uv_lcl_addr v then vifi
      else local_address_loop src (Suc vifi) vs)"

definition local_address :: "uvif list \<Rightarrow> u32 \<Rightarrow> nat" where
  "local_address uvifs src = local_address_loop src 0 uvifs"

fun find_vif_direct_local_loop :: "(u32 \<Rightarrow> bool \<times> rpfctl) \<Rightarrow> u32 \<Rightarrow> bool \<Rightarrow> nat \<Rightarrow> uvif list \<Rightarrow> nat" where
  "find_vif_direct_local_loop k_req_incoming src rib vifi [] = (if rib then k_direct k_req_incoming src else no_vif)"
| "find_vif_direct_local_loop k_req_incoming src rib vifi (v # vs) =
     (if uv_flags v AND (viff_disabled OR viff_down OR viff_register OR viff_tunnel) \<noteq> 0
      then find_vif_direct_local_loop k_req_incoming src rib (Suc vifi) vs
      else if src = uv_lcl_addr v then vifi
      else if on_link src v then vifi
      else find_vif_direct_local_loop k_req_incoming src rib (Suc vifi) vs)"

definition find_vif_direct_local :: "(u32 \<Rightarrow> bool \<times> rpfctl) \<Rightarrow> uvif list \<Rightarrow> u32 \<Rightarrow> bool \<Rightarrow> nat" where
  "find_vif_direct_local k_req_incoming uvifs src rib = find_vif_direct_local_loop k_req_incoming src rib 0 uvifs"

definition max_local_address :: "uvif list \<Rightarrow> u32" where
  "max_local_address uvifs =
     foldl (\<lambda>max_address v. if out_of_service v then max_address
                            else if ntohl (uv_lcl_addr v) > ntohl max_address then uv_lcl_addr v
                            else max_address) 0 uvifs"

definition scoped_addr :: "uvif list \<Rightarrow> nat \<Rightarrow> u32 \<Rightarrow> bool" where
  "scoped_addr uvifs vifi addr = list_ex (\<lambda>acl. addr AND acl_mask acl = acl_addr acl) (uv_acl (uvifs ! vifi))"


section \<open>Neighbours\<close>

definition pim_nbr_accepted :: "uvif list \<Rightarrow> nat \<Rightarrow> u32 \<Rightarrow> bool" where
  "pim_nbr_accepted uvifs vifi addr =
     (if vifi \<ge> length uvifs then False
      else if uv_nbr_acl (uvifs ! vifi) = [] then True
      else list_ex (\<lambda>pa. addr AND pa_subnetmask pa = pa_subnet pa) (uv_nbr_acl (uvifs ! vifi)))"

definition find_pim_nbr_on_vif :: "uvif list \<Rightarrow> nat \<Rightarrow> u32 \<Rightarrow> pim_nbr_entry option" where
  "find_pim_nbr_on_vif uvifs vifi addr =
     (if vifi \<ge> length uvifs then None
      else find (\<lambda>nbr. nb_address nbr = addr) (uv_pim_neighbors (uvifs ! vifi)))"

definition find_pim_nbr_nexthop :: "uvif list \<Rightarrow> nat \<Rightarrow> u32 \<Rightarrow> pim_nbr_entry option" where
  "find_pim_nbr_nexthop uvifs vifi addr =
     (if vifi \<ge> length uvifs then None
      else case find_pim_nbr_on_vif uvifs vifi addr of
        Some nbr \<Rightarrow> Some nbr
      | None \<Rightarrow> find (\<lambda>nbr. list_ex (\<lambda>a. a = addr) (nb_secaddrs nbr)) (uv_pim_neighbors (uvifs ! vifi)))"

definition find_pim_nbr :: "(u32 \<Rightarrow> bool \<times> rpfctl) \<Rightarrow> uvif list \<Rightarrow> u32 \<Rightarrow> pim_nbr_entry option" where
  "find_pim_nbr k_req_incoming uvifs source =
     (if local_address uvifs source \<noteq> no_vif then None
      else let rpfc = snd (k_req_incoming source) in
        if rpf_iif rpfc = no_vif \<or> rpf_rpfneighbor rpfc = 0 then None
        else find_pim_nbr_nexthop uvifs (rpf_iif rpfc) (rpf_rpfneighbor rpfc))"


section \<open>What the lookups answer\<close>

text \<open>
  An answer of the kernel that names an interface names one that exists: \<open>k_req_incoming\<close> takes it from \<open>find_vif\<close>.
\<close>

definition routes_on :: "uvif list \<Rightarrow> (u32 \<Rightarrow> bool \<times> rpfctl) \<Rightarrow> bool" where
  "routes_on uvifs k_req_incoming \<longleftrightarrow>
     length uvifs \<le> maxvifs \<and> (\<forall>a. rpf_iif (snd (k_req_incoming a)) = no_vif \<or> rpf_iif (snd (k_req_incoming a)) < length uvifs)"

lemma find_vif_direct_loop_range:
  "find_vif_direct_loop k src vifi vs = no_vif \<or> find_vif_direct_loop k src vifi vs < vifi + length vs \<or>
   find_vif_direct_loop k src vifi vs = rpf_iif (snd (k src))"
proof (induction k src vifi vs rule: find_vif_direct_loop.induct)
  case (2 k src vifi v vs)
  then show ?case by (simp only: find_vif_direct_loop.simps list.size) (auto split: if_splits)
qed (simp add: k_direct_def split: prod.split)

lemma find_vif_direct_valid:
  "routes_on uvifs k \<Longrightarrow> find_vif_direct k uvifs src \<noteq> no_vif \<Longrightarrow> find_vif_direct k uvifs src < length uvifs"
  using find_vif_direct_loop_range [of k src 0 uvifs] unfolding find_vif_direct_def routes_on_def by (metis add_0)

lemma local_address_loop_iff:
  "vifi + length vs \<le> maxvifs \<Longrightarrow>
     local_address_loop src vifi vs \<noteq> no_vif \<longleftrightarrow> list_ex (\<lambda>v. \<not> out_of_service v \<and> uv_lcl_addr v = src) vs"
  by (induction src vifi vs rule: local_address_loop.induct) (auto simp: no_vif_def)

end
