(* ===== verification/Pim_Nbr.thy ===== *)
theory Pim_Nbr
  imports Vif Election
begin

text \<open>
  The Hello protocol of \<^verbatim>\<open>src/pim_proto.c\<close>: the neighbours of an interface, from the Hello that makes one to
  the timer or the Hello that ends it, the election of the designated router, the values of the LAN Prune
  Delay option, and the Hellos this router sends.

  A call into another part of the daemon is an action the operation returns, in the order of the calls:
  what a route or a membership does about a neighbour is that part's, and none of it comes back to the
  interfaces.  The sweep of \<open>delete_pim_nbr\<close> over the sources, the RPs and the groups that name the neighbour
  as their upstream is the action \<open>RESET_UPSTREAM\<close>, and that of \<open>receive_pim_hello\<close> over the directly connected
  sources of an interface \<open>DROP_REGISTER_OIF\<close>.  \<open>calloc\<close> finds memory.  The delay \<open>RANDOM () % n\<close> is
  read from the parameter \<open>rnd\<close>.
\<close>

datatype pim_act =
  SEND_HELLO nat bytes
| UNICAST_BOOTSTRAP nat u32
| TIMER_HELLO nat nat u32
| RECALC_LOCAL_MEMBERS nat
| REFRESH_UPSTREAM_JOINS nat u32
| ASSERT_NEIGHBOR_GONE nat u32
| IGMP_RESYNC_LEAVES
| DROP_REGISTER_OIF nat
| RESET_UPSTREAM nat u32
| RETURN_JP_WORKING_BUFF nat u32

record pim_ifs =
  pi_uvifs :: "uvif list"
  pi_token :: u32
  pim_timer_hello_interval :: u16
  pim_timer_hello_holdtime :: u16
  pim_send_buf :: bytes

definition put_vif :: "nat \<Rightarrow> uvif \<Rightarrow> pim_ifs \<Rightarrow> pim_ifs" where
  "put_vif vifi v st = st\<lparr>pi_uvifs := (pi_uvifs st)[vifi := v]\<rparr>"

definition pim_propagation_delay_ms :: u16 where
  "pim_propagation_delay_ms = 500"

definition pim_override_interval_ms :: u16 where
  "pim_override_interval_ms = 2500"

definition pim_triggered_hello_delay :: nat where
  "pim_triggered_hello_delay = 5"

definition timer_interval :: u16 where
  "timer_interval = 5"

definition send_buf_size :: nat where
  "send_buf_size = 128 * 1024"

definition timer_tick :: "u16 \<Rightarrow> u16" where
  "timer_tick timer = timer - min timer timer_interval"


section \<open>The designated router\<close>

text \<open>The loop over the neighbours, with the best one so far: whether each has a priority, and the best of those up to there.\<close>

fun dr_best :: "pim_nbr_entry list \<Rightarrow> u32 option \<Rightarrow> u32 \<Rightarrow> bool \<times> u32 option \<times> u32" where
  "dr_best [] best_nbr best_dr_prio = (True, best_nbr, best_dr_prio)"
| "dr_best (nbr # nbrs) best_nbr best_dr_prio =
     (if \<not> nb_dr_prio_present nbr then (False, best_nbr, best_dr_prio)
      else if nb_dr_prio nbr > best_dr_prio then dr_best nbrs (Some (nb_address nbr)) (nb_dr_prio nbr)
      else dr_best nbrs best_nbr best_dr_prio)"

definition dr_won :: "uvif \<Rightarrow> uvif" where
  "dr_won v = v\<lparr>uv_flags := uv_flags v OR viff_dr, uv_pim_neighbor_dr := None\<rparr>"

definition dr_lost :: "u32 option \<Rightarrow> uvif \<Rightarrow> bool \<times> uvif" where
  "dr_lost best_nbr v =
     (uv_flags v AND viff_dr \<noteq> 0,
      v\<lparr>uv_flags := uv_flags v AND NOT viff_dr, uv_pim_neighbor_dr := best_nbr\<rparr>)"

definition dr_tiebreak :: "u32 \<Rightarrow> uvif \<Rightarrow> bool \<times> uvif" where
  "dr_tiebreak best_nbr v =
     (if ntohl (uv_lcl_addr v) > ntohl best_nbr then (False, dr_won v) else dr_lost (Some best_nbr) v)"

definition dr_election :: "uvif \<Rightarrow> bool \<times> uvif" where
  "dr_election v =
     (case uv_pim_neighbors v of
        [] \<Rightarrow> (False, v\<lparr>uv_flags := (uv_flags v AND NOT viff_pim_nbr) OR (viff_nonbrs OR viff_dr),
                       uv_pim_neighbor_dr := None\<rparr>)
      | first # _ \<Rightarrow>
          let (use_dr_prio, best_nbr, best_dr_prio) = dr_best (uv_pim_neighbors v) None 0 in
          if use_dr_prio then
            if best_dr_prio < uv_dr_prio v then (False, dr_won v)
            else if best_dr_prio = uv_dr_prio v
            then dr_tiebreak (case best_nbr of None \<Rightarrow> nb_address first | Some a \<Rightarrow> a) v
            else dr_lost best_nbr v
          else dr_tiebreak (nb_address first) v)"

definition restart_dr_election :: "nat \<Rightarrow> uvif \<Rightarrow> bool \<times> uvif \<times> pim_act list" where
  "restart_dr_election vifi v =
     (let was_dr = (uv_flags v AND viff_dr \<noteq> 0);
          (result, v') = dr_election v
      in (result, v', if was_dr \<noteq> (uv_flags v' AND viff_dr \<noteq> 0) then [RECALC_LOCAL_MEMBERS vifi] else []))"


section \<open>The neighbours of an interface\<close>

definition nbr_forget_secaddr :: "u32 \<Rightarrow> pim_nbr_entry \<Rightarrow> pim_nbr_entry" where
  "nbr_forget_secaddr addr nbr =
     (let l = nb_secaddrs nbr in
      case find (\<lambda>i. l ! i = addr) [0..<length l] of
        None \<Rightarrow> nbr
      | Some i \<Rightarrow> nbr\<lparr>nb_secaddrs := butlast (l[i := last l])\<rparr>)"

text \<open>
  The loop of \<open>cache_nbr_secaddrs\<close>, over the addresses the Hello lists: what is kept of them, and the
  other neighbours without them.
\<close>

fun secaddrs_loop :: "u32 \<Rightarrow> u32 list \<Rightarrow> u32 list \<Rightarrow> pim_nbr_entry list \<Rightarrow> u32 list \<times> pim_nbr_entry list" where
  "secaddrs_loop self [] l nbrs = (l, nbrs)"
| "secaddrs_loop self (addr # addrs) l nbrs =
     (if addr = self \<or> \<not> inet_valid_host addr then secaddrs_loop self addrs l nbrs
      else secaddrs_loop self addrs (l @ [addr])
             (map (\<lambda>other. if nb_address other = self then other else nbr_forget_secaddr addr other) nbrs))"

definition hello_listed :: "bytes \<Rightarrow> pim_hello_opts \<Rightarrow> u32 list option" where
  "hello_listed msg opts = those (map (pim_hello_addr msg opts) [0..<unat (ho_addr_list_len opts) div 6])"

definition cache_nbr_secaddrs :: "u32 list \<Rightarrow> pim_nbr_entry \<Rightarrow> uvif \<Rightarrow> pim_nbr_entry \<times> uvif" where
  "cache_nbr_secaddrs listed nbr v =
     (let (l, nbrs) = secaddrs_loop (nb_address nbr) listed [] (uv_pim_neighbors v)
      in (nbr\<lparr>nb_secaddrs := l\<rparr>, v\<lparr>uv_pim_neighbors := nbrs\<rparr>))"

definition cache_nbr_settings :: "pim_hello_opts \<Rightarrow> u32 list \<Rightarrow> pim_nbr_entry \<Rightarrow> uvif \<Rightarrow> pim_nbr_entry \<times> uvif" where
  "cache_nbr_settings opts listed nbr v =
     cache_nbr_secaddrs listed
       (nbr\<lparr>nb_timer := ho_holdtime opts, nb_genid := ho_genid opts, nb_dr_prio := ho_dr_prio opts,
            nb_dr_prio_present := ho_dr_prio_present opts, nb_lan_delay_present := ho_lan_delay_present opts,
            nb_tracking_support := ho_tracking_support opts, nb_propagation_delay := ho_propagation_delay opts,
            nb_override_interval := ho_override_interval opts\<rparr>) v"

definition new_nbr :: "u32 \<Rightarrow> pim_nbr_entry" where
  "new_nbr src = \<lparr>nb_address = src, nb_dr_prio_present = False, nb_dr_prio = 0, nb_genid = 0,
     nb_lan_delay_present = False, nb_tracking_support = False, nb_propagation_delay = 0,
     nb_override_interval = 0, nb_secaddrs = [], nb_bootstrap_owed = False, nb_timer = 0\<rparr>"

text \<open>The place of an address in the list, which is in decreasing order, and whether the neighbour is there.\<close>

fun nbr_place :: "u32 \<Rightarrow> pim_nbr_entry list \<Rightarrow> nat \<times> bool" where
  "nbr_place src [] = (0, False)"
| "nbr_place src (nbr # nbrs) =
     (if ntohl src < ntohl (nb_address nbr) then apfst Suc (nbr_place src nbrs)
      else (0, src = nb_address nbr))"

definition delete_pim_nbr :: "nat \<Rightarrow> u32 \<Rightarrow> uvif \<Rightarrow> uvif \<times> pim_act list" where
  "delete_pim_nbr vifi addr v =
     (let v = v\<lparr>uv_pim_neighbors := filter (\<lambda>nbr. nb_address nbr \<noteq> addr) (uv_pim_neighbors v)\<rparr>;
          v = (if uv_pim_neighbor_dr v = Some addr then v\<lparr>uv_pim_neighbor_dr := None\<rparr> else v);
          (_, v, acts) = restart_dr_election vifi v
      in (v, RETURN_JP_WORKING_BUFF vifi addr # acts @ [RESET_UPSTREAM vifi addr, ASSERT_NEIGHBOR_GONE vifi addr]))"


section \<open>Sending Hellos\<close>

definition pim_body_writer :: "bytes \<Rightarrow> pim_writer" where
  "pim_body_writer buf = pim_writer_init buf 24 (send_buf_size - 24)"

definition hello_body :: "uvif \<Rightarrow> u16 \<Rightarrow> bytes \<Rightarrow> bytes option" where
  "hello_body v holdtime buf =
     (case pim_encode_hello (pim_body_writer buf) holdtime pim_propagation_delay_ms pim_override_interval_ms
             (uv_dr_prio v) (uv_genid v) (uv_secaddrs v) of
        None \<Rightarrow> None
      | Some (_, w) \<Rightarrow> if w_full w then None else Some (take (pim_writer_used w 24) (drop 24 (w_mem w))))"

definition send_pim_hello :: "nat \<Rightarrow> u16 \<Rightarrow> pim_ifs \<Rightarrow> pim_ifs \<times> pim_act list" where
  "send_pim_hello vifi holdtime st =
     (let v = pi_uvifs st ! vifi in
      if uv_flags v AND viff_passive \<noteq> 0 then (st, [])
      else (put_vif vifi (v\<lparr>uv_hello_timer := pim_timer_hello_interval st\<rparr>) st,
            case hello_body v holdtime (pim_send_buf st) of None \<Rightarrow> [] | Some body \<Rightarrow> [SEND_HELLO vifi body]))"

definition triggered_hello_send :: "nat \<Rightarrow> pim_ifs \<Rightarrow> pim_ifs \<times> pim_act list" where
  "triggered_hello_send vifi st =
     (let st = put_vif vifi ((pi_uvifs st ! vifi)\<lparr>uv_hello_trigger := 0\<rparr>) st;
          (st, acts) = send_pim_hello vifi (pim_timer_hello_holdtime st) st;
          v = pi_uvifs st ! vifi;
          owed = filter nb_bootstrap_owed (uv_pim_neighbors v);
          st = put_vif vifi (v\<lparr>uv_pim_neighbors := map (\<lambda>nbr. nbr\<lparr>nb_bootstrap_owed := False\<rparr>) (uv_pim_neighbors v)\<rparr>) st
      in (st, acts @ (if uv_flags v AND viff_dr \<noteq> 0 then map (\<lambda>nbr. UNICAST_BOOTSTRAP vifi (nb_address nbr)) owed else [])))"

definition triggered_hello_timeout :: "nat \<Rightarrow> u32 \<Rightarrow> pim_ifs \<Rightarrow> pim_ifs \<times> pim_act list" where
  "triggered_hello_timeout vifi token st =
     (if vifi < length (pi_uvifs st) \<and> uv_hello_trigger (pi_uvifs st ! vifi) = token
      then triggered_hello_send vifi st else (st, []))"

definition trigger_hello :: "nat \<Rightarrow> nat \<Rightarrow> u32 \<Rightarrow> pim_ifs \<Rightarrow> pim_ifs \<times> pim_act list" where
  "trigger_hello rnd vifi src st =
     (let v = pi_uvifs st ! vifi;
          v = v\<lparr>uv_pim_neighbors := map (\<lambda>nbr. if nb_address nbr = src then nbr\<lparr>nb_bootstrap_owed := True\<rparr> else nbr)
                                       (uv_pim_neighbors v)\<rparr>;
          st = put_vif vifi v st
      in if uv_hello_trigger v \<noteq> 0 then (st, [])
         else
           let token = (if pi_token st + 1 = 0 then 1 else pi_token st + 1)
           in (put_vif vifi (v\<lparr>uv_hello_trigger := token\<rparr>) (st\<lparr>pi_token := token\<rparr>),
               [TIMER_HELLO (rnd mod (pim_triggered_hello_delay * 1000 + 1)) vifi token]))"

definition hello_before_send :: "nat \<Rightarrow> pim_ifs \<Rightarrow> pim_ifs \<times> pim_act list" where
  "hello_before_send vifi st =
     (if vifi < length (pi_uvifs st) \<and> uv_hello_trigger (pi_uvifs st ! vifi) \<noteq> 0
      then triggered_hello_send vifi st else (st, []))"


section \<open>Receiving Hellos\<close>

definition parse_pim_hello :: "u16 \<Rightarrow> bytes \<Rightarrow> pim_hello_opts option option" where
  "parse_pim_hello hello_holdtime msg = do {
     (rc, opts) \<leftarrow> pim_parse_hello msg;
     Some (if rc = PIM_HELLO_OK
           then Some (if ho_holdtime_present opts then opts else opts\<lparr>ho_holdtime := hello_holdtime\<rparr>)
           else None) }"

definition hello_election :: "nat \<Rightarrow> pim_ifs \<Rightarrow> pim_ifs \<times> pim_act list" where
  "hello_election vifi st =
     (let (lost, v, acts) = restart_dr_election vifi (pi_uvifs st ! vifi)
      in (put_vif vifi v st, acts @ (if lost then [DROP_REGISTER_OIF vifi] else [])))"

definition hello_rebooted :: "nat \<Rightarrow> nat \<Rightarrow> u32 \<Rightarrow> pim_ifs \<Rightarrow> pim_ifs \<times> pim_act list" where
  "hello_rebooted rnd vifi src st =
     (let (st, acts) = trigger_hello rnd vifi src st;
          (st, acts') = hello_election vifi st
      in (st, acts @ IGMP_RESYNC_LEAVES # acts'))"

definition insert_nbr :: "nat \<Rightarrow> pim_nbr_entry \<Rightarrow> uvif \<Rightarrow> uvif" where
  "insert_nbr i nbr v =
     v\<lparr>uv_pim_neighbors := take i (uv_pim_neighbors v) @ nbr # drop i (uv_pim_neighbors v),
       uv_flags := (uv_flags v AND NOT viff_nonbrs) OR viff_pim_nbr\<rparr>"

definition hello_from :: "nat \<Rightarrow> nat \<Rightarrow> u32 \<Rightarrow> pim_hello_opts \<Rightarrow> u32 list \<Rightarrow> pim_ifs \<Rightarrow> pim_ifs \<times> pim_act list" where
  "hello_from rnd vifi src opts listed st =
     (let v = pi_uvifs st ! vifi; (i, known) = nbr_place src (uv_pim_neighbors v) in
      if \<not> known then
        let (nbr, v) = cache_nbr_settings opts listed (new_nbr src) v
        in hello_rebooted rnd vifi src (put_vif vifi (insert_nbr i nbr v) st)
      else if ho_holdtime opts = 0 then
        let (v, acts) = delete_pim_nbr vifi src v in (put_vif vifi v st, acts)
      else
        let old = uv_pim_neighbors v ! i;
            (nbr, v) = cache_nbr_settings opts listed old v;
            st = put_vif vifi (v\<lparr>uv_pim_neighbors := (uv_pim_neighbors v)[i := nbr]\<rparr>) st
        in if nb_genid old \<noteq> ho_genid opts then
             let (st, acts) = hello_rebooted rnd vifi src st
             in (st, REFRESH_UPSTREAM_JOINS vifi src # ASSERT_NEIGHBOR_GONE vifi src # acts)
           else if nb_dr_prio old \<noteq> ho_dr_prio opts then hello_election vifi st
           else (st, []))"

definition receive_pim_hello ::
    "(u32 \<Rightarrow> bool \<times> rpfctl) \<Rightarrow> nat \<Rightarrow> u32 \<Rightarrow> bytes \<Rightarrow> pim_ifs \<Rightarrow> (bool \<times> pim_ifs \<times> pim_act list) option" where
  "receive_pim_hello k_req_incoming rnd src msg st =
     (let refuse = Some (False, st, []); vifi = find_vif_direct k_req_incoming (pi_uvifs st) src in
      if inet_cksum msg \<noteq> 0 then refuse
      else if vifi = no_vif then refuse
      else if uv_flags (pi_uvifs st ! vifi) AND (viff_down OR viff_disabled OR viff_register) \<noteq> 0 then refuse
      else if uv_flags (pi_uvifs st ! vifi) AND viff_passive \<noteq> 0 then refuse
      else if \<not> pim_nbr_accepted (pi_uvifs st) vifi src then refuse
      else do {
        parsed \<leftarrow> parse_pim_hello (pim_timer_hello_holdtime st) msg;
        (case parsed of
           None \<Rightarrow> refuse
         | Some opts \<Rightarrow> do {
             listed \<leftarrow> hello_listed msg opts;
             Some (True, hello_from rnd vifi src opts listed st) }) })"


section \<open>Ageing\<close>

definition age_nbr :: "nat \<Rightarrow> u32 \<Rightarrow> uvif \<times> pim_act list \<Rightarrow> uvif \<times> pim_act list" where
  "age_nbr vifi addr = (\<lambda>(v, acts).
     case find (\<lambda>nbr. nb_address nbr = addr) (uv_pim_neighbors v) of
       None \<Rightarrow> (v, acts)
     | Some nbr \<Rightarrow>
         if nb_timer nbr = 0xffff then (v, acts)
         else if timer_tick (nb_timer nbr) \<noteq> 0
         then (v\<lparr>uv_pim_neighbors := map (\<lambda>n. if nb_address n = addr then n\<lparr>nb_timer := timer_tick (nb_timer nbr)\<rparr> else n)
                                        (uv_pim_neighbors v)\<rparr>, acts)
         else apsnd (append acts) (delete_pim_nbr vifi addr v))"

definition age_vif :: "nat \<Rightarrow> pim_ifs \<Rightarrow> pim_ifs \<times> pim_act list" where
  "age_vif vifi st =
     (let v = pi_uvifs st ! vifi in
      if out_of_service v then (st, [])
      else
        let (v, acts) = fold (age_nbr vifi) (map nb_address (uv_pim_neighbors v)) (v, []);
            v = v\<lparr>uv_hello_timer := timer_tick (uv_hello_timer v)\<rparr>;
            st = put_vif vifi v st
        in if uv_hello_timer v = 0
           then apsnd (append acts) (send_pim_hello vifi (pim_timer_hello_holdtime st) st)
           else (st, acts))"

definition age_vifs :: "pim_ifs \<Rightarrow> pim_ifs \<times> pim_act list" where
  "age_vifs st =
     fold (\<lambda>vifi (st, acts). apsnd (append acts) (age_vif vifi st)) [0..<length (pi_uvifs st)] (st, [])"


section \<open>The LAN Prune Delay option\<close>

definition lan_delay_enabled :: "uvif list \<Rightarrow> nat \<Rightarrow> bool" where
  "lan_delay_enabled uvifs vifi = list_all nb_lan_delay_present (uv_pim_neighbors (uvifs ! vifi))"

definition largest_of :: "(pim_nbr_entry \<Rightarrow> u16) \<Rightarrow> u16 \<Rightarrow> pim_nbr_entry list \<Rightarrow> u16" where
  "largest_of f = foldl (\<lambda>delay nbr. if f nbr > delay then f nbr else delay)"

definition effective_propagation_delay :: "uvif list \<Rightarrow> nat \<Rightarrow> u16" where
  "effective_propagation_delay uvifs vifi =
     (let delay = pim_propagation_delay_ms in
      if \<not> lan_delay_enabled uvifs vifi then delay
      else largest_of nb_propagation_delay delay (uv_pim_neighbors (uvifs ! vifi)))"

definition effective_override_interval :: "uvif list \<Rightarrow> nat \<Rightarrow> u16" where
  "effective_override_interval uvifs vifi =
     (let delay = pim_override_interval_ms in
      if \<not> lan_delay_enabled uvifs vifi then delay
      else largest_of nb_override_interval delay (uv_pim_neighbors (uvifs ! vifi)))"

definition prune_pending_delay :: "uvif list \<Rightarrow> nat \<Rightarrow> u32" where
  "prune_pending_delay uvifs vifi =
     (if length (uv_pim_neighbors (uvifs ! vifi)) < 2 then 0
      else ucast (effective_propagation_delay uvifs vifi) + ucast (effective_override_interval uvifs vifi))"

definition jp_override_timeout :: "nat \<Rightarrow> uvif list \<Rightarrow> nat \<Rightarrow> nat" where
  "jp_override_timeout rnd uvifs vifi = rnd mod unat (effective_override_interval uvifs vifi)"

end
