(* ===== verification/Dr_Election.thy ===== *)
theory Dr_Election
  imports Pim_Nbr
begin

text \<open>
  The election of the designated router: it chooses the best station of the link in a strict total order, so
  routers that know the same stations agree on it, and every operation on the neighbours leaves the election that
  is due, except one Hello.
\<close>


section \<open>The election\<close>

abbreviation higher :: "pim_nbr_entry \<Rightarrow> pim_nbr_entry \<Rightarrow> bool" where
  "higher a b \<equiv> ntohl (nb_address a) > ntohl (nb_address b)"

type_synonym station = "u32 \<times> u32"

definition dr_beats :: "bool \<Rightarrow> station \<Rightarrow> station \<Rightarrow> bool" where
  "dr_beats use_dr_prio x y \<longleftrightarrow>
     (if use_dr_prio then snd x > snd y \<or> snd x = snd y \<and> ntohl (fst x) > ntohl (fst y)
      else ntohl (fst x) > ntohl (fst y) \<or> fst x = fst y \<and> snd x > snd y)"

lemma ntohl_linear: "a \<noteq> b \<Longrightarrow> ntohl a < ntohl b \<or> ntohl b < ntohl a"
  by (metis linorder_neqE ntohl_inject)

interpretation dr: election "dr_beats use" for use :: bool
proof
  show "x \<noteq> y \<Longrightarrow> dr_beats use x y \<or> dr_beats use y x" for x y
    by (cases x; cases y) (auto simp: dr_beats_def dest: ntohl_linear)
qed (auto simp: dr_beats_def split: if_splits)

abbreviation station :: "pim_nbr_entry \<Rightarrow> station" where
  "station nbr \<equiv> (nb_address nbr, nb_dr_prio nbr)"

abbreviation own_station :: "uvif \<Rightarrow> station" where
  "own_station v \<equiv> (uv_lcl_addr v, uv_dr_prio v)"

abbreviation by_prio :: "uvif \<Rightarrow> bool" where
  "by_prio v \<equiv> list_all nb_dr_prio_present (uv_pim_neighbors v)"

definition dr_of :: "uvif \<Rightarrow> u32" where
  "dr_of v = (case uv_pim_neighbor_dr v of None \<Rightarrow> uv_lcl_addr v | Some a \<Rightarrow> a)"

text \<open>The first neighbour of the list is the best one by address; the loop finds the best by priority.\<close>

lemma first_best:
  assumes "sorted_wrt higher (n # ns)"
  shows "is_best (dr_beats False) (set (map station (n # ns))) (station n)"
  using assms by (auto simp: is_best_def dr_beats_def)

lemma dr_best_present: "fst (dr_best ns b p) = list_all nb_dr_prio_present ns"
  by (induction ns b p rule: dr_best.induct) auto

lemma dr_best_by_prio:
  assumes "sorted_wrt higher ns" "list_all nb_dr_prio_present ns"
  shows "(\<forall>n\<in>set ns. nb_dr_prio n \<le> p) \<and> dr_best ns b p = (True, b, p) \<or>
    (\<exists>n\<in>set ns. p < nb_dr_prio n \<and> dr_best ns b p = (True, Some (nb_address n), nb_dr_prio n) \<and>
       is_best (dr_beats True) (set (map station ns)) (station n))"
  using assms
proof (induction ns b p rule: dr_best.induct)
  case (2 m ns b p)
  have s: "sorted_wrt higher ns" "list_all nb_dr_prio_present ns" "nb_dr_prio_present m"
    and h: "\<And>n. n \<in> set ns \<Longrightarrow> higher m n" using "2.prems" by auto
  show ?case
  proof (cases "nb_dr_prio m > p")
    case True
    from "2.IH"(1) [OF _ True s(1,2)] s(3) consider
      "\<forall>n\<in>set ns. nb_dr_prio n \<le> nb_dr_prio m" "dr_best (m # ns) b p = (True, Some (nb_address m), nb_dr_prio m)"
      | n where "n \<in> set ns" "nb_dr_prio m < nb_dr_prio n" "dr_best (m # ns) b p = (True, Some (nb_address n), nb_dr_prio n)"
        "is_best (dr_beats True) (set (map station ns)) (station n)" using True by auto
    then show ?thesis
    proof cases
      case 1
      then have "is_best (dr_beats True) (set (map station (m # ns))) (station m)"
        using h by (auto simp: is_best_def dr_beats_def order_le_less)
      then show ?thesis using 1 True by (intro disjI2 bexI [of _ m]) auto
    next
      case 2
      then have "is_best (dr_beats True) (set (map station (m # ns))) (station n)"
        by (auto simp: is_best_def dr_beats_def)
      then show ?thesis using 2 True by (intro disjI2 bexI [of _ n]) auto
    qed
  next
    case False
    from "2.IH"(2) [OF _ False s(1,2)] s(3) False show ?thesis
      by (auto simp: is_best_def dr_beats_def)
  qed
qed simp


text \<open>The election as a choice: who is the best, and what the winner leaves in the interface.\<close>

definition dr_choice :: "uvif \<Rightarrow> u32 option" where
  "dr_choice v =
     (case uv_pim_neighbors v of
        [] \<Rightarrow> None
      | first # _ \<Rightarrow>
          let (use_dr_prio, best_nbr, best_dr_prio) = dr_best (uv_pim_neighbors v) None 0;
              best = (if use_dr_prio then (case best_nbr of None \<Rightarrow> nb_address first | Some a \<Rightarrow> a) else nb_address first)
          in if use_dr_prio \<and> best_dr_prio < uv_dr_prio v then None
             else if use_dr_prio \<and> best_dr_prio > uv_dr_prio v then best_nbr
             else if ntohl (uv_lcl_addr v) > ntohl best then None else Some best)"

definition dr_flags :: "uvif \<Rightarrow> u32 option \<Rightarrow> u32" where
  "dr_flags v b =
     (if uv_pim_neighbors v = [] then (uv_flags v AND NOT viff_pim_nbr) OR (viff_nonbrs OR viff_dr)
      else if b = None then uv_flags v OR viff_dr else uv_flags v AND NOT viff_dr)"

lemma dr_best_none: "dr_best ns b p = (True, None, q) \<Longrightarrow> q = p \<and> b = None"
  by (induction ns b p rule: dr_best.induct) (auto split: if_splits)

lemma dr_election_choice:
  "dr_election v = (uv_pim_neighbors v \<noteq> [] \<and> dr_choice v \<noteq> None \<and> uv_flags v AND viff_dr \<noteq> 0,
     v\<lparr>uv_flags := dr_flags v (dr_choice v), uv_pim_neighbor_dr := dr_choice v\<rparr>)"
proof (cases "uv_pim_neighbors v")
  case Nil
  then show ?thesis by (simp add: dr_election_def dr_choice_def dr_flags_def)
next
  case (Cons n ns)
  obtain u b q where d: "dr_best (n # ns) None 0 = (u, b, q)" by (cases "dr_best (n # ns) None 0") auto
  then have "u \<Longrightarrow> b = None \<Longrightarrow> q = 0" using dr_best_none [of "n # ns" None 0 q] by simp
  then show ?thesis using Cons d
    by (cases u; cases b) (auto simp: dr_election_def dr_choice_def dr_flags_def dr_won_def dr_lost_def dr_tiebreak_def
      word_gt_0 simp del: dr_best.simps)
qed

lemma dr_choice_best:
  assumes "sorted_wrt higher (uv_pim_neighbors v)" "uv_lcl_addr v \<notin> nb_address ` set (uv_pim_neighbors v)"
  shows "\<exists>p. is_best (dr_beats (by_prio v)) (insert (own_station v) (set (map station (uv_pim_neighbors v))))
    (case dr_choice v of None \<Rightarrow> uv_lcl_addr v | Some a \<Rightarrow> a, p) \<and>
    (dr_choice v = None \<longrightarrow> p = uv_dr_prio v)"
proof (cases "uv_pim_neighbors v")
  case Nil
  then show ?thesis by (simp add: dr_choice_def)
next
  case (Cons n ns)
  let ?ns = "n # ns"
  have s: "sorted_wrt higher ?ns" using assms(1) Cons by simp
  have l: "nb_address m \<noteq> uv_lcl_addr v" if "m \<in> set ?ns" for m using assms(2) that unfolding Cons by (metis imageI)
  obtain u b q where d: "dr_best ?ns None 0 = (u, b, q)" by (cases "dr_best ?ns None 0") auto
  have u: "u = by_prio v" using dr_best_present [of ?ns None 0] d Cons by simp
  have wins: "is_best (dr_beats x) (insert (own_station v) (set (map station ?ns))) (challenge (dr_beats x) (station m) (own_station v))"
    if "is_best (dr_beats x) (set (map station ?ns)) (station m)" for x m by (rule dr.best_insert [OF that])
  show ?thesis
  proof (cases u)
    case False
    have c: "dr_choice v = (if ntohl (uv_lcl_addr v) > ntohl (nb_address n) then None else Some (nb_address n))"
      using Cons d False by (simp add: dr_choice_def del: dr_best.simps)
    have "challenge (dr_beats False) (station n) (own_station v) = (if ntohl (uv_lcl_addr v) > ntohl (nb_address n) then own_station v else station n)"
      using l [of n] ntohl_linear [of "nb_address n" "uv_lcl_addr v"] by (auto simp: challenge_def dr_beats_def)
    then show ?thesis using wins [OF first_best [OF s]] c u False Cons by (simp only: split: if_splits) auto
  next
    case True
    then have p: "list_all nb_dr_prio_present ?ns" using u Cons by simp
    have "\<exists>m\<in>set ?ns. is_best (dr_beats True) (set (map station ?ns)) (station m) \<and> nb_dr_prio m = q \<and>
        (b = Some (nb_address m) \<or> b = None \<and> m = n \<and> q = 0)"
      using dr_best_by_prio [OF s p, of 0 None]
    proof
      assume a: "(\<forall>m\<in>set ?ns. nb_dr_prio m \<le> 0) \<and> dr_best ?ns None 0 = (True, None, 0)"
      then have "is_best (dr_beats True) (set (map station ?ns)) (station n)" using s by (auto simp: is_best_def dr_beats_def)
      then show ?thesis using a d by (intro bexI [of _ n]) auto
    qed (use d in auto)
    then obtain m where m: "m \<in> set ?ns" "is_best (dr_beats True) (set (map station ?ns)) (station m)" "nb_dr_prio m = q"
      "b = Some (nb_address m) \<or> b = None \<and> m = n \<and> q = 0" by blast
    have c: "dr_choice v = (if dr_beats True (station m) (own_station v) then Some (nb_address m) else None)"
      using Cons d True m(3,4) l [OF m(1)] ntohl_linear [of "nb_address m" "uv_lcl_addr v"]
      by (auto simp: dr_choice_def dr_beats_def Let_def word_gt_0 simp del: dr_best.simps)
    then show ?thesis using wins [OF m(2)] u True Cons by (cases "dr_beats True (station m) (own_station v)") (auto simp: challenge_def)
  qed
qed


lemma dr_election_best:
  assumes "sorted_wrt higher (uv_pim_neighbors v)" "uv_lcl_addr v \<notin> nb_address ` set (uv_pim_neighbors v)"
  shows "\<exists>p. is_best (dr_beats (by_prio v)) (insert (own_station v) (set (map station (uv_pim_neighbors v)))) (dr_of (snd (dr_election v)), p)"
  using dr_choice_best [OF assms] by (auto simp: dr_election_choice dr_of_def split: option.splits)

definition lan_view :: "(u32 \<times> u32 \<times> bool) set \<Rightarrow> uvif \<Rightarrow> bool" where
  "lan_view lan v \<longleftrightarrow> sorted_wrt higher (uv_pim_neighbors v) \<and> uv_lcl_addr v \<notin> nb_address ` set (uv_pim_neighbors v) \<and>
     lan = insert (uv_lcl_addr v, uv_dr_prio v, True)
       ((\<lambda>nbr. (nb_address nbr, nb_dr_prio nbr, nb_dr_prio_present nbr)) ` set (uv_pim_neighbors v))"

lemma lan_view_stations:
  assumes "lan_view lan v"
  shows "insert (own_station v) (set (map station (uv_pim_neighbors v))) = (\<lambda>(a, p, b). (a, p)) ` lan"
    "by_prio v \<longleftrightarrow> (\<forall>(a, p, b) \<in> lan. b)"
  using assms by (auto simp: lan_view_def image_image list_all_iff)

lemma lan_view_agree:
  assumes "lan_view lan v" "lan_view lan w"
  shows "dr_of (snd (dr_election v)) = dr_of (snd (dr_election w))"
proof -
  let ?S = "(\<lambda>(a, p, b). (a, p)) ` lan" and ?u = "\<forall>(a, p, b) \<in> lan. b"
  have "\<exists>p. is_best (dr_beats ?u) ?S (dr_of (snd (dr_election x)), p)" if "lan_view lan x" for x
    using dr_election_best [of x] lan_view_stations [OF that] that unfolding lan_view_def by simp
  from this [OF assms(1)] this [OF assms(2)] show ?thesis using dr.best_unique by blast
qed

text \<open>
  What an interface is like between two messages: the neighbours in decreasing order, this router not among them,
  the flags in step with whether there are any, and the last election the one that is due.
\<close>

definition nbrs_ok :: "uvif \<Rightarrow> bool" where
  "nbrs_ok v \<longleftrightarrow> sorted_wrt higher (uv_pim_neighbors v) \<and> list_all (\<lambda>nbr. nb_address nbr \<noteq> uv_lcl_addr v) (uv_pim_neighbors v) \<and>
     (uv_pim_neighbors v \<noteq> [] \<longrightarrow> uv_flags v AND viff_nonbrs = 0 \<and> uv_flags v AND viff_pim_nbr \<noteq> 0)"

definition vif_ok :: "uvif \<Rightarrow> bool" where
  "vif_ok v \<longleftrightarrow> nbrs_ok v \<and> snd (dr_election v) = v"

lemma dr_election_frame [simp]:
  "uv_pim_neighbors (snd (dr_election v)) = uv_pim_neighbors v" "uv_lcl_addr (snd (dr_election v)) = uv_lcl_addr v"
  "uv_dr_prio (snd (dr_election v)) = uv_dr_prio v"
  by (simp_all add: dr_election_choice)

abbreviation ballot :: "pim_nbr_entry \<Rightarrow> u32 \<times> bool \<times> u32" where
  "ballot nbr \<equiv> (nb_address nbr, nb_dr_prio_present nbr, nb_dr_prio nbr)"

lemma dr_best_cong: "map ballot ns = map ballot ns' \<Longrightarrow> dr_best ns b p = dr_best ns' b p"
proof (induction ns b p arbitrary: ns' rule: dr_best.induct)
  case (2 nbr nbrs b p)
  then obtain n ms where "ns' = n # ms" "ballot nbr = ballot n" "map ballot nbrs = map ballot ms" by (cases ns') auto
  then show ?case using "2.IH" by simp
qed simp

lemma dr_choice_cong:
  assumes "map ballot (uv_pim_neighbors v) = map ballot (uv_pim_neighbors w)" "uv_lcl_addr v = uv_lcl_addr w" "uv_dr_prio v = uv_dr_prio w"
  shows "dr_choice v = dr_choice w"
proof (cases "uv_pim_neighbors v")
  case Nil
  then show ?thesis using assms(1) by (simp add: dr_choice_def)
next
  case (Cons n ns)
  then obtain m ms where w: "uv_pim_neighbors w = m # ms" and n: "nb_address n = nb_address m" using assms(1) by (cases "uv_pim_neighbors w") auto
  have d: "dr_best (n # ns) None 0 = dr_best (m # ms) None 0" by (rule dr_best_cong) (use assms(1) Cons w in simp)
  show ?thesis unfolding dr_choice_def Cons w list.case d n assms(2,3) by (rule refl)
qed

lemma dr_election_idem: "snd (dr_election (snd (dr_election v))) = snd (dr_election v)"
proof -
  have "dr_choice (snd (dr_election v)) = dr_choice v" by (rule dr_choice_cong) simp_all
  moreover have "dr_flags (snd (dr_election v)) b = dr_flags v b" if "b = dr_choice v" for b
    unfolding dr_election_choice that dr_flags_def
    by (intro bit_word_eqI) (auto simp: bit_simps split: if_splits)
  ultimately show ?thesis by (simp add: dr_election_choice [of "snd (dr_election v)"]) (simp add: dr_election_choice)
qed


lemma dr_election_ok:
  assumes "nbrs_ok v"
  shows "vif_ok (snd (dr_election v))"
proof -
  have "(uv_flags (snd (dr_election v))) AND viff_nonbrs = uv_flags v AND viff_nonbrs"
    "(uv_flags (snd (dr_election v))) AND viff_pim_nbr = uv_flags v AND viff_pim_nbr" if "uv_pim_neighbors v \<noteq> []"
    using that by (auto simp: dr_election_choice dr_flags_def viff_nonbrs_def viff_dr_def viff_pim_nbr_def and.assoc bit.conj_disj_distrib2)
  then show ?thesis using assms by (simp add: vif_ok_def nbrs_ok_def dr_election_idem)
qed

lemma restart_dr_election_vif [simp]: "fst (snd (restart_dr_election vifi v)) = snd (dr_election v)"
  by (simp add: restart_dr_election_def split_def Let_def)

lemma delete_pim_nbr_vif:
  "fst (delete_pim_nbr vifi addr v) = snd (dr_election (v\<lparr>uv_pim_neighbors := filter (\<lambda>nbr. nb_address nbr \<noteq> addr) (uv_pim_neighbors v),
     uv_pim_neighbor_dr := (if uv_pim_neighbor_dr v = Some addr then None else uv_pim_neighbor_dr v)\<rparr>))"
  by (simp add: delete_pim_nbr_def split_def Let_def)

lemma delete_pim_nbr_ok: "vif_ok v \<Longrightarrow> vif_ok (fst (delete_pim_nbr vifi addr v))"
  unfolding delete_pim_nbr_vif
  by (rule dr_election_ok) (auto simp: vif_ok_def nbrs_ok_def list_all_iff sorted_wrt_filter)

lemma forget_ballot [simp]:
  "nb_address (nbr_forget_secaddr a n) = nb_address n" "nb_dr_prio_present (nbr_forget_secaddr a n) = nb_dr_prio_present n"
  "nb_dr_prio (nbr_forget_secaddr a n) = nb_dr_prio n"
  by (simp_all add: nbr_forget_secaddr_def Let_def split: option.split)

lemma secaddrs_ballots: "map ballot (snd (secaddrs_loop s as l ns)) = map ballot ns"
  by (induction s as l ns rule: secaddrs_loop.induct) (auto simp: comp_def)

lemma cache_nbr_settings_frame:
  assumes "cache_nbr_settings opts listed nbr v = (nbr', v')"
  shows "ballot nbr' = (nb_address nbr, ho_dr_prio_present opts, ho_dr_prio opts)"
    "map ballot (uv_pim_neighbors v') = map ballot (uv_pim_neighbors v)" "v' = v\<lparr>uv_pim_neighbors := uv_pim_neighbors v'\<rparr>"
  using assms secaddrs_ballots [of "nb_address nbr" listed "[]" "uv_pim_neighbors v"]
  by (auto simp: cache_nbr_settings_def cache_nbr_secaddrs_def split_def Let_def)

lemma sorted_ballots: "map ballot ns = map ballot ms \<Longrightarrow> sorted_wrt higher ns = sorted_wrt higher ms"
proof -
  assume "map ballot ns = map ballot ms"
  then have "map fst (map ballot ns) = map fst (map ballot ms)" by simp
  then have "map nb_address ns = map nb_address ms" by (simp add: comp_def)
  moreover have "sorted_wrt higher xs = sorted_wrt (\<lambda>a b. ntohl a > ntohl b) (map nb_address xs)" for xs by (simp add: sorted_wrt_map)
  ultimately show ?thesis by simp
qed

lemma nbr_place_spec:
  assumes "sorted_wrt higher ns" "nbr_place src ns = (i, known)"
  shows "i \<le> length ns" "\<And>n. n \<in> set (take i ns) \<Longrightarrow> ntohl src < ntohl (nb_address n)"
    "known \<Longrightarrow> i < length ns \<and> nb_address (ns ! i) = src" "\<not> known \<Longrightarrow> n \<in> set (drop i ns) \<Longrightarrow> ntohl (nb_address n) < ntohl src"
proof -
  have "i \<le> length ns \<and> (\<forall>n\<in>set (take i ns). ntohl src < ntohl (nb_address n)) \<and> (known \<longrightarrow> i < length ns \<and> nb_address (ns ! i) = src) \<and>
      (\<not> known \<longrightarrow> (\<forall>n\<in>set (drop i ns). ntohl (nb_address n) < ntohl src))"
    using assms
  proof (induction src ns arbitrary: i rule: nbr_place.induct)
    case (2 src nbr nbrs)
    show ?case
    proof (cases "ntohl src < ntohl (nb_address nbr)")
      case True
      then obtain j where "nbr_place src nbrs = (j, known)" "i = Suc j" using "2.prems"(2) by (cases "nbr_place src nbrs") auto
      then show ?thesis using "2.IH" [OF True, of j] "2.prems"(1) True by auto
    next
      case False
      then show ?thesis using "2.prems" ntohl_linear [of src "nb_address nbr"] by auto
    qed
  qed simp
  then show "i \<le> length ns" "\<And>n. n \<in> set (take i ns) \<Longrightarrow> ntohl src < ntohl (nb_address n)"
    "known \<Longrightarrow> i < length ns \<and> nb_address (ns ! i) = src" "\<not> known \<Longrightarrow> n \<in> set (drop i ns) \<Longrightarrow> ntohl (nb_address n) < ntohl src"
    by blast+
qed


text \<open>Two interfaces that the election and the invariant cannot tell apart.\<close>

definition alike :: "uvif \<Rightarrow> uvif \<Rightarrow> bool" where
  "alike v w \<longleftrightarrow> map ballot (uv_pim_neighbors v) = map ballot (uv_pim_neighbors w) \<and> uv_lcl_addr v = uv_lcl_addr w \<and>
     uv_flags v = uv_flags w \<and> uv_dr_prio v = uv_dr_prio w \<and> uv_pim_neighbor_dr v = uv_pim_neighbor_dr w"

lemma nbrs_ok_cong:
  assumes "map ballot (uv_pim_neighbors v) = map ballot (uv_pim_neighbors w)" "uv_lcl_addr v = uv_lcl_addr w" "uv_flags v = uv_flags w"
  shows "nbrs_ok v = nbrs_ok w"
proof -
  have a: "list_all (\<lambda>nbr. nb_address nbr \<noteq> x) ns = list_all (\<lambda>b. fst b \<noteq> x) (map ballot ns)" for x ns by (simp add: list_all_iff)
  show ?thesis using assms sorted_ballots [OF assms(1)] unfolding nbrs_ok_def a by auto
qed

lemma vif_ok_cong:
  assumes "alike v w"
  shows "vif_ok v = vif_ok w"
proof -
  note a = assms [unfolded alike_def]
  have e: "snd (dr_election x) = x \<longleftrightarrow> uv_flags x = dr_flags x (dr_choice x) \<and> uv_pim_neighbor_dr x = dr_choice x" for x
  proof
    assume "snd (dr_election x) = x"
    then have "uv_flags x = uv_flags (snd (dr_election x))" "uv_pim_neighbor_dr x = uv_pim_neighbor_dr (snd (dr_election x))" by simp_all
    then show "uv_flags x = dr_flags x (dr_choice x) \<and> uv_pim_neighbor_dr x = dr_choice x" by (simp add: dr_election_choice)
  next
    assume "uv_flags x = dr_flags x (dr_choice x) \<and> uv_pim_neighbor_dr x = dr_choice x"
    then show "snd (dr_election x) = x" by (simp add: dr_election_choice)
  qed
  have "uv_pim_neighbors v = [] \<longleftrightarrow> uv_pim_neighbors w = []" using a by auto
  then show ?thesis
    using nbrs_ok_cong [of v w] dr_choice_cong [of v w] a by (simp add: vif_ok_def e dr_flags_def)
qed

lemma put_vif_nth [simp]:
  "vifi < length (pi_uvifs st) \<Longrightarrow> pi_uvifs (put_vif vifi v st) ! vifi = v" "length (pi_uvifs (put_vif vifi v st)) = length (pi_uvifs st)"
  "j \<noteq> vifi \<Longrightarrow> pi_uvifs (put_vif vifi v st) ! j = pi_uvifs st ! j"
  by (simp_all add: put_vif_def)

lemma trigger_hello_vif:
  assumes "vifi < length (pi_uvifs st)"
  obtains w where "pi_uvifs (fst (trigger_hello rnd vifi src st)) = (pi_uvifs st)[vifi := w]" "alike w (pi_uvifs st ! vifi)"
proof -
  have "\<exists>w. pi_uvifs (fst (trigger_hello rnd vifi src st)) = (pi_uvifs st)[vifi := w] \<and> alike w (pi_uvifs st ! vifi)"
    using assms by (auto simp: trigger_hello_def put_vif_def Let_def alike_def)
  then show ?thesis using that by blast
qed

lemma hello_election_vif:
  "vifi < length (pi_uvifs st) \<Longrightarrow> pi_uvifs (fst (hello_election vifi st)) = (pi_uvifs st)[vifi := snd (dr_election (pi_uvifs st ! vifi))]"
  by (simp add: hello_election_def split_def Let_def put_vif_def)

lemma hello_rebooted_ok:
  assumes i: "vifi < length (pi_uvifs st)" and ok: "nbrs_ok (pi_uvifs st ! vifi)"
  shows "vif_ok (pi_uvifs (fst (hello_rebooted rnd vifi src st)) ! vifi)"
    "j \<noteq> vifi \<Longrightarrow> pi_uvifs (fst (hello_rebooted rnd vifi src st)) ! j = pi_uvifs st ! j"
    "length (pi_uvifs (fst (hello_rebooted rnd vifi src st))) = length (pi_uvifs st)"
proof -
  let ?st = "fst (trigger_hello rnd vifi src st)"
  obtain w where t: "pi_uvifs ?st = (pi_uvifs st)[vifi := w]" "alike w (pi_uvifs st ! vifi)" using trigger_hello_vif [OF i] by blast
  have "nbrs_ok w" using nbrs_ok_cong [of w "pi_uvifs st ! vifi"] t(2) ok by (simp add: alike_def)
  then have "vif_ok (snd (dr_election w))" by (rule dr_election_ok)
  moreover have e: "pi_uvifs (fst (hello_rebooted rnd vifi src st)) = (pi_uvifs st)[vifi := snd (dr_election w)]"
    using i hello_election_vif [of vifi ?st] by (simp add: hello_rebooted_def split_def Let_def t)
  ultimately show "vif_ok (pi_uvifs (fst (hello_rebooted rnd vifi src st)) ! vifi)" using i by simp
  show "j \<noteq> vifi \<Longrightarrow> pi_uvifs (fst (hello_rebooted rnd vifi src st)) ! j = pi_uvifs st ! j"
    "length (pi_uvifs (fst (hello_rebooted rnd vifi src st))) = length (pi_uvifs st)" by (simp_all add: e)
qed

definition only_presence :: "u32 \<Rightarrow> pim_hello_opts \<Rightarrow> pim_nbr_entry \<Rightarrow> bool" where
  "only_presence src opts n \<longleftrightarrow> nb_address n = src \<and> ho_holdtime opts \<noteq> 0 \<and> nb_genid n = ho_genid opts \<and>
     nb_dr_prio n = ho_dr_prio opts \<and> nb_dr_prio_present n \<noteq> ho_dr_prio_present opts"

lemma nbr_place_cong: "map nb_address xs = map nb_address ys \<Longrightarrow> nbr_place s xs = nbr_place s ys"
proof (induction s xs arbitrary: ys rule: nbr_place.induct)
  case (2 src nbr nbrs)
  then obtain y ys' where "ys = y # ys'" "nb_address nbr = nb_address y" "map nb_address nbrs = map nb_address ys'" by (cases ys) auto
  then show ?case using "2.IH" by simp
qed simp

lemma insert_nbr_ok:
  assumes ok: "nbrs_ok v" and b: "map ballot ns = map ballot (uv_pim_neighbors v)"
    and p: "nbr_place (nb_address n) (uv_pim_neighbors v) = (i, False)" and n: "nb_address n \<noteq> uv_lcl_addr v"
  shows "nbrs_ok (insert_nbr i n (v\<lparr>uv_pim_neighbors := ns\<rparr>))"
proof -
  have "map nb_address ns = map nb_address (uv_pim_neighbors v)" using arg_cong [OF b, of "map fst"] by (simp add: comp_def)
  then have p': "nbr_place (nb_address n) ns = (i, False)" using p nbr_place_cong by metis
  have s: "sorted_wrt higher ns" "list_all (\<lambda>nbr. nb_address nbr \<noteq> uv_lcl_addr v) ns"
    using ok nbrs_ok_cong [of "v\<lparr>uv_pim_neighbors := ns\<rparr>" v] b by (simp_all add: nbrs_ok_def)
  have "sorted_wrt higher (take i ns @ drop i ns)" using s(1) by simp
  then have "sorted_wrt higher (take i ns @ n # drop i ns)"
    using nbr_place_spec [OF s(1) p'] by (simp only: sorted_wrt_append sorted_wrt.simps) simp
  moreover have "list_all (\<lambda>nbr. nb_address nbr \<noteq> uv_lcl_addr v) (take i ns @ n # drop i ns)"
    using s(2) n by (auto simp: list_all_iff dest: in_set_takeD in_set_dropD)
  moreover have "((uv_flags v AND NOT viff_nonbrs) OR viff_pim_nbr) AND viff_nonbrs = 0"
    "((uv_flags v AND NOT viff_nonbrs) OR viff_pim_nbr) AND viff_pim_nbr = viff_pim_nbr" "viff_pim_nbr \<noteq> 0"
    by (simp_all add: viff_nonbrs_def viff_pim_nbr_def bit.conj_disj_distrib2 and.assoc)
  ultimately show ?thesis by (simp add: nbrs_ok_def insert_nbr_def)
qed


lemma update_nbr_ballots:
  assumes "i < length ns" "map ballot ms = map ballot ns" "nb_address n = nb_address (ns ! i)"
  shows "map nb_address (ms[i := n]) = map nb_address ns"
    "nb_dr_prio_present n = nb_dr_prio_present (ns ! i) \<Longrightarrow> nb_dr_prio n = nb_dr_prio (ns ! i) \<Longrightarrow> map ballot (ms[i := n]) = map ballot ns"
proof -
  have l: "length ms = length ns" using assms(2) by (rule map_eq_imp_length_eq)
  have "map nb_address ms = map nb_address ns" using arg_cong [OF assms(2), of "map fst"] by (simp add: comp_def)
  then show "map nb_address (ms[i := n]) = map nb_address ns" using assms l by (simp add: map_update) (metis list_update_id nth_map)
  show "nb_dr_prio_present n = nb_dr_prio_present (ns ! i) \<Longrightarrow> nb_dr_prio n = nb_dr_prio (ns ! i) \<Longrightarrow> map ballot (ms[i := n]) = map ballot ns"
    using assms l by (simp add: map_update) (metis (no_types, lifting) list_update_id nth_map)
qed

lemma nbrs_ok_addresses:
  assumes "nbrs_ok v" "map nb_address ns = map nb_address (uv_pim_neighbors v)"
  shows "nbrs_ok (v\<lparr>uv_pim_neighbors := ns\<rparr>)"
proof -
  have s: "sorted_wrt higher xs = sorted_wrt (\<lambda>a b. ntohl a > ntohl b) (map nb_address xs)"
    "list_all (\<lambda>nbr. nb_address nbr \<noteq> x) xs = list_all (\<lambda>a. a \<noteq> x) (map nb_address xs)" for xs x by (simp_all add: sorted_wrt_map list_all_iff)
  have "ns = [] \<longleftrightarrow> uv_pim_neighbors v = []" using assms(2) by auto
  then show ?thesis using assms unfolding nbrs_ok_def s by simp
qed

lemma hello_from_ok:
  assumes i: "vifi < length (pi_uvifs st)" and ok: "vif_ok (pi_uvifs st ! vifi)" and src: "src \<noteq> uv_lcl_addr (pi_uvifs st ! vifi)"
    and q: "list_all (\<lambda>n. \<not> only_presence src opts n) (uv_pim_neighbors (pi_uvifs st ! vifi))"
  shows "vif_ok (pi_uvifs (fst (hello_from rnd vifi src opts listed st)) ! vifi)"
proof -
  let ?v = "pi_uvifs st ! vifi"
  have n: "nbrs_ok ?v" and s: "sorted_wrt higher (uv_pim_neighbors ?v)" using ok by (simp_all add: vif_ok_def nbrs_ok_def)
  obtain k known where p: "nbr_place src (uv_pim_neighbors ?v) = (k, known)" by fastforce
  note pl = nbr_place_spec [OF s p]
  define old where "old = (if known then uv_pim_neighbors ?v ! k else new_nbr src)"
  obtain nbr v' where c: "cache_nbr_settings opts listed old ?v = (nbr, v')" by fastforce
  note f = cache_nbr_settings_frame [OF c]
  define ns where "ns = uv_pim_neighbors v'"
  have v': "v' = ?v\<lparr>uv_pim_neighbors := ns\<rparr>" unfolding ns_def by (rule f(3))
  have b: "map ballot ns = map ballot (uv_pim_neighbors ?v)" unfolding ns_def by (rule f(2))
  have a: "nb_address nbr = src" using f(1) pl(3) by (auto simp: old_def new_nbr_def)
  show ?thesis
  proof (cases known)
    case False
    have "nbrs_ok (insert_nbr k nbr v')"
      unfolding v' by (rule insert_nbr_ok [OF n b]) (use a p False src in simp_all)
    then show ?thesis using hello_rebooted_ok(1) [of vifi "put_vif vifi (insert_nbr k nbr v') st"] i p c False
      by (simp add: hello_from_def old_def)
  next
    case True
    note k = pl(3) [OF True]
    define w where "w = ?v\<lparr>uv_pim_neighbors := ns[k := nbr]\<rparr>"
    note u = update_nbr_ballots [OF _ b, of k nbr]
    have "nbrs_ok w" unfolding w_def by (rule nbrs_ok_addresses [OF n]) (use u(1) k a in simp)
    then have 1: "vif_ok (pi_uvifs (fst (hello_rebooted rnd vifi src (put_vif vifi w st))) ! vifi)"
      "vif_ok (pi_uvifs (fst (hello_election vifi (put_vif vifi w st))) ! vifi)"
      using hello_rebooted_ok(1) [of vifi "put_vif vifi w st"] dr_election_ok hello_election_vif [of vifi "put_vif vifi w st"] i by simp_all
    have "vif_ok w" if "ho_holdtime opts \<noteq> 0" "nb_genid (uv_pim_neighbors ?v ! k) = ho_genid opts" "nb_dr_prio (uv_pim_neighbors ?v ! k) = ho_dr_prio opts"
    proof -
      have "nb_dr_prio_present (uv_pim_neighbors ?v ! k) = ho_dr_prio_present opts"
        using q k that nth_mem [of k "uv_pim_neighbors ?v"] by (auto simp: list_all_iff only_presence_def)
      then have "alike w ?v" using u(2) k a f(1) that(3) by (simp add: alike_def w_def)
      then show ?thesis using ok vif_ok_cong by blast
    qed
    then show ?thesis using 1 i p c True delete_pim_nbr_ok [OF ok]
      by (simp add: hello_from_def old_def split_def Let_def w_def v')
  qed
qed

lemma hello_from_others:
  assumes "vifi < length (pi_uvifs st)"
  shows "length (pi_uvifs (fst (hello_from rnd vifi src opts listed st))) = length (pi_uvifs st)"
    "j \<noteq> vifi \<Longrightarrow> pi_uvifs (fst (hello_from rnd vifi src opts listed st)) ! j = pi_uvifs st ! j"
proof -
  have e: "length (pi_uvifs (fst (hello_election vifi s))) = length (pi_uvifs s)"
    "j \<noteq> vifi \<Longrightarrow> pi_uvifs (fst (hello_election vifi s)) ! j = pi_uvifs s ! j" for s
    by (simp_all add: hello_election_def split_def Let_def)
  have t: "length (pi_uvifs (fst (trigger_hello rnd vifi src s))) = length (pi_uvifs s)"
    "j \<noteq> vifi \<Longrightarrow> pi_uvifs (fst (trigger_hello rnd vifi src s)) ! j = pi_uvifs s ! j" for s
    by (simp_all add: trigger_hello_def Let_def put_vif_def)
  have r: "length (pi_uvifs (fst (hello_rebooted rnd vifi src s))) = length (pi_uvifs s)"
    "j \<noteq> vifi \<Longrightarrow> pi_uvifs (fst (hello_rebooted rnd vifi src s)) ! j = pi_uvifs s ! j" for s
    using e [of "fst (trigger_hello rnd vifi src s)"] t by (simp_all add: hello_rebooted_def split_def Let_def)
  show "length (pi_uvifs (fst (hello_from rnd vifi src opts listed st))) = length (pi_uvifs st)"
    "j \<noteq> vifi \<Longrightarrow> pi_uvifs (fst (hello_from rnd vifi src opts listed st)) ! j = pi_uvifs st ! j"
    using e r by (simp_all add: hello_from_def split_def Let_def)
qed

end
