(* ===== verification/Nbr_Keep.thy ===== *)
theory Nbr_Keep
  imports Dr_Election
begin

text \<open>
  What the Hello protocol promises: a Hello is read within its bytes and leaves every interface in order, a neighbour
  that falls silent goes when its holdtime has run out, an address belongs to the neighbour that listed it last, and
  the timers of a link follow the largest values on it.
\<close>


section \<open>Receiving\<close>

lemma those_map: "(\<And>x. x \<in> set xs \<Longrightarrow> f x \<noteq> None) \<Longrightarrow> those (map f xs) = Some (map (\<lambda>x. the (f x)) xs)"
  by (induction xs) (force, fastforce)

lemma hello_listed_Some:
  assumes "pim_parse_hello msg = Some (PIM_HELLO_OK, opts)"
  shows "\<exists>l. hello_listed msg opts = Some l"
proof (cases "ho_addr_list opts")
  case None
  then show ?thesis using parse_hello_no_list [OF assms] by (simp add: hello_listed_def)
next
  case (Some p)
  then have "pim_hello_addr msg opts i \<noteq> None" if "i < unat (ho_addr_list_len opts) div 6" for i
    using hello_addr_Some [OF Some _ that] parse_hello_addr_list [OF assms Some] by simp
  then show ?thesis using those_map [of "[0..<unat (ho_addr_list_len opts) div 6]" "pim_hello_addr msg opts"] by (simp add: hello_listed_def)
qed

lemma hello_listed_holdtime [simp]: "hello_listed msg (opts\<lparr>ho_holdtime := h\<rparr>) = hello_listed msg opts"
  by (simp add: hello_listed_def pim_hello_addr_def cong: map_cong)

lemma parse_pim_hello_returns: "\<exists>r. parse_pim_hello h msg = Some r \<and> (\<forall>opts. r = Some opts \<longrightarrow> (\<exists>l. hello_listed msg opts = Some l))"
proof -
  obtain rc opts where p: "pim_parse_hello msg = Some (rc, opts)" using parse_hello_returns by blast
  then show ?thesis using hello_listed_Some [of msg opts] by (cases "rc = PIM_HELLO_OK") (auto simp: parse_pim_hello_def)
qed

lemma find_vif_direct_loop_local:
  "find_vif_direct_loop k src n vs = r \<Longrightarrow> r \<noteq> no_vif \<Longrightarrow> list_all (\<lambda>v. uv_flags v AND viff_tunnel = 0) vs \<Longrightarrow>
   n \<le> r \<and> r < n + length vs \<and> uv_lcl_addr (vs ! (r - n)) \<noteq> src \<or> list_all (\<lambda>v. out_of_service v \<or> uv_lcl_addr v \<noteq> src) vs"
proof (induction k src n vs rule: find_vif_direct_loop.induct)
  case (2 k src n v vs)
  have o: "uv_flags v AND (viff_disabled OR viff_down OR viff_register OR viff_tunnel) \<noteq> 0 \<longleftrightarrow> out_of_service v"
    using "2.prems"(3) by (simp add: or.assoc [symmetric] bit.conj_disj_distrib)
  let ?P = "\<lambda>m xs. m \<le> r \<and> r < m + length xs \<and> uv_lcl_addr (xs ! (r - m)) \<noteq> src \<or> list_all (\<lambda>v. out_of_service v \<or> uv_lcl_addr v \<noteq> src) xs"
  have step: "?P n (v # vs)" if "?P (Suc n) vs" "out_of_service v \<or> uv_lcl_addr v \<noteq> src"
    using that by (auto simp: Suc_diff_le less_Suc_eq_le nth_Cons' split: if_splits)
  consider "out_of_service v" | "\<not> out_of_service v" "src \<noteq> uv_lcl_addr v" "on_link src v" | "\<not> out_of_service v" "src \<noteq> uv_lcl_addr v" "\<not> on_link src v"
    using "2.prems"(1,2) o by (auto split: if_splits)
  then show ?case
  proof cases
    case 1
    then show ?thesis using "2.IH"(1) "2.prems" step unfolding o [symmetric] by simp
  next
    case 2
    then show ?thesis using "2.prems" by (simp add: o)
  next
    case 3
    then show ?thesis using "2.IH"(2) "2.prems" step unfolding o [symmetric] by simp
  qed
qed simp

lemma find_vif_direct_not_local:
  assumes "find_vif_direct k uvifs src = i" "i \<noteq> no_vif" "i < length uvifs" "list_all (\<lambda>v. uv_flags v AND viff_tunnel = 0) uvifs" "\<not> out_of_service (uvifs ! i)"
  shows "src \<noteq> uv_lcl_addr (uvifs ! i)"
  using find_vif_direct_loop_local [OF assms(1) [unfolded find_vif_direct_def] assms(2,4)] assms(3,5) by (auto simp: list_all_length)

definition hello_steady :: "u32 \<Rightarrow> bytes \<Rightarrow> pim_ifs \<Rightarrow> bool" where
  "hello_steady src msg st \<longleftrightarrow>
     (case parse_pim_hello (pim_timer_hello_holdtime st) msg of
        Some (Some opts) \<Rightarrow> list_all (\<lambda>v. list_all (\<lambda>n. \<not> only_presence src opts n) (uv_pim_neighbors v)) (pi_uvifs st)
      | _ \<Rightarrow> True)"

lemma receive_pim_hello_cases:
  assumes "routes_on (pi_uvifs st) k" "list_all (\<lambda>v. uv_flags v AND viff_tunnel = 0) (pi_uvifs st)"
  obtains (refused) "receive_pim_hello k rnd src msg st = Some (False, st, [])"
    | (taken) vifi opts listed where "vifi < length (pi_uvifs st)" "parse_pim_hello (pim_timer_hello_holdtime st) msg = Some (Some opts)"
      "src \<noteq> uv_lcl_addr (pi_uvifs st ! vifi)" "receive_pim_hello k rnd src msg st = Some (True, hello_from rnd vifi src opts listed st)"
proof -
  let ?i = "find_vif_direct k (pi_uvifs st) src"
  obtain r where r: "parse_pim_hello (pim_timer_hello_holdtime st) msg = Some r" "\<forall>opts. r = Some opts \<longrightarrow> (\<exists>l. hello_listed msg opts = Some l)"
    using parse_pim_hello_returns by blast
  show ?thesis
  proof (cases "receive_pim_hello k rnd src msg st = Some (False, st, [])")
    case False
    then have i: "?i \<noteq> no_vif" "uv_flags (pi_uvifs st ! ?i) AND (viff_down OR viff_disabled OR viff_register) = 0"
      and s: "r \<noteq> None" using r by (cases r; auto simp: receive_pim_hello_def Let_def split: if_splits)+
    then obtain opts l where o: "r = Some opts" "hello_listed msg opts = Some l" using r(2) by auto
    have v: "?i < length (pi_uvifs st)" using find_vif_direct_valid [OF assms(1) i(1)] .
    have "\<not> out_of_service (pi_uvifs st ! ?i)" using i(2) by (simp add: or.commute or.left_commute)
    then have "src \<noteq> uv_lcl_addr (pi_uvifs st ! ?i)" using find_vif_direct_not_local [OF refl i(1) v assms(2)] by simp
    moreover have "receive_pim_hello k rnd src msg st = Some (True, hello_from rnd ?i src opts l st)"
      using False r(1) o i by (auto simp: receive_pim_hello_def Let_def split: if_splits)
    ultimately show ?thesis using taken [OF v] r(1) o(1) by simp
  qed (rule refused)
qed


lemma receive_pim_hello_ok:
  assumes "routes_on (pi_uvifs st) k" "list_all (\<lambda>v. uv_flags v AND viff_tunnel = 0) (pi_uvifs st)" "list_all vif_ok (pi_uvifs st)"
    "hello_steady src msg st"
  shows "\<exists>accepted st' acts. receive_pim_hello k rnd src msg st = Some (accepted, st', acts) \<and> list_all vif_ok (pi_uvifs st') \<and>
    length (pi_uvifs st') = length (pi_uvifs st)"
  using assms(1,2)
proof (cases rule: receive_pim_hello_cases [where rnd = rnd and src = src and msg = msg])
  case refused
  then show ?thesis using assms(3) by blast
next
  case (taken vifi opts listed)
  obtain st' acts where h: "hello_from rnd vifi src opts listed st = (st', acts)" by fastforce
  have q: "list_all (\<lambda>n. \<not> only_presence src opts n) (uv_pim_neighbors (pi_uvifs st ! vifi))"
    using assms(4) taken(1,2) by (simp add: hello_steady_def list_all_length)
  note f = hello_from_others [OF taken(1), where rnd = rnd and src = src and opts = opts and listed = listed, unfolded h, simplified]
  have "vif_ok (pi_uvifs st' ! j)" if "j < length (pi_uvifs st)" for j
    using hello_from_ok [OF taken(1) _ taken(3) q, where rnd = rnd and listed = listed] assms(3) taken(1) that f(2) [of j] h by (cases "j = vifi") (auto simp: list_all_length)
  then show ?thesis using taken(4) f(1) h by (auto simp: list_all_length)
qed


section \<open>Ageing\<close>

definition nbr_at :: "u32 \<Rightarrow> uvif \<Rightarrow> pim_nbr_entry option" where
  "nbr_at a v = find (\<lambda>n. nb_address n = a) (uv_pim_neighbors v)"

lemma find_other: "find (\<lambda>n. nb_address n = a) (filter (\<lambda>n. nb_address n \<noteq> b) ns) = (if a = b then None else find (\<lambda>n. nb_address n = a) ns)"
  by (induction ns) auto

lemma find_update:
  "find (\<lambda>n. nb_address n = a) (map (\<lambda>m. if nb_address m = b then m\<lparr>nb_timer := t\<rparr> else m) ns) =
   (if a = b then map_option (\<lambda>m. m\<lparr>nb_timer := t\<rparr>) (find (\<lambda>n. nb_address n = a) ns) else find (\<lambda>n. nb_address n = a) ns)"
  by (induction ns) auto

lemma delete_pim_nbr_at: "nbr_at a (fst (delete_pim_nbr i b v)) = (if a = b then None else nbr_at a v)"
  by (simp add: nbr_at_def delete_pim_nbr_vif find_other)

definition aged :: "pim_nbr_entry \<Rightarrow> pim_nbr_entry option" where
  "aged n = (if nb_timer n = 0xffff then Some n else if timer_tick (nb_timer n) \<noteq> 0 then Some (n\<lparr>nb_timer := timer_tick (nb_timer n)\<rparr>) else None)"

lemma age_nbr_at: "nbr_at a (fst (age_nbr i b (v, acts))) = (if a = b then Option.bind (nbr_at a v) aged else nbr_at a v)"
proof (cases "nbr_at b v")
  case None
  then show ?thesis by (simp add: age_nbr_def nbr_at_def)
next
  case (Some n)
  have "age_nbr i b (v, acts) = (if nb_timer n = 0xffff then (v, acts)
     else if timer_tick (nb_timer n) \<noteq> 0
     then (v\<lparr>uv_pim_neighbors := map (\<lambda>m. if nb_address m = b then m\<lparr>nb_timer := timer_tick (nb_timer n)\<rparr> else m) (uv_pim_neighbors v)\<rparr>, acts)
     else apsnd (append acts) (delete_pim_nbr i b v))"
    using Some by (simp add: age_nbr_def nbr_at_def)
  moreover have "nbr_at a (v\<lparr>uv_pim_neighbors := map (\<lambda>m. if nb_address m = b then m\<lparr>nb_timer := t\<rparr> else m) (uv_pim_neighbors v)\<rparr>) =
      (if a = b then map_option (\<lambda>m. m\<lparr>nb_timer := t\<rparr>) (nbr_at a v) else nbr_at a v)" for t by (simp add: nbr_at_def find_update)
  ultimately show ?thesis using Some delete_pim_nbr_at [of a i b v] by (cases "a = b") (simp_all add: aged_def)
qed

lemma age_nbr_out: "out_of_service (fst (age_nbr i b x)) = out_of_service (fst x)"
proof -
  have d: "uv_flags (snd (dr_election v)) AND (viff_disabled OR viff_down OR viff_register) = uv_flags v AND (viff_disabled OR viff_down OR viff_register)" for v
    by (simp add: dr_election_choice dr_flags_def viff_disabled_def viff_down_def viff_register_def viff_dr_def viff_nonbrs_def viff_pim_nbr_def
      bit.conj_disj_distrib2 and.assoc)
  show ?thesis by (cases x) (simp add: age_nbr_def delete_pim_nbr_vif d split: option.split)
qed

lemma age_nbrs_at:
  assumes "distinct bs"
  shows "nbr_at a (fst (fold (age_nbr i) bs x)) = (if a \<in> set bs then Option.bind (nbr_at a (fst x)) aged else nbr_at a (fst x))"
  using assms
proof (induction bs arbitrary: x)
  case (Cons b bs)
  then show ?case using age_nbr_at [of a i b "fst x" "snd x"] by auto
qed simp

lemma age_nbrs_out: "out_of_service (fst (fold (age_nbr i) bs x)) = out_of_service (fst x)"
  by (induction bs arbitrary: x) (simp_all add: age_nbr_out)


abbreviation addresses :: "uvif \<Rightarrow> u32 list" where
  "addresses v \<equiv> map nb_address (uv_pim_neighbors v)"

lemma nbr_at_None: "nbr_at a v = None \<longleftrightarrow> a \<notin> set (addresses v)"
  by (auto simp: nbr_at_def find_None_iff)

lemma age_nbrs_distinct: "distinct (addresses (fst x)) \<Longrightarrow> distinct (addresses (fst (fold (age_nbr i) bs x)))"
proof (induction bs arbitrary: x)
  case (Cons b bs)
  have "addresses (fst (delete_pim_nbr i b v)) = filter (\<lambda>a. a \<noteq> b) (addresses v)" for v by (simp add: delete_pim_nbr_vif filter_map comp_def)
  then have "distinct (addresses (fst (age_nbr i b x)))" using Cons.prems
    by (cases x) (simp add: age_nbr_def comp_def if_distrib [of nb_address] cong: if_cong split: option.split)
  then show ?case using Cons.IH by simp
qed simp

lemma age_vif_at:
  assumes "i < length (pi_uvifs st)" "distinct (addresses (pi_uvifs st ! i))"
  defines "v \<equiv> pi_uvifs st ! i" and "w \<equiv> pi_uvifs (fst (age_vif i st)) ! i"
  shows "nbr_at a w = (if out_of_service v then nbr_at a v else Option.bind (nbr_at a v) aged)"
    "out_of_service w = out_of_service v" "distinct (addresses w)"
proof -
  let ?f = "fst (fold (age_nbr i) (addresses v) (v, []))"
  have w: "w = v \<or> (\<exists>t. w = ?f\<lparr>uv_hello_timer := t\<rparr>)" and o: "out_of_service v \<longleftrightarrow> w = v \<and> out_of_service v"
    and n: "\<not> out_of_service v \<Longrightarrow> \<exists>t. w = ?f\<lparr>uv_hello_timer := t\<rparr>"
    using assms(1) by (auto simp: w_def v_def age_vif_def send_pim_hello_def put_vif_def split_def Let_def)
  have at: "nbr_at a (x\<lparr>uv_hello_timer := t\<rparr>) = nbr_at a x" for x t by (simp add: nbr_at_def)
  have b: "nbr_at a ?f = Option.bind (nbr_at a v) aged"
    using age_nbrs_at [of "addresses v" a i "(v, [])"] nbr_at_None [of a v] assms(2) by (cases "nbr_at a v") (auto simp: v_def)
  show "nbr_at a w = (if out_of_service v then nbr_at a v else Option.bind (nbr_at a v) aged)" using o n at b by auto
  show "out_of_service w = out_of_service v" using w age_nbrs_out [of i "addresses v" "(v, [])"] by auto
  show "distinct (addresses w)" using w age_nbrs_distinct [of "(v, [])" i "addresses v"] assms(2) by (auto simp: v_def)
qed

lemma age_vif_others [simp]:
  "length (pi_uvifs (fst (age_vif i st))) = length (pi_uvifs st)" "j \<noteq> i \<Longrightarrow> pi_uvifs (fst (age_vif i st)) ! j = pi_uvifs st ! j"
  by (simp_all add: age_vif_def send_pim_hello_def split_def Let_def)

definition aged_to :: "uvif \<Rightarrow> uvif \<Rightarrow> bool" where
  "aged_to v w \<longleftrightarrow> distinct (addresses w) \<and> out_of_service w = out_of_service v \<and>
     (\<forall>a. nbr_at a w = (if out_of_service v then nbr_at a v else Option.bind (nbr_at a v) aged))"

lemma age_vif_aged: "i < length (pi_uvifs st) \<Longrightarrow> distinct (addresses (pi_uvifs st ! i)) \<Longrightarrow> aged_to (pi_uvifs st ! i) (pi_uvifs (fst (age_vif i st)) ! i)"
  using age_vif_at [of i st] unfolding aged_to_def by blast

lemma age_vifs_aged:
  assumes "list_all (\<lambda>v. distinct (addresses v)) (pi_uvifs st)"
  shows "list_all2 aged_to (pi_uvifs st) (pi_uvifs (fst (age_vifs st)))"
proof -
  let ?f = "\<lambda>m. fst (fold (\<lambda>vifi (st, acts). apsnd (append acts) (age_vif vifi st)) [0..<m] (st, []))"
  have f: "?f (Suc m) = fst (age_vif m (?f m))" for m by (simp add: split_def)
  have len: "length (pi_uvifs (?f m)) = length (pi_uvifs st)" for m by (induction m) (simp_all add: f del: upt_Suc)
  have before: "m \<le> i \<Longrightarrow> pi_uvifs (?f m) ! i = pi_uvifs st ! i" for m i by (induction m) (simp_all add: f del: upt_Suc)
  have "aged_to (pi_uvifs st ! i) (pi_uvifs (?f m) ! i)" if i: "i < length (pi_uvifs st)" "i < m" for m i
    using i(2)
  proof (induction m)
    case (Suc m)
    show ?case
    proof (cases "i = m")
      case True
      then show ?thesis unfolding f using age_vif_aged [of m "?f m"] before [of m m] len [of m] i(1) assms by (simp add: list_all_length)
    next
      case False
      then have "i < m" using Suc.prems by simp
      then show ?thesis unfolding f using Suc.IH by simp
    qed
  qed simp
  then show ?thesis using len [of "length (pi_uvifs st)"] by (simp add: list_all2_conv_all_nth age_vifs_def)
qed

lemma tick_unat: "unat (timer_tick t) = unat t - 5"
proof (cases "t \<le> 5")
  case True
  then show ?thesis by (simp add: timer_tick_def timer_interval_def min_def word_le_nat_alt)
next
  case False
  then show ?thesis by (simp add: timer_tick_def timer_interval_def min_def unat_sub)
qed

primrec age_steps :: "nat \<Rightarrow> pim_ifs \<Rightarrow> pim_ifs" where
  "age_steps 0 st = st"
| "age_steps (Suc k) st = fst (age_vifs (age_steps k st))"

lemma age_steps_at:
  assumes "list_all (\<lambda>v. distinct (addresses v)) (pi_uvifs st)" "i < length (pi_uvifs st)" "\<not> out_of_service (pi_uvifs st ! i)" "nbr_at a (pi_uvifs st ! i) = Some n"
  shows "list_all (\<lambda>v. distinct (addresses v)) (pi_uvifs (age_steps k st)) \<and> length (pi_uvifs (age_steps k st)) = length (pi_uvifs st) \<and>
    \<not> out_of_service (pi_uvifs (age_steps k st) ! i) \<and>
    (if k = 0 \<or> nb_timer n = 0xffff \<or> 5 * k < unat (nb_timer n)
     then \<exists>m. nbr_at a (pi_uvifs (age_steps k st) ! i) = Some m \<and> (nb_timer n = 0xffff \<longrightarrow> nb_timer m = 0xffff) \<and>
        (nb_timer n \<noteq> 0xffff \<longrightarrow> unat (nb_timer m) = unat (nb_timer n) - 5 * k)
     else nbr_at a (pi_uvifs (age_steps k st) ! i) = None)"
proof (induction k)
  case 0
  then show ?case using assms by simp
next
  case (Suc k)
  let ?s = "age_steps k st" and ?t = "age_steps (Suc k) st"
  have t: "?t = fst (age_vifs ?s)" by simp
  have a: "list_all2 aged_to (pi_uvifs ?s) (pi_uvifs ?t)" using age_vifs_aged Suc.IH unfolding t by blast
  have l: "length (pi_uvifs ?t) = length (pi_uvifs st)" using a Suc.IH by (simp add: list_all2_conv_all_nth)
  have "distinct (addresses (pi_uvifs ?t ! j))" if "j < length (pi_uvifs st)" for j
    using a that l by (auto simp: list_all2_conv_all_nth aged_to_def)
  moreover have i: "aged_to (pi_uvifs ?s ! i) (pi_uvifs ?t ! i)" using a assms(2) l by (simp add: list_all2_conv_all_nth del: age_steps.simps)
  then have at: "nbr_at a (pi_uvifs ?t ! i) = Option.bind (nbr_at a (pi_uvifs ?s ! i)) aged" "\<not> out_of_service (pi_uvifs ?t ! i)"
    using Suc.IH by (simp_all add: aged_to_def del: age_steps.simps)
  have ne: "unat (nb_timer n) < 65535" if "nb_timer n \<noteq> 0xffff"
    using that unsigned_less [of "nb_timer n", where ?'a = nat] by (auto simp: unat_arith_simps)
  have "if nb_timer n = 0xffff \<or> 5 * Suc k < unat (nb_timer n)
     then \<exists>m. nbr_at a (pi_uvifs ?t ! i) = Some m \<and> (nb_timer n = 0xffff \<longrightarrow> nb_timer m = 0xffff) \<and>
        (nb_timer n \<noteq> 0xffff \<longrightarrow> unat (nb_timer m) = unat (nb_timer n) - 5 * Suc k)
     else nbr_at a (pi_uvifs ?t ! i) = None"
  proof (cases "nbr_at a (pi_uvifs ?s ! i)")
    case None
    then show ?thesis using at(1) Suc.IH by (auto split: if_splits)
  next
    case (Some m)
    then have m: "nb_timer n = 0xffff \<longrightarrow> nb_timer m = 0xffff" "nb_timer n \<noteq> 0xffff \<longrightarrow> unat (nb_timer m) = unat (nb_timer n) - 5 * k"
      using Suc.IH by (auto split: if_splits)
    have z: "timer_tick (nb_timer m) = 0 \<longleftrightarrow> unat (nb_timer m) \<le> 5" using tick_unat [of "nb_timer m"] by (metis diff_is_0_eq unsigned_eq_0_iff)
    have x: "nb_timer m = 0xffff \<longleftrightarrow> unat (nb_timer m) = 65535" by (simp add: unat_arith_simps)
    show ?thesis using at(1) Some m ne z x tick_unat [of "nb_timer m"] by (cases "nb_timer n = 0xffff") (auto simp: aged_def simp del: age_steps.simps)
  qed
  ultimately show ?case using l at(2) by (simp add: list_all_length del: age_steps.simps)
qed



section \<open>Secondary addresses\<close>

lemma swap_out:
  assumes "distinct l" "i < length l" "l ! i = a"
  shows "distinct (butlast (l[i := last l])) \<and> set (butlast (l[i := last l])) = set l - {a}"
proof -
  obtain xs ys where l: "l = xs @ a # ys" "length xs = i" using assms(2,3) id_take_nth_drop [of i l] by (metis length_take min.absorb2 less_imp_le)
  have u: "l[i := b] = xs @ b # ys" for b using l by auto
  show ?thesis using assms(1) unfolding u unfolding l by (cases ys rule: rev_cases) (auto simp: butlast_append)
qed

lemma forget_secaddrs:
  assumes "distinct (nb_secaddrs n)"
  shows "distinct (nb_secaddrs (nbr_forget_secaddr a n)) \<and> set (nb_secaddrs (nbr_forget_secaddr a n)) = set (nb_secaddrs n) - {a}"
proof (cases "find (\<lambda>i. nb_secaddrs n ! i = a) [0..<length (nb_secaddrs n)]")
  case None
  then have "nbr_forget_secaddr a n = n" by (simp add: nbr_forget_secaddr_def)
  moreover have "a \<notin> set (nb_secaddrs n)" using None by (auto simp: find_None_iff in_set_conv_nth)
  ultimately show ?thesis using assms by simp
next
  case (Some i)
  then have "nbr_forget_secaddr a n = n\<lparr>nb_secaddrs := butlast ((nb_secaddrs n)[i := last (nb_secaddrs n)])\<rparr>" by (simp add: nbr_forget_secaddr_def Let_def)
  moreover have "i < length (nb_secaddrs n)" "nb_secaddrs n ! i = a" using Some by (auto simp: find_Some_iff)
  ultimately show ?thesis using swap_out [OF assms] by simp
qed

abbreviation secs :: "pim_nbr_entry \<Rightarrow> u32 \<times> u32 list" where
  "secs n \<equiv> (nb_address n, nb_secaddrs n)"

definition listed_by :: "u32 \<Rightarrow> u32 list \<Rightarrow> u32 set" where
  "listed_by src as = {a \<in> set as. a \<noteq> src \<and> inet_valid_host a}"

lemma secaddrs_loop_result:
  assumes "list_all (\<lambda>n. distinct (nb_secaddrs n)) ns"
  shows "set (fst (secaddrs_loop src as l ns)) = set l \<union> listed_by src as \<and> length (snd (secaddrs_loop src as l ns)) = length ns \<and>
    (\<forall>i<length ns. nb_address (snd (secaddrs_loop src as l ns) ! i) = nb_address (ns ! i) \<and>
      (nb_address (ns ! i) \<noteq> src \<longrightarrow> set (nb_secaddrs (snd (secaddrs_loop src as l ns) ! i)) = set (nb_secaddrs (ns ! i)) - listed_by src as))"
  using assms
proof (induction src as l ns rule: secaddrs_loop.induct)
  case (2 src a as l ns)
  show ?case
  proof (cases "a = src \<or> \<not> inet_valid_host a")
    case True
    then have "listed_by src (a # as) = listed_by src as" by (auto simp: listed_by_def)
    then show ?thesis using 2 True by auto
  next
    case False
    let ?ns = "map (\<lambda>n. if nb_address n = src then n else nbr_forget_secaddr a n) ns"
    have "list_all (\<lambda>n. distinct (nb_secaddrs n)) ?ns" using "2.prems" forget_secaddrs by (auto simp: list_all_iff)
    note ih = "2.IH"(2) [OF False this]
    have l: "listed_by src (a # as) = insert a (listed_by src as)" using False by (auto simp: listed_by_def)
    have e: "nb_address (?ns ! i) = nb_address (ns ! i)" "nb_address (ns ! i) \<noteq> src \<Longrightarrow> set (nb_secaddrs (?ns ! i)) = set (nb_secaddrs (ns ! i)) - {a}"
      if "i < length ns" for i using that forget_secaddrs [of "ns ! i" a] "2.prems" by (auto simp: list_all_length)
    show ?thesis using ih False l e by (auto simp del: nth_map)
  qed
qed (simp add: listed_by_def)

lemma nexthop_of_lister:
  assumes i: "vifi < length uvifs" and p: "a \<notin> set (addresses (uvifs ! vifi))" and src: "src \<in> set (addresses (uvifs ! vifi))"
    and u: "\<And>n. n \<in> set (uv_pim_neighbors (uvifs ! vifi)) \<Longrightarrow> a \<in> set (nb_secaddrs n) \<longleftrightarrow> nb_address n = src"
  shows "\<exists>n. find_pim_nbr_nexthop uvifs vifi a = Some n \<and> nb_address n = src"
proof -
  let ?ns = "uv_pim_neighbors (uvifs ! vifi)"
  have "find (\<lambda>n. nb_address n = a) ?ns = None" using p by (auto simp: find_None_iff)
  moreover obtain n where "find (\<lambda>n. list_ex (\<lambda>x. x = a) (nb_secaddrs n)) ?ns = Some n"
    using src u by (cases "find (\<lambda>n. list_ex (\<lambda>x. x = a) (nb_secaddrs n)) ?ns") (auto simp: find_None_iff list_ex_iff)
  moreover from this have "n \<in> set ?ns" "a \<in> set (nb_secaddrs n)" by (auto simp: find_Some_iff list_ex_iff)
  ultimately show ?thesis using i u by (simp add: find_pim_nbr_nexthop_def find_pim_nbr_on_vif_def)
qed

lemma hello_rebooted_secs:
  "vifi < length (pi_uvifs st) \<Longrightarrow> map secs (uv_pim_neighbors (pi_uvifs (fst (hello_rebooted rnd vifi src st)) ! vifi)) = map secs (uv_pim_neighbors (pi_uvifs st ! vifi))"
proof -
  assume i: "vifi < length (pi_uvifs st)"
  let ?t = "fst (trigger_hello rnd vifi src st)"
  have "map secs (uv_pim_neighbors (pi_uvifs ?t ! vifi)) = map secs (uv_pim_neighbors (pi_uvifs st ! vifi))" "length (pi_uvifs ?t) = length (pi_uvifs st)"
    using i by (auto simp: trigger_hello_def Let_def)
  then show ?thesis using i hello_election_vif [of vifi ?t] by (simp add: hello_rebooted_def split_def Let_def)
qed


lemma cache_settings_secs:
  assumes "list_all (\<lambda>n. distinct (nb_secaddrs n)) (uv_pim_neighbors v)" "cache_nbr_settings opts listed old v = (nbr, v')"
  defines "src \<equiv> nb_address old"
  shows "nb_address nbr = src" "set (nb_secaddrs nbr) = listed_by src listed" "addresses v' = addresses v"
    "n \<in> set (uv_pim_neighbors v') \<Longrightarrow> nb_address n \<noteq> src \<Longrightarrow> set (nb_secaddrs n) \<inter> listed_by src listed = {}"
proof -
  let ?r = "secaddrs_loop src listed [] (uv_pim_neighbors v)"
  note r = secaddrs_loop_result [OF assms(1), of src listed "[]"]
  have e: "nbr = old\<lparr>nb_timer := ho_holdtime opts, nb_genid := ho_genid opts, nb_dr_prio := ho_dr_prio opts,
            nb_dr_prio_present := ho_dr_prio_present opts, nb_lan_delay_present := ho_lan_delay_present opts,
            nb_tracking_support := ho_tracking_support opts, nb_propagation_delay := ho_propagation_delay opts,
            nb_override_interval := ho_override_interval opts, nb_secaddrs := fst ?r\<rparr>" "uv_pim_neighbors v' = snd ?r"
    using assms(2) by (auto simp: cache_nbr_settings_def cache_nbr_secaddrs_def src_def split_def Let_def)
  show "nb_address nbr = src" "set (nb_secaddrs nbr) = listed_by src listed" using e r by (simp_all add: src_def)
  show "addresses v' = addresses v" using e r by (auto intro: nth_equalityI)
  show "n \<in> set (uv_pim_neighbors v') \<Longrightarrow> nb_address n \<noteq> src \<Longrightarrow> set (nb_secaddrs n) \<inter> listed_by src listed = {}"
    using e r by (auto simp: in_set_conv_nth)
qed

lemma hello_from_nexthop:
  assumes i: "vifi < length (pi_uvifs st)" and s: "sorted_wrt higher (uv_pim_neighbors (pi_uvifs st ! vifi))"
    and d: "list_all (\<lambda>n. distinct (nb_secaddrs n)) (uv_pim_neighbors (pi_uvifs st ! vifi))"
    and h: "ho_holdtime opts \<noteq> 0" and a: "a \<in> set listed" "inet_valid_host a" "a \<noteq> src" "a \<notin> set (addresses (pi_uvifs st ! vifi))"
  shows "\<exists>n. find_pim_nbr_nexthop (pi_uvifs (fst (hello_from rnd vifi src opts listed st))) vifi a = Some n \<and> nb_address n = src"
proof -
  let ?v = "pi_uvifs st ! vifi"
  obtain k known where p: "nbr_place src (uv_pim_neighbors ?v) = (k, known)" by fastforce
  note pl = nbr_place_spec [OF s p]
  define old where "old = (if known then uv_pim_neighbors ?v ! k else new_nbr src)"
  have old: "nb_address old = src" using pl(3) by (auto simp: old_def new_nbr_def)
  obtain nbr v' where c: "cache_nbr_settings opts listed old ?v = (nbr, v')" by fastforce
  note f = cache_settings_secs [OF d c, unfolded old]
  have al: "a \<in> listed_by src listed" using a by (simp add: listed_by_def)
  let ?w = "pi_uvifs (fst (hello_from rnd vifi src opts listed st)) ! vifi"
  define ms where "ms = (if known then (uv_pim_neighbors v')[k := nbr] else take k (uv_pim_neighbors v') @ nbr # drop k (uv_pim_neighbors v'))"
  have w: "map secs (uv_pim_neighbors ?w) = map secs ms"
  proof (cases known)
    case True
    let ?s = "put_vif vifi (v'\<lparr>uv_pim_neighbors := ms\<rparr>) st"
    have "pi_uvifs (fst (hello_from rnd vifi src opts listed st)) \<in> {pi_uvifs (fst (hello_rebooted rnd vifi src ?s)), pi_uvifs (fst (hello_election vifi ?s)), pi_uvifs ?s}"
      using True p c h by (auto simp: hello_from_def old_def ms_def split_def Let_def)
    then show ?thesis using hello_rebooted_secs [of vifi ?s] hello_election_vif [of vifi ?s] i by auto
  next
    case False
    then show ?thesis using hello_rebooted_secs [of vifi "put_vif vifi (insert_nbr k nbr v') st"] i p c
      by (simp add: hello_from_def old_def ms_def insert_nbr_def split_def Let_def)
  qed
  have k: "k < length (uv_pim_neighbors v')" "addresses v' ! k = src" if known using pl(3) [OF that] f(3) by (metis length_map, metis nth_map)
  have dist: "distinct (addresses v')" using s unfolding f(3) by (simp add: distinct_conv_nth sorted_wrt_iff_nth_less) (metis less_irrefl linorder_neqE_nat)
  have new: "src \<notin> set (addresses v')" if "\<not> known"
  proof -
    have "nb_address n \<noteq> src" if "n \<in> set (uv_pim_neighbors ?v)" for n
      using that pl(2) pl(4) [OF \<open>\<not> known\<close>] append_take_drop_id [of k "uv_pim_neighbors ?v"] by (metis Un_iff less_irrefl set_append)
    then show ?thesis unfolding f(3) by auto
  qed
  have in_ms: "n = nbr \<or> n \<in> set (uv_pim_neighbors v')" if "n \<in> set ms" for n
    using that set_update_subset_insert [of "uv_pim_neighbors v'" k nbr] by (auto simp: ms_def split: if_splits dest: in_set_takeD in_set_dropD)
  have only: "nb_address n \<noteq> src" if n: "n \<in> set ms" "n \<noteq> nbr" for n
  proof (cases known)
    case True
    obtain j where "j < length (uv_pim_neighbors v')" "j \<noteq> k" "n = uv_pim_neighbors v' ! j"
      using n True by (auto simp: ms_def in_set_conv_nth) (metis nth_list_update_eq nth_list_update_neq)
    then show ?thesis using dist k [OF True] nth_eq_iff_index_eq [OF dist, of j k] by auto
  qed (use in_ms n new in auto)
  have u: "a \<in> set (nb_secaddrs n) \<longleftrightarrow> nb_address n = src" if "n \<in> set ms" for n
    using in_ms [OF that] only [OF that] f(1,2,4) al by blast
  have "nbr \<in> set ms" using k by (auto simp: ms_def set_update_memI)
  then have src: "src \<in> set (addresses ?w)" using arg_cong [OF w, of "\<lambda>l. fst ` set l"] f(1) by (force simp: image_image)
  have "nb_address ` set ms \<subseteq> insert src (set (addresses v'))" using in_ms f(1) by auto
  moreover have "set (addresses ?w) = nb_address ` set ms" using arg_cong [OF w, of "\<lambda>l. fst ` set l"] by (simp add: image_image)
  ultimately have "a \<notin> set (addresses ?w)" using a(3,4) f(3) by auto
  moreover have "a \<in> set (nb_secaddrs n) \<longleftrightarrow> nb_address n = src" if "n \<in> set (uv_pim_neighbors ?w)" for n
  proof -
    have "secs n \<in> set (map secs ms)" unfolding w [symmetric] using that by auto
    then show ?thesis using u by auto
  qed
  ultimately show ?thesis using nexthop_of_lister [OF _ _ src] hello_from_others(1) [OF i] i by simp
qed



section \<open>The delays of a link\<close>

lemma largest_of_Max: "largest_of f d ns = Max (insert d (f ` set ns))"
proof (induction ns arbitrary: d)
  case (Cons n ns)
  have "largest_of f d (n # ns) = largest_of f (if f n > d then f n else d) ns" by (simp add: largest_of_def)
  also have "\<dots> = Max (insert (max d (f n)) (f ` set ns))" by (simp add: Cons.IH max_def)
  also have "\<dots> = Max (insert d (insert (f n) (f ` set ns)))" by (cases "ns = []") (simp_all add: Max_insert max.assoc)
  finally show ?case by simp
qed (simp add: largest_of_def)

lemma largest_of_ge: "d \<le> largest_of f d ns"
  by (simp add: largest_of_Max)

lemma override_ge: "pim_override_interval_ms \<le> effective_override_interval uvifs vifi"
  by (simp add: effective_override_interval_def Let_def largest_of_ge)

lemma prune_pending_unat:
  "2 \<le> length (uv_pim_neighbors (uvifs ! vifi)) \<Longrightarrow>
   unat (prune_pending_delay uvifs vifi) = unat (effective_propagation_delay uvifs vifi) + unat (effective_override_interval uvifs vifi)"
  using unsigned_less [of "effective_propagation_delay uvifs vifi", where ?'a = nat] unsigned_less [of "effective_override_interval uvifs vifi", where ?'a = nat]
  by (simp add: prune_pending_delay_def unat_word_ariths unsigned_ucast_eq take_bit_nat_eq_self)


section \<open>Every interface stays in order\<close>

lemma age_nbr_ok: "vif_ok (fst x) \<Longrightarrow> vif_ok (fst (age_nbr i b x))"
proof (cases x)
  case (Pair v acts)
  assume ok: "vif_ok (fst x)"
  have "alike (v\<lparr>uv_pim_neighbors := map (\<lambda>m. if nb_address m = b then m\<lparr>nb_timer := t\<rparr> else m) (uv_pim_neighbors v)\<rparr>) v" for t
    by (simp add: alike_def)
  then show ?thesis using ok Pair delete_pim_nbr_ok [of v i b] vif_ok_cong by (auto simp: age_nbr_def split: option.split)
qed

lemma age_nbrs_ok: "vif_ok (fst x) \<Longrightarrow> vif_ok (fst (fold (age_nbr i) bs x))"
  by (induction bs arbitrary: x) (simp_all add: age_nbr_ok)

lemma age_vif_ok:
  assumes "list_all vif_ok (pi_uvifs st)" "i < length (pi_uvifs st)"
  shows "list_all vif_ok (pi_uvifs (fst (age_vif i st)))"
proof -
  let ?v = "pi_uvifs st ! i" and ?w = "pi_uvifs (fst (age_vif i st)) ! i"
  let ?f = "fst (fold (age_nbr i) (addresses ?v) (?v, []))"
  have "vif_ok ?v" using assms by (simp add: list_all_length)
  then have "vif_ok ?f" using age_nbrs_ok [of "(?v, [])"] by simp
  moreover have "alike (?f\<lparr>uv_hello_timer := t\<rparr>) ?f" for t by (simp add: alike_def)
  moreover have "?w = ?v \<or> (\<exists>t. ?w = ?f\<lparr>uv_hello_timer := t\<rparr>)"
    using assms(2) by (auto simp: age_vif_def send_pim_hello_def put_vif_def split_def Let_def)
  ultimately have "vif_ok ?w" using \<open>vif_ok ?v\<close> vif_ok_cong by metis
  then show ?thesis using assms(1) age_vif_others [where i = i and st = st] by (metis list_all_length)
qed

lemma age_vifs_ok:
  assumes "list_all vif_ok (pi_uvifs st)"
  shows "list_all vif_ok (pi_uvifs (fst (age_vifs st)))"
proof -
  have "list_all vif_ok (pi_uvifs (fst (fold (\<lambda>vifi (st, acts). apsnd (append acts) (age_vif vifi st)) is (s, acts))))"
    if "list_all vif_ok (pi_uvifs s)" "list_all (\<lambda>i. i < length (pi_uvifs s)) is" for "is" s acts
    using that by (induction "is" arbitrary: s acts) (simp_all add: split_def apsnd_def map_prod_def age_vif_ok)
  from this [of st "[0..<length (pi_uvifs st)]" "[]"] show ?thesis using assms by (simp add: age_vifs_def list_all_length)
qed


section \<open>Properties\<close>

lemma dr_best_member: "dr_best ns b p = (u, Some a, q) \<Longrightarrow> b = Some a \<or> a \<in> nb_address ` set ns"
  by (induction ns b p rule: dr_best.induct) (auto split: if_splits)

lemma dr_choice_member: "dr_choice v = Some a \<Longrightarrow> a \<in> nb_address ` set (uv_pim_neighbors v)"
proof (cases "uv_pim_neighbors v")
  case (Cons n ns)
  assume c: "dr_choice v = Some a"
  obtain u b q where d: "dr_best (n # ns) None 0 = (u, b, q)" by (cases "dr_best (n # ns) None 0") auto
  have "a = nb_address n \<or> b = Some a" using c Cons d by (auto simp: dr_choice_def Let_def simp del: dr_best.simps split: if_splits option.splits)
  then show ?thesis using dr_best_member [of "n # ns" None 0] d Cons by auto
qed (simp add: dr_choice_def)

lemma dr_flag: "uv_flags (snd (dr_election v)) AND viff_dr \<noteq> 0 \<longleftrightarrow> dr_choice v = None"
proof -
  have "dr_choice v = None" if "uv_pim_neighbors v = []" using that by (simp add: dr_choice_def)
  then show ?thesis
    by (auto simp: dr_election_choice dr_flags_def viff_dr_def viff_nonbrs_def viff_pim_nbr_def bit.conj_disj_distrib2 and.assoc)
qed

text \<open>
  C15: The router that \<open>dr_election\<close> makes the designated one is the best of the link: by priority and then by address
  where every neighbour has sent a priority, by address where one has not.  Routers with the same view of the link
  agree on it, and each knows whether it is the one.
\<close>

theorem dr_election_agrees:
  assumes "lan_view lan v" "lan_view lan w"
  shows "dr_of (snd (dr_election v)) = dr_of (snd (dr_election w)) \<and>
    (uv_flags (snd (dr_election v)) AND viff_dr \<noteq> 0 \<longleftrightarrow> dr_of (snd (dr_election v)) = uv_lcl_addr v) \<and>
    (\<exists>p. is_best (dr_beats (\<forall>(a, p, present) \<in> lan. present)) ((\<lambda>(a, p, present). (a, p)) ` lan) (dr_of (snd (dr_election v)), p))"
proof -
  have v: "sorted_wrt higher (uv_pim_neighbors v)" "uv_lcl_addr v \<notin> nb_address ` set (uv_pim_neighbors v)" using assms(1) by (simp_all add: lan_view_def)
  have "dr_choice v = Some a \<Longrightarrow> a \<noteq> uv_lcl_addr v" for a using dr_choice_member [of v a] v(2) by blast
  then have "uv_flags (snd (dr_election v)) AND viff_dr \<noteq> 0 \<longleftrightarrow> dr_of (snd (dr_election v)) = uv_lcl_addr v"
    unfolding dr_flag by (auto simp: dr_election_choice dr_of_def split: option.split)
  then show ?thesis using lan_view_agree [OF assms] dr_election_best [OF v] lan_view_stations [OF assms(1)] by simp
qed


definition example_nbr :: "u32 \<Rightarrow> bool \<Rightarrow> u32 \<Rightarrow> pim_nbr_entry" where
  "example_nbr a present prio = (new_nbr a)\<lparr>nb_dr_prio_present := present, nb_dr_prio := prio, nb_genid := 7, nb_timer := 105\<rparr>"

definition example_vif :: "u32 \<Rightarrow> u32 \<Rightarrow> u32 \<Rightarrow> pim_nbr_entry list \<Rightarrow> u32 option \<Rightarrow> uvif" where
  "example_vif flags a prio ns d = \<lparr>uv_flags = flags, uv_lcl_addr = a, uv_rmt_addr = 0, uv_subnet = 0x0000000a, uv_subnetmask = 0x00ffffff,
     uv_subnetbcast = 0xff00000a, uv_acl = [], uv_addrs = [], uv_secaddrs = [], uv_nbr_acl = [], uv_hello_timer = 30, uv_hello_trigger = 0,
     uv_dr_prio = prio, uv_genid = 9, uv_pim_neighbors = ns, uv_pim_neighbor_dr = d, uv_ifindex = 2\<rparr>"

theorem dr_election_agrees_witness:
  "dr_of (snd (dr_election (example_vif 0x2c0000 0x0100000a 1 [example_nbr 0x0200000a True 1] None))) =
   dr_of (snd (dr_election (example_vif 0x2c0000 0x0200000a 1 [example_nbr 0x0100000a True 1] None)))"
proof -
  let ?lan = "{(0x0100000a, 1, True), (0x0200000a, 1, True)}"
  have "lan_view ?lan (example_vif 0x2c0000 0x0100000a 1 [example_nbr 0x0200000a True 1] None)"
    "lan_view ?lan (example_vif 0x2c0000 0x0200000a 1 [example_nbr 0x0100000a True 1] None)"
    by (auto simp: lan_view_def example_vif_def example_nbr_def new_nbr_def)
  from dr_election_agrees [OF this] show ?thesis by blast
qed


definition example_ifs :: "uvif list \<Rightarrow> pim_ifs" where
  "example_ifs vs = \<lparr>pi_uvifs = vs, pi_token = 0, pim_timer_hello_interval = 30, pim_timer_hello_holdtime = 105, pim_send_buf = []\<rparr>"

definition example_hello :: bytes where
  "example_hello = [0x20, 0, 0xdf, 0x5d, 0, 1, 0, 2, 0, 105, 0, 19, 0, 4, 0, 0, 0, 0, 0, 20, 0, 4, 0, 0, 0, 7]"

abbreviation no_route :: "u32 \<Rightarrow> bool \<times> rpfctl" where
  "no_route \<equiv> \<lambda>a. (False, \<lparr>rpf_source = a, rpf_rpfneighbor = 0, rpf_iif = no_vif\<rparr>)"

definition stale_ifs :: pim_ifs where
  "stale_ifs = example_ifs [example_vif 0x200000 0x0100000a 1 [example_nbr 0x0200000a False 0] (Some 0x0200000a)]"

definition steady_ifs :: pim_ifs where
  "steady_ifs = example_ifs [example_vif 0x240000 0x0100000a 1 [example_nbr 0x0200000a True 0] None]"

lemma steady_ifs_ok: "list_all vif_ok (pi_uvifs steady_ifs)" "list_all (\<lambda>v. uv_flags v AND viff_tunnel = 0) (pi_uvifs steady_ifs)"
  "hello_steady 0x0200000a example_hello steady_ifs"
  by code_simp+

lemma example_routes: "length vs \<le> 32 \<Longrightarrow> routes_on (pi_uvifs (example_ifs vs)) no_route"
  by (simp add: routes_on_def example_ifs_def maxvifs_def)




text \<open>
  C17: A neighbour from which nothing more is heard goes when its holdtime has run out, and not before: after \<open>k\<close>
  ticks of five seconds it is still there exactly if its holdtime was longer than they are together, or is the one that
  never runs out.
\<close>

theorem silent_neighbour_expires:
  assumes "list_all vif_ok (pi_uvifs st)" "vifi < length (pi_uvifs st)" "\<not> out_of_service (pi_uvifs st ! vifi)"
    "find_pim_nbr_on_vif (pi_uvifs st) vifi addr = Some nbr" "0 < k"
  shows "find_pim_nbr_on_vif (pi_uvifs (age_steps k st)) vifi addr \<noteq> None \<longleftrightarrow> nb_timer nbr = 0xffff \<or> 5 * k < unat (nb_timer nbr)"
proof -
  have "distinct (addresses v)" if "vif_ok v" for v using that
    by (simp add: vif_ok_def nbrs_ok_def distinct_conv_nth sorted_wrt_iff_nth_less) (metis less_irrefl linorder_neqE_nat)
  then have "list_all (\<lambda>v. distinct (addresses v)) (pi_uvifs st)" using assms(1) by (auto simp: list_all_iff)
  moreover have at: "find_pim_nbr_on_vif uvifs vifi addr = nbr_at addr (uvifs ! vifi)" if "vifi < length uvifs" for uvifs
    using that by (simp add: find_pim_nbr_on_vif_def nbr_at_def)
  ultimately show ?thesis using age_steps_at [of st vifi addr nbr k] assms at [of "pi_uvifs st"] at [of "pi_uvifs (age_steps k st)"]
    by (auto split: if_splits)
qed

theorem silent_neighbour_expires_witness:
  "find_pim_nbr_on_vif (pi_uvifs (age_steps 20 steady_ifs)) 0 0x0200000a \<noteq> None \<and>
   find_pim_nbr_on_vif (pi_uvifs (age_steps 21 steady_ifs)) 0 0x0200000a = None"
proof -
  have s: "0 < length (pi_uvifs steady_ifs)" "\<not> out_of_service (pi_uvifs steady_ifs ! 0)"
    "find_pim_nbr_on_vif (pi_uvifs steady_ifs) 0 0x0200000a = Some (example_nbr 0x0200000a True 0)" by code_simp+
  show ?thesis
    using silent_neighbour_expires [OF steady_ifs_ok(1) s, of 20] silent_neighbour_expires [OF steady_ifs_ok(1) s, of 21]
    by (simp add: example_nbr_def)
qed


definition listing_ifs :: pim_ifs where
  "listing_ifs = example_ifs [example_vif 0x240000 0x0900000a 9
     [(example_nbr 0x0300000a True 0)\<lparr>nb_secaddrs := [0x0700000a, 0x0800000a]\<rparr>, example_nbr 0x0200000a True 0] None]"

definition twice_ifs :: pim_ifs where
  "twice_ifs = example_ifs [example_vif 0x240000 0x0900000a 9
     [(example_nbr 0x0300000a True 0)\<lparr>nb_secaddrs := [0x0700000a, 0x0700000a]\<rparr>, example_nbr 0x0200000a True 0] None]"

definition example_opts :: pim_hello_opts where
  "example_opts = hello_opts_zero\<lparr>ho_holdtime := 105, ho_holdtime_present := True, ho_dr_prio_present := True, ho_genid := 7\<rparr>"


lemma listed_twice_stays:
  "map_option nb_address (find_pim_nbr_nexthop (pi_uvifs (fst (hello_from 0 0 0x0200000a example_opts [0x0700000a] twice_ifs))) 0 0x0700000a) =
   Some 0x0300000a"
  by code_simp

text \<open>
  C31: The propagation delay and the override interval in force on a link are the largest that anyone on it says, ours
  included, where every neighbour says one, and the defaults otherwise.  Their sum, the time a Prune stays pending, does not
  wrap and is 0 exactly where there are not two neighbours to override it, and the random delay of a Join that
  overrides is shorter than the override interval.
\<close>

theorem link_delays:
  fixes uvifs vifi
  defines "nbrs \<equiv> uv_pim_neighbors (uvifs ! vifi)"
  shows "effective_propagation_delay uvifs vifi =
      (if list_all nb_lan_delay_present nbrs then Max (insert 500 (nb_propagation_delay ` set nbrs)) else 500) \<and>
    effective_override_interval uvifs vifi =
      (if list_all nb_lan_delay_present nbrs then Max (insert 2500 (nb_override_interval ` set nbrs)) else 2500) \<and>
    unat (prune_pending_delay uvifs vifi) =
      (if length nbrs < 2 then 0 else unat (effective_propagation_delay uvifs vifi) + unat (effective_override_interval uvifs vifi)) \<and>
    jp_override_timeout rnd uvifs vifi < unat (effective_override_interval uvifs vifi)"
proof -
  have "0 < unat (effective_override_interval uvifs vifi)"
    using override_ge [of uvifs vifi] by (simp add: pim_override_interval_ms_def word_le_nat_alt)
  then have "jp_override_timeout rnd uvifs vifi < unat (effective_override_interval uvifs vifi)" by (simp add: jp_override_timeout_def)
  moreover have "unat (prune_pending_delay uvifs vifi) =
      (if length nbrs < 2 then 0 else unat (effective_propagation_delay uvifs vifi) + unat (effective_override_interval uvifs vifi))"
    using prune_pending_unat [of uvifs vifi] by (simp add: nbrs_def prune_pending_delay_def)
  ultimately show ?thesis
    by (simp add: effective_propagation_delay_def effective_override_interval_def lan_delay_enabled_def largest_of_Max Let_def nbrs_def
      pim_propagation_delay_ms_def pim_override_interval_ms_def)
qed

end
