(* ===== verification/Bsr.thy ===== *)
theory Bsr
  imports Rp_Keep Pim_Nbr Pim_Roundtrip
begin

text \<open>
  The bootstrap router: the candidacies of \<^verbatim>\<open>src/rp.c\<close>, its timers and the Bootstrap message it builds, and the handlers of
  \<^verbatim>\<open>src/pim_proto.c\<close> for the Bootstrap and the Candidate-RP-Advertisement, which fill the RP set.

  A value of \<open>RANDOM ()\<close> is a parameter, and so are the interfaces and what the kernel knows of routes.  What is sent
  is a list of actions.  \<open>None\<close> stands for a read or a write outside a buffer, for an entry whose RP is not on the
  list of candidate RPs, and for a division by zero.
\<close>


section \<open>Candidacies\<close>

definition rp_default_ipv4_hashmasklen :: nat where
  "rp_default_ipv4_hashmasklen = 30"

text \<open>The loop that finds the highest bit that is set, with its mask and its counter; 0 where none is but perhaps the lowest.\<close>

fun log_loop :: "u32 \<Rightarrow> u32 \<Rightarrow> nat \<Rightarrow> nat" where
  "log_loop x log_mask 0 = 0"
| "log_loop x log_mask (Suc n) = (if x AND log_mask \<noteq> 0 then Suc n else log_loop x (drop_bit 1 log_mask) n)"

definition bootstrap_initial_delay :: "rp_state \<Rightarrow> u16" where
  "bootstrap_initial_delay st =
     (let best_priority = max (curr_bsr_priority st) (my_bsr_priority st);
          addr_delay =
            (if best_priority = my_bsr_priority st
             then of_nat (log_loop (ntohl (curr_bsr_address st) - ntohl (my_bsr_address st)) (push_bit 31 1) 31 div 16)
             else 2 - ntohl (my_bsr_address st) div push_bit 31 1) :: u32;
          delay = 1 + ucast best_priority - ucast (my_bsr_priority st) :: u32;
          log_of_2 = log_loop delay (push_bit 31 1) 31;
          delay = 5 + 2 * of_nat log_of_2 + addr_delay
      in ucast delay)"

definition cand_bsr_start :: "u16 \<Rightarrow> rp_state \<Rightarrow> rp_state" where
  "cand_bsr_start rnd st =
     (let st = st\<lparr>curr_bsr_fragment_tag := rnd, curr_bsr_priority := my_bsr_priority st,
                  curr_bsr_address := my_bsr_address st, curr_bsr_hash_mask := my_bsr_hash_mask st\<rparr>
      in st\<lparr>pim_bootstrap_timer := bootstrap_initial_delay st\<rparr>)"

definition no_bsr :: "rp_state \<Rightarrow> rp_state" where
  "no_bsr st = st\<lparr>curr_bsr_fragment_tag := 0, curr_bsr_priority := 0, curr_bsr_address := 0,
     curr_bsr_hash_mask := masklen_to_mask rp_default_ipv4_hashmasklen, pim_bootstrap_timer := my_bsr_timeout st\<rparr>"

definition cand_bsr_stop :: "rp_state \<Rightarrow> rp_state" where
  "cand_bsr_stop st = (if curr_bsr_address st \<noteq> my_bsr_address st then st else no_bsr st)"

definition cand_bsr_address_set :: "u16 \<Rightarrow> u32 \<Rightarrow> rp_state \<Rightarrow> rp_state" where
  "cand_bsr_address_set rnd addr st =
     (if \<not> rp_and_bsr_inited st \<or> addr = my_bsr_address st then st
      else if addr = 0 then
        (if \<not> cand_bsr_flag st then st
         else (cand_bsr_stop (st\<lparr>cand_bsr_flag := False\<rparr>))\<lparr>my_bsr_address := 0\<rparr>)
      else
        let st = (cand_bsr_stop st)\<lparr>my_bsr_address := addr, cand_bsr_flag := True\<rparr> in
        if curr_bsr_address st = 0 \<or> my_bsr_priority st > curr_bsr_priority st \<or>
           my_bsr_priority st = curr_bsr_priority st \<and> ntohl (my_bsr_address st) > ntohl (curr_bsr_address st)
        then cand_bsr_start rnd st else st)"

definition cand_rp_address_set :: "u32 \<Rightarrow> rp_state \<Rightarrow> rp_state" where
  "cand_rp_address_set addr st =
     (if \<not> rp_and_bsr_inited st \<or> addr = my_cand_rp_address st then st
      else if addr = 0 then
        (if \<not> cand_rp_flag st then st else st\<lparr>cand_rp_flag := False, my_cand_rp_address := 0\<rparr>)
      else st\<lparr>my_cand_rp_address := addr, cand_rp_flag := True, pim_cand_rp_adv_timer := 1\<rparr>)"

definition init_rp_and_bsr :: "u16 \<Rightarrow> nat \<Rightarrow> rp_state \<Rightarrow> rp_state option" where
  "init_rp_and_bsr rnd rnd' st =
     (let st = (delete_rp_list True (delete_rp_list False st))\<lparr>rs_set_entries := 0\<rparr>;
          st = (if \<not> cand_bsr_flag st then no_bsr st else cand_bsr_start rnd st)
      in if \<not> cand_rp_flag st then Some (st\<lparr>rp_and_bsr_inited := True\<rparr>)
         else if my_cand_rp_adv_period st = 0 then None
         else Some (st\<lparr>pim_cand_rp_adv_timer := of_nat (rnd' mod unat (my_cand_rp_adv_period st)), rp_and_bsr_inited := True\<rparr>))"


section \<open>Building the Bootstrap\<close>

definition rp_entry :: "u32 \<Rightarrow> rp_state \<Rightarrow> cand_rp option" where
  "rp_entry a st = find (\<lambda>c. cr_address c = a) (rl_cand (rs_main st))"

definition wire_holdtime :: "rp_state \<Rightarrow> u16 \<Rightarrow> u16" where
  "wire_holdtime st holdtime =
     (if holdtime \<noteq> 0 \<and> holdtime \<le> my_bsr_adv_period st then recommended_rp_holdtime st else holdtime)"

fun bootstrap_rps :: "rp_state \<Rightarrow> rp_grp_entry list \<Rightarrow> pim_writer \<Rightarrow> pim_writer option" where
  "bootstrap_rps st [] w = Some w"
| "bootstrap_rps st (e # es) w = do {
     c \<leftarrow> rp_entry (re_rp e) st;
     (_, w) \<leftarrow> pim_encode_bsr_rp w (cr_address c) (wire_holdtime st (cr_adv_holdtime c)) (re_priority e);
     bootstrap_rps st es w }"

fun bootstrap_ranges :: "rp_state \<Rightarrow> grp_mask list \<Rightarrow> pim_writer \<Rightarrow> pim_writer option" where
  "bootstrap_ranges st [] w = Some w"
| "bootstrap_ranges st (m # ms) w =
     (if is_ssm_group (rs_ssm st) (gm_group_addr m) then bootstrap_ranges st ms w
      else
        let rps = min (length (gm_grp_rp m)) (unat pim_max_rp_per_range) in
        if \<not> pim_writer_room w (pim_bsr_grp_set_len + rps * pim_bsr_rp_len) then Some w
        else do {
          (_, w) \<leftarrow> pim_encode_bsr_group w (gm_group_addr m) (of_nat (mask_to_masklen (gm_group_mask m))) (of_nat rps) (of_nat rps);
          w \<leftarrow> bootstrap_rps st (take rps (gm_grp_rp m)) w;
          bootstrap_ranges st ms w })"

text \<open>The length of the message and what lies in the buffer behind the headers, and the state.\<close>

definition create_pim_bootstrap_message :: "bytes \<Rightarrow> nat \<Rightarrow> rp_state \<Rightarrow> (nat \<times> bytes \<times> rp_state) option" where
  "create_pim_bootstrap_message send_buff buflen st =
     (if curr_bsr_address st = 0 then Some (0, [], st)
      else
        let w = pim_writer_init send_buff 24 (if buflen > 24 then buflen - 24 else 0) in
        if \<not> pim_writer_room w (4 + 6) then Some (0, [], st)
        else
          let st = (if curr_bsr_address st = my_bsr_address st
                    then st\<lparr>curr_bsr_fragment_tag := curr_bsr_fragment_tag st + 1\<rparr> else st)
          in do {
            (_, w) \<leftarrow> pim_encode_bsr_hdr w (curr_bsr_fragment_tag st) (of_nat (mask_to_masklen (curr_bsr_hash_mask st)))
                        (curr_bsr_priority st) (curr_bsr_address st);
            w \<leftarrow> bootstrap_ranges st (rl_grp (rs_main st)) w;
            Some (if w_full w then (0, [], st) else (pim_writer_used w 24, written 24 w, st)) })"

datatype bsr_act = SEND_BOOTSTRAP nat bytes | FORWARD_BOOTSTRAP nat bytes | SEND_CRP_ADV u32 bytes

definition send_pim_bootstrap :: "uvif list \<Rightarrow> bytes \<Rightarrow> rp_state \<Rightarrow> (rp_state \<times> bsr_act list) option" where
  "send_pim_bootstrap uvifs buf st = do {
     (len, body, st) \<leftarrow> create_pim_bootstrap_message buf send_buf_size st;
     Some (st, if len = 0 then []
               else map (\<lambda>vifi. SEND_BOOTSTRAP vifi body) (filter (\<lambda>vifi. \<not> out_of_service (uvifs ! vifi)) [0..<length uvifs])) }"


section \<open>The candidate RP\<close>

record cand_rp_prefix =
  cp_group :: u32
  cp_masklen :: u32
  cp_priority :: u8

definition cand_rp_prefix_count :: "cand_rp_prefix list \<Rightarrow> u8 \<Rightarrow> nat" where
  "cand_rp_prefix_count l priority = length (filter (\<lambda>pfx. cp_priority pfx = priority) l)"

fun cand_rp_prefix_at :: "cand_rp_prefix list \<Rightarrow> u8 \<Rightarrow> nat \<Rightarrow> (u32 \<times> u32) option" where
  "cand_rp_prefix_at [] priority i = None"
| "cand_rp_prefix_at (pfx # l) priority i =
     (if cp_priority pfx \<noteq> priority then cand_rp_prefix_at l priority i
      else case i of 0 \<Rightarrow> Some (cp_group pfx, cp_masklen pfx) | Suc i \<Rightarrow> cand_rp_prefix_at l priority i)"

text \<open>The loop over the prefixes of a priority, from the \<open>i\<close>th on with \<open>k\<close> to come: how many were written, and the writer.\<close>

fun crp_prefixes_loop :: "cand_rp_prefix list \<Rightarrow> u8 \<Rightarrow> nat \<Rightarrow> nat \<Rightarrow> nat \<Rightarrow> pim_writer \<Rightarrow> (nat \<times> pim_writer) option" where
  "crp_prefixes_loop l priority 0 i num w = Some (num, w)"
| "crp_prefixes_loop l priority (Suc k) i num w =
     (case cand_rp_prefix_at l priority i of
        None \<Rightarrow> Some (num, w)
      | Some (grp, masklen) \<Rightarrow> do {
          (ok, w) \<leftarrow> pim_encode_crp_prefix w grp (ucast masklen);
          (if \<not> ok then Some (num, w) else crp_prefixes_loop l priority k (Suc i) (Suc num) w) })"

definition send_cand_rp_adv :: "cand_rp_prefix list \<Rightarrow> bytes \<Rightarrow> u8 \<Rightarrow> nat \<Rightarrow> rp_state \<Rightarrow> bsr_act list option" where
  "send_cand_rp_adv l buf priority count st =
     (if count > 255 \<or> 4 + 6 + count * 8 > send_buf_size - 20 - 4 then Some []
      else do {
        (_, cnt, w) \<leftarrow> pim_encode_crp_hdr (pim_body_writer buf) priority (my_cand_rp_holdtime st) (my_cand_rp_address st);
        (num, w) \<leftarrow> crp_prefixes_loop l priority count 0 0 w;
        Some (if w_full w then []
              else [SEND_CRP_ADV (curr_bsr_address st) ((written 24 w)[cnt - 24 := of_nat num])]) })"

fun add_my_cand_rp_loop :: "cand_rp_prefix list \<Rightarrow> u8 \<Rightarrow> nat \<Rightarrow> nat \<Rightarrow> rp_state \<Rightarrow> rp_state" where
  "add_my_cand_rp_loop l priority 0 i st = st"
| "add_my_cand_rp_loop l priority (Suc k) i st =
     (case cand_rp_prefix_at l priority i of
        None \<Rightarrow> st
      | Some (grp, masklen) \<Rightarrow>
          add_my_cand_rp_loop l priority k (Suc i)
            (snd (add_rp_grp_entry False (my_cand_rp_address st) priority (my_cand_rp_holdtime st) grp
                   (masklen_to_mask (unat masklen)) (my_bsr_hash_mask st) (curr_bsr_fragment_tag st) st)))"

definition add_my_cand_rp :: "cand_rp_prefix list \<Rightarrow> u8 \<Rightarrow> nat \<Rightarrow> rp_state \<Rightarrow> rp_state" where
  "add_my_cand_rp l priority count st = add_my_cand_rp_loop l priority count 0 st"

fun cand_rp_priorities :: "cand_rp_prefix list \<Rightarrow> bytes \<Rightarrow> bool \<Rightarrow> u8 list \<Rightarrow> rp_state \<Rightarrow> (rp_state \<times> bsr_act list) option" where
  "cand_rp_priorities l buf mine [] st = Some (st, [])"
| "cand_rp_priorities l buf mine (priority # ps) st =
     (let count = cand_rp_prefix_count l priority in
      if count = 0 then cand_rp_priorities l buf mine ps st
      else if mine then cand_rp_priorities l buf mine ps (add_my_cand_rp l priority count st)
      else do {
        acts \<leftarrow> send_cand_rp_adv l buf priority count st;
        (st, acts') \<leftarrow> cand_rp_priorities l buf mine ps st;
        Some (st, acts @ acts') })"

definition send_pim_cand_rp_adv :: "cand_rp_prefix list \<Rightarrow> bytes \<Rightarrow> rp_state \<Rightarrow> (bool \<times> rp_state \<times> bsr_act list) option" where
  "send_pim_cand_rp_adv l buf st =
     (if \<not> inet_valid_host (curr_bsr_address st) then Some (False, st, [])
      else do {
        (st, acts) \<leftarrow> cand_rp_priorities l buf (curr_bsr_address st = my_bsr_address st) (map of_nat [0..<256]) st;
        Some (True, st, acts) })"


section \<open>Sweeps over the RP set\<close>

text \<open>
  The loops that visit every entry of every range and may delete the one they are at: ageing, and the garbage collection
  after a Bootstrap.  What becomes of an entry is a function, with \<open>None\<close> for an entry that goes; a range is visited
  where \<open>P\<close> holds.  An entry that was deleted has the next one in its place, and so has a range that went with
  its last entry.
\<close>

fun sweep_rps :: "bool \<Rightarrow> (rp_grp_entry \<Rightarrow> rp_grp_entry option) \<Rightarrow> nat \<Rightarrow> nat \<Rightarrow> nat \<Rightarrow> rp_state \<Rightarrow> rp_state" where
  "sweep_rps seg f 0 n i st = st"
| "sweep_rps seg f (Suc k) n i st =
     (case f (entry_at seg n i st) of
        None \<Rightarrow> sweep_rps seg f k n i (delete_rp_grp_entry seg n i st)
      | Some e \<Rightarrow> sweep_rps seg f k n (Suc i) (put_lists seg (upd_entry n i (\<lambda>_. e) (used_lists seg st)) st))"

fun sweep_ranges :: "bool \<Rightarrow> (grp_mask \<Rightarrow> bool) \<Rightarrow> (rp_grp_entry \<Rightarrow> rp_grp_entry option) \<Rightarrow> nat \<Rightarrow> nat \<Rightarrow> rp_state \<Rightarrow> rp_state" where
  "sweep_ranges seg P f 0 n st = st"
| "sweep_ranges seg P f (Suc k) n st =
     (let m = rl_grp (used_lists seg st) ! n in
      if \<not> P m then sweep_ranges seg P f k (Suc n) st
      else
        let st' = sweep_rps seg f (length (gm_grp_rp m)) n 0 st
        in sweep_ranges seg P f k
             (if length (rl_grp (used_lists seg st')) < length (rl_grp (used_lists seg st)) then n else Suc n) st')"

definition sweep :: "bool \<Rightarrow> (grp_mask \<Rightarrow> bool) \<Rightarrow> (rp_grp_entry \<Rightarrow> rp_grp_entry option) \<Rightarrow> rp_state \<Rightarrow> rp_state" where
  "sweep seg P f st = sweep_ranges seg P f (length (rl_grp (used_lists seg st))) 0 st"

definition live :: "rp_grp_entry \<Rightarrow> rp_grp_entry option" where
  "live e = (if re_origin e = 0 then None else Some e)"

definition age_entry :: "rp_grp_entry \<Rightarrow> rp_grp_entry option" where
  "age_entry e =
     (let e = (if re_origin e AND rp_origin_bsr \<noteq> 0 \<and> re_holdtime e < 60000
               then let e = e\<lparr>re_holdtime := timer_tick (re_holdtime e)\<rparr>
                    in if re_holdtime e = 0 then e\<lparr>re_origin := re_origin e AND NOT rp_origin_bsr\<rparr> else e
               else e);
          e = (if re_origin e AND rp_origin_autorp \<noteq> 0 \<and> re_autorp_holdtime e \<noteq> pim_hello_holdtime_forever
               then let e = e\<lparr>re_autorp_holdtime := timer_tick (re_autorp_holdtime e)\<rparr>
                    in if re_autorp_holdtime e = 0 then e\<lparr>re_origin := re_origin e AND NOT rp_origin_autorp\<rparr> else e
               else e)
      in live e)"

definition collect_entry :: "u16 \<Rightarrow> rp_grp_entry \<Rightarrow> rp_grp_entry option" where
  "collect_entry tag e =
     (if re_origin e AND rp_origin_bsr = 0 then Some e
      else if re_fragment_tag e = tag then Some e
      else live (e\<lparr>re_origin := re_origin e AND NOT rp_origin_bsr\<rparr>))"

definition collect_segment :: "u16 \<Rightarrow> rp_grp_entry \<Rightarrow> rp_grp_entry option" where
  "collect_segment tag e = (if re_fragment_tag e \<noteq> tag then None else Some e)"

definition age_misc ::
    "u16 \<Rightarrow> cand_rp_prefix list \<Rightarrow> uvif list \<Rightarrow> bytes \<Rightarrow> rp_state \<Rightarrow> (rp_state \<times> bsr_act list) option" where
  "age_misc rnd l uvifs buf st = do {
     let st = sweep False (\<lambda>_. True) age_entry st;
     (st, acts) \<leftarrow>
       (if cand_rp_flag st then
          let st = st\<lparr>pim_cand_rp_adv_timer := timer_tick (pim_cand_rp_adv_timer st)\<rparr> in
          if pim_cand_rp_adv_timer st = 0 then do {
            (_, st, acts) \<leftarrow> send_pim_cand_rp_adv l buf st;
            Some (st\<lparr>pim_cand_rp_adv_timer := my_cand_rp_adv_period st\<rparr>, acts) }
          else Some (st, [])
        else Some (st, []));
     let st = st\<lparr>pim_bootstrap_timer := timer_tick (pim_bootstrap_timer st)\<rparr>;
     (if pim_bootstrap_timer st \<noteq> 0 then Some (st, acts)
      else if \<not> cand_bsr_flag st then Some (no_bsr st, acts)
      else if curr_bsr_address st = my_bsr_address st then do {
        (st, acts') \<leftarrow> send_pim_bootstrap uvifs buf (st\<lparr>pim_bootstrap_timer := my_bsr_adv_period st\<rparr>);
        Some (st, acts @ acts') }
      else Some (st\<lparr>pim_bootstrap_timer := bootstrap_initial_delay st, curr_bsr_fragment_tag := rnd,
                    curr_bsr_priority := my_bsr_priority st, curr_bsr_address := my_bsr_address st,
                    curr_bsr_hash_mask := my_bsr_hash_mask st\<rparr>, acts)) }"


section \<open>Receiving a Bootstrap\<close>

definition allpimrouters_group :: u32 where
  "allpimrouters_group = 0x0d0000e0"

definition encoded_addr_ok :: "u8 \<Rightarrow> u8 \<Rightarrow> bool" where
  "encoded_addr_ok family etype \<longleftrightarrow> family = 1 \<and> etype = 0"

definition group_range_ok :: "pim_encod_grp_addr \<Rightarrow> bool" where
  "group_range_ok grp \<longleftrightarrow>
     encoded_addr_ok (ega_addr_family grp) (ega_encod_type grp) \<and> ega_reserved grp AND (0x80 OR 0x01) = 0"

text \<open>The loops that add the RP records of a group set, from the \<open>i\<close>th on with \<open>k\<close> to come.\<close>

fun add_rprecs :: "bool \<Rightarrow> bytes \<Rightarrow> pim_bsr_grp \<Rightarrow> u32 \<Rightarrow> nat \<Rightarrow> nat \<Rightarrow> rp_state \<Rightarrow> rp_state option" where
  "add_rprecs seg msg gset gmask 0 i st = Some st"
| "add_rprecs seg msg gset gmask (Suc k) i st = do {
     rprec \<leftarrow> pim_bsr_rp msg gset i;
     add_rprecs seg msg gset gmask k (Suc i)
       (snd (add_rp_grp_entry seg (br_addr rprec) (br_priority rprec) (br_holdtime rprec) (ega_mcast_addr (bg_grp gset)) gmask
              (curr_bsr_hash_mask st) (curr_bsr_fragment_tag st) st)) }"

definition add_saved :: "u32 \<Rightarrow> u32 \<Rightarrow> rp_grp_entry list \<Rightarrow> rp_state \<Rightarrow> rp_state" where
  "add_saved grp gmask =
     fold (\<lambda>e st. snd (add_rp_grp_entry False (re_rp e) (re_priority e) (re_holdtime e) grp gmask
                         (curr_bsr_hash_mask st) (curr_bsr_fragment_tag st) st))"

definition saved_range :: "u32 \<Rightarrow> u32 \<Rightarrow> rp_state \<Rightarrow> grp_mask option" where
  "saved_range grp gmask st =
     find (\<lambda>m. \<not> ntohl (gm_group_addr m AND gm_group_mask m) > ntohl (grp AND gmask)) (rl_grp (rs_seg st))"

definition bootstrap_set :: "bytes \<Rightarrow> pim_bsr_grp \<Rightarrow> rp_state \<Rightarrow> rp_state option" where
  "bootstrap_set msg gset st =
     (let grp = ega_mcast_addr (bg_grp gset); gmask = masklen_to_mask (unat (ega_masklen (bg_grp gset)));
          frag = unat (bg_frag_rp_count gset)
      in if \<not> group_range_ok (bg_grp gset) then Some st
         else if bg_rp_count gset = 0 then Some (delete_grp_mask False grp gmask st)
         else if bg_rp_count gset = bg_frag_rp_count gset then add_rprecs False msg gset gmask frag 0 st
         else case saved_range grp gmask st of
           None \<Rightarrow> add_rprecs True msg gset gmask frag 0 st
         | Some m \<Rightarrow>
             if gm_group_addr m = grp \<and> gm_group_mask m = gmask \<and>
                unat (gm_group_rp_number m) + frag = unat (bg_rp_count gset)
             then do {
               st \<leftarrow> add_rprecs False msg gset gmask frag 0 st;
               Some (delete_grp_mask True grp gmask (add_saved grp gmask (gm_grp_rp m) st)) }
             else add_rprecs True msg gset gmask frag 0 st)"

fun bootstrap_sets :: "bytes \<Rightarrow> nat \<Rightarrow> nat \<Rightarrow> rp_state \<Rightarrow> rp_state option" where
  "bootstrap_sets msg 0 at st = Some st"
| "bootstrap_sets msg (Suc k) at st = do {
     (at, gset) \<leftarrow> pim_bsr_group msg at;
     st \<leftarrow> bootstrap_set msg gset st;
     bootstrap_sets msg k at st }"

definition bootstrap_collect :: "rp_state \<Rightarrow> rp_state" where
  "bootstrap_collect st =
     (let st = sweep False (\<lambda>m. gm_fragment_tag m = curr_bsr_fragment_tag st) (collect_entry (curr_bsr_fragment_tag st)) st
      in sweep True (\<lambda>m. gm_fragment_tag m = curr_bsr_fragment_tag st) (collect_segment (curr_bsr_fragment_tag st)) st)"

text \<open>The checks on the sender: the interface a Bootstrap that passes came in on.\<close>

definition bootstrap_sender ::
    "(u32 \<Rightarrow> bool \<times> rpfctl) \<Rightarrow> uvif list \<Rightarrow> u32 \<Rightarrow> u32 \<Rightarrow> pim_bsr \<Rightarrow> rp_state \<Rightarrow> nat option" where
  "bootstrap_sender k_req_incoming uvifs src dst bsr st =
     (if dst = allpimrouters_group then
        if bsr_no_forward bsr \<noteq> 0 then
          let incoming = find_vif_direct k_req_incoming uvifs src in
          if incoming = no_vif \<or> find_pim_nbr_on_vif uvifs incoming src = None then None else Some incoming
        else
          let rpfc = snd (k_req_incoming (bsr_bsr bsr)) in
          if rpf_iif rpfc = no_vif \<or> rpf_rpfneighbor rpfc = 0 then None
          else if out_of_service (uvifs ! rpf_iif rpfc) then None
          else case find_pim_nbr_nexthop uvifs (rpf_iif rpfc) (rpf_rpfneighbor rpfc) of
            None \<Rightarrow> None
          | Some n \<Rightarrow> if nb_address n \<noteq> src then None else Some (rpf_iif rpfc)
      else if local_address uvifs dst = no_vif then None
      else if list_ex (\<lambda>c. cr_adv_holdtime c \<noteq> pim_hello_holdtime_forever) (rl_cand (rs_main st)) then None
      else case find (\<lambda>vifi. \<not> out_of_service (uvifs ! vifi) \<and> uv_lcl_addr (uvifs ! vifi) = dst) [0..<length uvifs] of
        None \<Rightarrow> None
      | Some incoming \<Rightarrow> if find_pim_nbr_on_vif uvifs incoming src = None then None else Some incoming)"

definition bsr_less_preferred :: "rp_state \<Rightarrow> pim_bsr \<Rightarrow> bool" where
  "bsr_less_preferred st bsr \<longleftrightarrow>
     curr_bsr_priority st > bsr_priority bsr \<or>
     curr_bsr_priority st = bsr_priority bsr \<and> ntohl (curr_bsr_address st) > ntohl (bsr_bsr bsr)"

definition bootstrap_adopt :: "pim_bsr \<Rightarrow> rp_state \<Rightarrow> rp_state" where
  "bootstrap_adopt bsr st =
     (let st = (if cand_rp_flag st \<and> bsr_bsr bsr \<noteq> curr_bsr_address st then st\<lparr>pim_cand_rp_adv_timer := 0\<rparr> else st);
          st = (if bsr_frag_tag bsr \<noteq> curr_bsr_fragment_tag st \<or> bsr_bsr bsr \<noteq> curr_bsr_address st
                then delete_rp_list True st else st)
      in st\<lparr>curr_bsr_address := bsr_bsr bsr, curr_bsr_priority := bsr_priority bsr, curr_bsr_fragment_tag := bsr_frag_tag bsr,
            curr_bsr_hash_mask := masklen_to_mask (unat (bsr_hash_masklen bsr)), pim_bootstrap_timer := my_bsr_timeout st\<rparr>)"

definition bootstrap_forward :: "uvif list \<Rightarrow> nat \<Rightarrow> u32 \<Rightarrow> pim_bsr \<Rightarrow> bytes \<Rightarrow> bsr_act list" where
  "bootstrap_forward uvifs incoming dst bsr msg =
     (if bsr_no_forward bsr = 0 \<and> dst = allpimrouters_group \<and> length msg \<le> send_buf_size - 20
      then map (\<lambda>vifi. FORWARD_BOOTSTRAP vifi msg)
             (filter (\<lambda>vifi. vifi \<noteq> incoming \<and> \<not> out_of_service (uvifs ! vifi) \<and> uv_flags (uvifs ! vifi) AND viff_nonbrs = 0)
                [0..<length uvifs])
      else [])"

definition receive_pim_bootstrap ::
    "(u32 \<Rightarrow> bool \<times> rpfctl) \<Rightarrow> uvif list \<Rightarrow> u32 \<Rightarrow> u32 \<Rightarrow> bytes \<Rightarrow> rp_state \<Rightarrow> (bool \<times> rp_state \<times> bsr_act list) option" where
  "receive_pim_bootstrap k_req_incoming uvifs src dst msg st =
     (let refuse = Some (False, st, []) in
      if inet_cksum msg \<noteq> 0 then refuse
      else if find_vif_direct k_req_incoming uvifs src = no_vif then refuse
      else do {
        (rc, bsr) \<leftarrow> pim_parse_bsr msg;
        (if rc = PIM_BSR_SHORT \<or> rc = PIM_BSR_FAMILY \<or> rc = PIM_BSR_HASH_MASKLEN then refuse
         else if local_address uvifs (bsr_bsr bsr) \<noteq> no_vif then refuse
         else if bsr_less_preferred st bsr then refuse
         else case bootstrap_sender k_req_incoming uvifs src dst bsr st of
           None \<Rightarrow> refuse
         | Some incoming \<Rightarrow>
             if rc = PIM_BSR_GRP_MASKLEN \<or> rc = PIM_BSR_GRP_FAMILY \<or> rc = PIM_BSR_TRUNCATED then refuse
             else do {
               at \<leftarrow> bsr_sets bsr;
               st' \<leftarrow> bootstrap_sets msg (bsr_num_sets bsr) at (bootstrap_adopt bsr st);
               Some (True, bootstrap_collect st', bootstrap_forward uvifs incoming dst bsr msg) }) })"


section \<open>Receiving a Candidate-RP-Advertisement\<close>

definition all_mcast_groups_addr :: u32 where
  "all_mcast_groups_addr = 0xe0000000"

definition all_mcast_groups_len :: nat where
  "all_mcast_groups_len = 4"

fun crp_loop :: "prefix_acl list \<Rightarrow> bytes \<Rightarrow> pim_crp \<Rightarrow> u16 \<Rightarrow> nat \<Rightarrow> nat \<Rightarrow> rp_state \<Rightarrow> rp_state option" where
  "crp_loop crp_group_list msg crp holdtime 0 i st = Some st"
| "crp_loop crp_group_list msg crp holdtime (Suc k) i st = do {
     egaddr \<leftarrow> pim_crp_prefix msg crp i;
     crp_loop crp_group_list msg crp holdtime k (Suc i)
       (if ega_masklen egaddr > 32 then st
        else if \<not> group_range_ok egaddr then st
        else if \<not> cand_rp_group_accepted crp_group_list (ega_mcast_addr egaddr) (unat (ega_masklen egaddr)) then st
        else if is_ssm_group (rs_ssm st) (ega_mcast_addr egaddr) then st
        else snd (add_rp_grp_entry False (crp_rp crp) (crp_priority crp) holdtime (ega_mcast_addr egaddr)
                    (masklen_to_mask (unat (ega_masklen egaddr))) (my_bsr_hash_mask st) (curr_bsr_fragment_tag st) st)) }"

definition receive_pim_cand_rp_adv ::
    "prefix_acl list \<Rightarrow> prefix_acl list \<Rightarrow> u32 \<Rightarrow> bytes \<Rightarrow> rp_state \<Rightarrow> (bool \<times> rp_state) option" where
  "receive_pim_cand_rp_adv crp_from_list crp_group_list src msg st =
     (let refuse = Some (False, st) in
      if inet_cksum msg \<noteq> 0 then refuse
      else if \<not> cand_bsr_flag st \<or> curr_bsr_address st \<noteq> my_bsr_address st then refuse
      else do {
        (rc, crp) \<leftarrow> pim_parse_crp msg;
        (if rc = PIM_CRP_SHORT then refuse
         else if \<not> cand_rp_accepted_from crp_from_list src then refuse
         else if rc = PIM_CRP_FAMILY then refuse
         else
           let holdtime = wire_holdtime st (crp_holdtime crp) in
           if crp_prefix_cnt crp = 0 then
             (if \<not> cand_rp_group_accepted crp_group_list (htonl all_mcast_groups_addr) all_mcast_groups_len then refuse
              else Some (True, snd (add_rp_grp_entry False (crp_rp crp) (crp_priority crp) holdtime (htonl all_mcast_groups_addr)
                     (masklen_to_mask all_mcast_groups_len) (my_bsr_hash_mask st) (curr_bsr_fragment_tag st) st)))
           else do {
             st' \<leftarrow> crp_loop crp_group_list msg crp holdtime (unat (crp_num_prefixes crp)) 0 st;
             Some (\<not> crp_num_prefixes crp < crp_prefix_cnt crp, st') }) })"

end
