(* ===== verification/Bsr_Send.thy ===== *)
theory Bsr_Send
  imports Rp_Cand Bsr
begin

text \<open>
  What the bootstrap router and a candidate RP put on the wire: the Bootstrap is within its buffer, and reads back as the
  ranges of the RP set that fit it, whole and in order.
\<close>


section \<open>What is advertised\<close>

definition advert_rp :: "rp_state \<Rightarrow> rp_grp_entry \<Rightarrow> pim_bsr_rp_t" where
  "advert_rp st e = \<lparr>br_addr = re_rp e,
     br_holdtime = wire_holdtime st (case rp_entry (re_rp e) st of None \<Rightarrow> 0 | Some c \<Rightarrow> cr_adv_holdtime c),
     br_priority = re_priority e\<rparr>"

definition advert :: "rp_state \<Rightarrow> grp_mask \<Rightarrow> bsr_set" where
  "advert st m = \<lparr>bs_group = gm_group_addr m, bs_masklen = of_nat (mask_to_masklen (gm_group_mask m)),
     bs_rps = map (advert_rp st) (gm_grp_rp m)\<rparr>"

text \<open>The ranges a message has room for: the first ones, up to the one that does not fit.\<close>

fun adverts :: "rp_state \<Rightarrow> nat \<Rightarrow> grp_mask list \<Rightarrow> bsr_set list" where
  "adverts st room [] = []"
| "adverts st room (m # ms) =
     (if is_ssm_group (rs_ssm st) (gm_group_addr m) then adverts st room ms
      else
        let n = 12 + 10 * length (gm_grp_rp m)
        in if room < n then [] else advert st m # adverts st (room - n) ms)"

definition listed :: "rp_state \<Rightarrow> grp_mask \<Rightarrow> bool" where
  "listed st m \<longleftrightarrow> length (gm_grp_rp m) < 256 \<and> (\<forall>e\<in>set (gm_grp_rp m). \<exists>c. rp_entry (re_rp e) st = Some c \<and> cr_address c = re_rp e)"

lemma rp_entry_listed:
  assumes "cand_ok st" "m \<in> set (ranges st)" "e \<in> set (gm_grp_rp m)"
  shows "\<exists>c. rp_entry (re_rp e) st = Some c \<and> cr_address c = re_rp e"
proof -
  have "list_ex (\<lambda>c. cr_address c = re_rp e) (cands st)" using assms by (auto simp: cand_ok_def list_all_iff)
  then have "find (\<lambda>c. cr_address c = re_rp e) (cands st) \<noteq> None" by (auto simp: find_None_iff list_ex_iff)
  then obtain c where c: "find (\<lambda>c. cr_address c = re_rp e) (cands st) = Some c" by blast
  then have "cr_address c = re_rp e" by (auto simp: find_Some_iff)
  with c show ?thesis by (simp add: rp_entry_def)
qed

lemma ranges_listed: "cand_ok st \<Longrightarrow> ranges_ok (ranges st) \<Longrightarrow> \<forall>m\<in>set (ranges st). listed st m"
proof -
  assume c: "cand_ok st" and r: "ranges_ok (ranges st)"
  have "length (gm_grp_rp m) < 256" if "m \<in> set (ranges st)" for m
    using r that unsigned_less [of "gm_group_rp_number m", where ?'a = nat] by (auto simp: ranges_ok_def range_ok_def list_all_iff)
  then show ?thesis using rp_entry_listed [OF c] by (simp add: listed_def)
qed

lemma bootstrap_rps_eq:
  "\<forall>e\<in>set es. \<exists>c. rp_entry (re_rp e) st = Some c \<and> cr_address c = re_rp e \<Longrightarrow>
   bootstrap_rps st es w = bsr_put_rps w (map (advert_rp st) es)"
proof (induction es arbitrary: w)
  case (Cons e es)
  obtain c where c: "rp_entry (re_rp e) st = Some c" "cr_address c = re_rp e" using Cons.prems by auto
  have a: "br_addr (advert_rp st e) = re_rp e" "br_holdtime (advert_rp st e) = wire_holdtime st (cr_adv_holdtime c)"
    "br_priority (advert_rp st e) = re_priority e" using c by (simp_all add: advert_rp_def)
  have "bootstrap_rps st es = (\<lambda>w. bsr_put_rps w (map (advert_rp st) es))" using Cons by (simp add: fun_eq_iff)
  then show ?case using c a by simp
qed simp

lemma bsr_set_chunks_fit:
  assumes "writer_inv start cap orig w" "\<not> w_full w" "length (bsr_set_bytes s) \<le> w_left w"
  shows "\<exists>w'. bsr_put_sets w [s] = Some w' \<and> writer_inv start cap orig w' \<and> \<not> w_full w' \<and>
    written start w' = written start w @ bsr_set_bytes s \<and> w_left w' = w_left w - length (bsr_set_bytes s)"
proof -
  have "concat (concat (map bsr_set_chunks [s])) = bsr_set_bytes s" unfolding concat_bsr_set_chunks by simp
  then show ?thesis unfolding bsr_put_sets_chunks using ws.puts_fit [OF assms(1,2), of "concat (map bsr_set_chunks [s])"] assms(3) by metis
qed

lemma bootstrap_ranges_written:
  assumes "\<forall>m\<in>set ms. listed st m" "writer_inv start cap orig w" "\<not> w_full w"
  shows "\<exists>w'. bootstrap_ranges st ms w = Some w' \<and> writer_inv start cap orig w' \<and> \<not> w_full w' \<and>
    written start w' = written start w @ concat (map bsr_set_bytes (adverts st (w_left w) ms))"
  using assms
proof (induction ms arbitrary: w)
  case (Cons m ms)
  let ?s = "advert st m" and ?n = "12 + 10 * length (gm_grp_rp m)"
  have len: "min (length (gm_grp_rp m)) (unat pim_max_rp_per_range) = length (gm_grp_rp m)"
    using Cons.prems(1) by (simp add: listed_def pim_max_rp_per_range_def)
  have room: "pim_writer_room w (pim_bsr_grp_set_len + length (gm_grp_rp m) * pim_bsr_rp_len) \<longleftrightarrow> ?n \<le> w_left w"
    using Cons.prems(3) by (simp add: pim_writer_room_def pim_bsr_grp_set_len_def pim_bsr_rp_len_def mult.commute)
  consider (ssm) "is_ssm_group (rs_ssm st) (gm_group_addr m)" | (full) "\<not> is_ssm_group (rs_ssm st) (gm_group_addr m)" "w_left w < ?n"
    | (fits) "\<not> is_ssm_group (rs_ssm st) (gm_group_addr m)" "?n \<le> w_left w" by linarith
  then show ?case
  proof cases
    case ssm
    then show ?thesis using Cons.IH [OF _ Cons.prems(2,3)] Cons.prems(1) by simp
  next
    case full
    then show ?thesis using Cons.prems(2,3) room by (simp add: len)
  next
    case fits
    have l: "length (bsr_set_bytes ?s) = ?n" by (simp add: advert_def)
    obtain w' where w': "bsr_put_sets w [?s] = Some w'" "writer_inv start cap orig w'" "\<not> w_full w'"
      "written start w' = written start w @ bsr_set_bytes ?s" "w_left w' = w_left w - ?n"
      using bsr_set_chunks_fit [OF Cons.prems(2,3), of ?s] fits(2) l by auto
    have "bootstrap_rps st (gm_grp_rp m) w1 = bsr_put_rps w1 (bs_rps ?s)" for w1
      using bootstrap_rps_eq [of "gm_grp_rp m" st] Cons.prems(1) by (simp add: advert_def listed_def)
    then have "bootstrap_ranges st (m # ms) w = do { w \<leftarrow> bsr_put_sets w [?s]; bootstrap_ranges st ms w }"
      using fits room len by (simp add: advert_def Let_def split_def)
    then have b: "bootstrap_ranges st (m # ms) w = bootstrap_ranges st ms w'" using w'(1) by (simp only: bind.bind_lunit)
    show ?thesis using Cons.IH [OF _ w'(2,3)] Cons.prems(1) w'(4,5) fits unfolding b by simp
  qed
qed simp



section \<open>The Bootstrap\<close>

lemma advert_tag: "advert (st\<lparr>curr_bsr_fragment_tag := x\<rparr>) = advert st"
  by (simp add: fun_eq_iff advert_def advert_rp_def [abs_def] rp_entry_def wire_holdtime_def)

lemma adverts_tag: "adverts (st\<lparr>curr_bsr_fragment_tag := x\<rparr>) room ms = adverts st room ms"
  by (induction ms arbitrary: room) (simp_all add: advert_tag Let_def)

lemma listed_tag: "listed (st\<lparr>curr_bsr_fragment_tag := x\<rparr>) m = listed st m"
  by (simp add: listed_def rp_entry_def)

lemma adverts_ok: "list_all range_ok ms \<Longrightarrow> \<forall>m\<in>set ms. listed st m \<Longrightarrow> list_all bsr_set_ok (adverts st room ms)"
proof (induction ms arbitrary: room)
  case (Cons m ms)
  have "mask_to_masklen (gm_group_mask m) \<le> 32" by (simp add: mask_to_masklen_def mask_loop_le)
  then have "(of_nat (mask_to_masklen (gm_group_mask m)) :: u8) \<le> 32" by (simp add: word_le_nat_alt unat_of_nat)
  then have "bsr_set_ok (advert st m)" using Cons.prems by (simp add: bsr_set_ok_def advert_def range_ok_def listed_def)
  then show ?case using Cons by (simp add: Let_def)
qed simp

definition bootstrap_tag :: "rp_state \<Rightarrow> u16" where
  "bootstrap_tag st = (if curr_bsr_address st = my_bsr_address st then curr_bsr_fragment_tag st + 1 else curr_bsr_fragment_tag st)"

definition bootstrap_bytes :: "rp_state \<Rightarrow> nat \<Rightarrow> bytes" where
  "bootstrap_bytes st room = be16b (bootstrap_tag st) @ [of_nat (mask_to_masklen (curr_bsr_hash_mask st)), curr_bsr_priority st] @
     euaddr_bytes (curr_bsr_address st) @ concat (map bsr_set_bytes (adverts st room (ranges st)))"

lemma written_used: "writer_inv start cap orig w \<Longrightarrow> length (written start w) = pim_writer_used w start \<and> pim_writer_used w start \<le> cap"
  by (auto simp: writer_inv_def written_def pim_writer_used_def)

lemma create_bootstrap:
  assumes ok: "cand_ok st" "ranges_ok (ranges st)" and addr: "curr_bsr_address st \<noteq> 0" and len: "34 \<le> buflen" "buflen \<le> length buf"
  shows "create_pim_bootstrap_message buf buflen st =
      Some (length (bootstrap_bytes st (buflen - 34)), bootstrap_bytes st (buflen - 34), st\<lparr>curr_bsr_fragment_tag := bootstrap_tag st\<rparr>)"
    and "length (bootstrap_bytes st (buflen - 34)) \<le> buflen - 24"
proof -
  define st' where "st' = st\<lparr>curr_bsr_fragment_tag := bootstrap_tag st\<rparr>"
  let ?w = "pim_writer_init buf 24 (buflen - 24)"
  let ?cs = "[be16b (bootstrap_tag st), [of_nat (mask_to_masklen (curr_bsr_hash_mask st))], [curr_bsr_priority st], euaddr_bytes (curr_bsr_address st)]"
  have i: "writer_inv 24 (buflen - 24) buf ?w" "\<not> w_full ?w" "w_left ?w = buflen - 24" "written 24 ?w = []"
    using len by (simp_all add: writer_inv_def pim_writer_init_def written_def)
  have lcs: "length (concat ?cs) = 10" and f: "10 \<le> buflen - 24" "buflen - 24 - 10 = buflen - 34" using len by simp_all
  obtain w1 where w1: "puts pim_put ?w ?cs = Some w1" "writer_inv 24 (buflen - 24) buf w1" "\<not> w_full w1" "written 24 w1 = concat ?cs" "w_left w1 = buflen - 34"
    using ws.puts_fit [OF i(1,2), of ?cs, unfolded lcs i(3,4) append_Nil f(2)] f(1) by blast
  have l: "\<forall>m\<in>set (ranges st). listed st' m" using ranges_listed [OF ok] by (simp add: st'_def listed_tag)
  obtain w2 where w2: "bootstrap_ranges st' (ranges st) w1 = Some w2" "writer_inv 24 (buflen - 24) buf w2" "\<not> w_full w2"
      "written 24 w2 = concat ?cs @ concat (map bsr_set_bytes (adverts st' (buflen - 34) (ranges st)))"
    using bootstrap_ranges_written [OF l w1(2,3)] w1(4,5) by auto
  have b: "written 24 w2 = bootstrap_bytes st (buflen - 34)" using w2(4) by (simp add: bootstrap_bytes_def st'_def adverts_tag)
  note u = written_used [OF w2(2), unfolded b]
  show "length (bootstrap_bytes st (buflen - 34)) \<le> buflen - 24" using u by simp
  have s: "(if curr_bsr_address st = my_bsr_address st then st\<lparr>curr_bsr_fragment_tag := curr_bsr_fragment_tag st + 1\<rparr> else st) = st'"
    by (simp add: st'_def bootstrap_tag_def)
  have f: "curr_bsr_fragment_tag st' = bootstrap_tag st" "curr_bsr_hash_mask st' = curr_bsr_hash_mask st" "curr_bsr_priority st' = curr_bsr_priority st"
    "curr_bsr_address st' = curr_bsr_address st" "rs_main st' = rs_main st" by (simp_all add: st'_def)
  have "pim_writer_room ?w (4 + 6)" using i(2,3) len by (simp add: pim_writer_room_def)
  moreover have "(if buflen > 24 then buflen - 24 else 0) = buflen - 24" by simp
  moreover have "pim_encode_bsr_hdr ?w (bootstrap_tag st) (of_nat (mask_to_masklen (curr_bsr_hash_mask st))) (curr_bsr_priority st) (curr_bsr_address st) = Some (True, w1)"
    using w1(1,3) by (simp only: bsr_hdr_chunks bind.bind_lunit) simp
  ultimately show "create_pim_bootstrap_message buf buflen st =
      Some (length (bootstrap_bytes st (buflen - 34)), bootstrap_bytes st (buflen - 34), st\<lparr>curr_bsr_fragment_tag := bootstrap_tag st\<rparr>)"
    unfolding create_pim_bootstrap_message_def Let_def s f using addr w2(1,3) b u by (simp add: st'_def)
qed

lemma bootstrap_bytes_parse:
  fixes room :: nat
  assumes ok: "cand_ok st" "ranges_ok (ranges st)" and "length hdr = 4"
  defines "sets \<equiv> adverts st room (ranges st)" and "msg \<equiv> hdr @ bootstrap_bytes st room"
  shows "\<exists>bsr gs. pim_parse_bsr msg = Some (PIM_BSR_OK, bsr) \<and> bsr_frag_tag bsr = bootstrap_tag st \<and>
     unat (bsr_hash_masklen bsr) = mask_to_masklen (curr_bsr_hash_mask st) \<and>
     bsr_priority bsr = curr_bsr_priority st \<and> bsr_bsr bsr = curr_bsr_address st \<and> bsr_no_forward bsr = uint (msg ! 1 AND 0x80) \<and> bsr_sets bsr = Some 14 \<and>
     bsr_num_sets bsr = length sets \<and> bsr_groups_at msg 14 (length sets) = Some gs \<and> list_all2 (bsr_set_read msg) sets gs"
proof -
  have "mask_to_masklen (curr_bsr_hash_mask st) \<le> 32" by (simp add: mask_to_masklen_def mask_loop_le)
  then have h: "unat (of_nat (mask_to_masklen (curr_bsr_hash_mask st)) :: u8) = mask_to_masklen (curr_bsr_hash_mask st)"
      "(of_nat (mask_to_masklen (curr_bsr_hash_mask st)) :: u8) \<le> 32" by (simp_all add: word_le_nat_alt unat_of_nat)
  have s: "list_all bsr_set_ok sets" unfolding sets_def using adverts_ok ok ranges_listed by (simp add: ranges_ok_def)
  have m: "msg = hdr @ be16b (bootstrap_tag st) @ [of_nat (mask_to_masklen (curr_bsr_hash_mask st)), curr_bsr_priority st] @
      euaddr_bytes (curr_bsr_address st) @ concat (map bsr_set_bytes sets)" by (simp add: msg_def bootstrap_bytes_def sets_def)
  show ?thesis using bsr_parse_at [OF assms(3) s h(2) m] h(1) by auto
qed

lemma send_bootstrap_returns:
  assumes "cand_ok st" "ranges_ok (ranges st)" "send_buf_size \<le> length buf"
  shows "\<exists>t acts. send_pim_bootstrap uvifs buf st = Some (st\<lparr>curr_bsr_fragment_tag := t\<rparr>, acts)"
proof (cases "curr_bsr_address st = 0")
  case True
  then have "send_pim_bootstrap uvifs buf st = Some (st\<lparr>curr_bsr_fragment_tag := curr_bsr_fragment_tag st\<rparr>, [])"
    by (simp add: send_pim_bootstrap_def create_pim_bootstrap_message_def)
  then show ?thesis by blast
next
  case False
  have "34 \<le> send_buf_size" by (simp add: send_buf_size_def)
  from create_bootstrap(1) [OF assms(1,2) False this assms(3)] have "\<exists>acts. send_pim_bootstrap uvifs buf st = Some (st\<lparr>curr_bsr_fragment_tag := bootstrap_tag st\<rparr>, acts)"
    by (simp add: send_pim_bootstrap_def)
  then show ?thesis by blast
qed


section \<open>The Candidate-RP-Advertisement\<close>

lemma crp_prefixes_loop_returns:
  "writer_inv start cap orig w \<Longrightarrow> \<exists>num w'. crp_prefixes_loop l priority k i n w = Some (num, w')"
proof (induction k arbitrary: i n w)
  case (Suc k)
  have e: "\<exists>ok w'. pim_encode_crp_prefix w grp ml = Some (ok, w') \<and> writer_inv start cap orig w'" for grp ml
    unfolding pim_encode_crp_prefix_def put_simps
    using pim_put_fits [OF Suc.prems, of "eaddr_bytes grp ml 0"] pim_put_stuck [OF Suc.prems, of "eaddr_bytes grp ml 0"] not_le by blast
  show ?case
  proof (cases "cand_rp_prefix_at l priority i")
    case (Some pfx)
    obtain grp masklen where p: "pfx = (grp, masklen)" by (cases pfx)
    obtain ok w' where "pim_encode_crp_prefix w grp (ucast masklen) = Some (ok, w')" "writer_inv start cap orig w'" using e by blast
    then show ?thesis using Some p Suc.IH by simp
  qed simp
qed simp

lemma send_cand_rp_adv_returns:
  assumes "send_buf_size \<le> length buf"
  shows "\<exists>acts. send_cand_rp_adv l buf priority count st = Some acts"
proof -
  have i: "writer_inv 24 (send_buf_size - 24) buf (pim_body_writer buf)"
    using assms by (simp add: pim_body_writer_def pim_writer_init_def writer_inv_def send_buf_size_def)
  obtain w where w: "puts pim_put (pim_body_writer buf) [[0], [priority], be16b (my_cand_rp_holdtime st), euaddr_bytes (my_cand_rp_address st)] = Some w"
      "writer_inv 24 (send_buf_size - 24) buf w" using ws.puts_total [OF i] by blast
  then obtain num w' where "crp_prefixes_loop l priority count 0 0 w = Some (num, w')" using crp_prefixes_loop_returns by blast
  then show ?thesis using w(1) by (simp add: send_cand_rp_adv_def crp_hdr_chunks)
qed

end
