(* ===== verification/Bsr_Keep.thy ===== *)
theory Bsr_Keep
  imports Bsr_Send
begin

text \<open>
  What the bootstrap mechanism keeps of the RP set: every handler and the clock leave it in order, whatever arrives.
\<close>


section \<open>What does not touch the main lists\<close>

lemma put_lists_seg [simp]:
  "rs_main (put_lists True l st) = rs_main st" "rs_norp (put_lists True l st) = rs_norp st" "rs_ssm (put_lists True l st) = rs_ssm st"
  "rs_autorp (put_lists True l st) = rs_autorp st" "rs_set_entries (put_lists True l st) = rs_set_entries st"
  "rs_set_limit (put_lists True l st) = rs_set_limit st"
  by (simp_all add: put_lists_def)

lemma put_lists_main [simp]:
  "ranges (put_lists False l st) = rl_grp l" "cands (put_lists False l st) = rl_cand l" "rs_set_entries (put_lists False l st) = rs_set_entries st"
  "rs_set_limit (put_lists False l st) = rs_set_limit st"
  by (simp_all add: put_lists_def)

definition keeps_place :: "(rp_grp_entry \<Rightarrow> rp_grp_entry option) \<Rightarrow> bool" where
  "keeps_place f \<longleftrightarrow> (\<forall>e e'. f e = Some e' \<longrightarrow> re_rp e' = re_rp e \<and> re_priority e' = re_priority e \<and> re_grplink e' = re_grplink e)"

lemma sweeps_keep_place: "keeps_place age_entry" "keeps_place (collect_entry tag)"
  by (auto simp: keeps_place_def age_entry_def collect_entry_def live_def Let_def split: if_splits)

lemma put_entry_kept:
  assumes ok: "ranges_ok (ranges st)" and n: "n < length (ranges st)" "i < length (gm_grp_rp (ranges st ! n))"
    and e: "re_rp e = re_rp (gm_grp_rp (ranges st ! n) ! i)" "re_priority e = re_priority (gm_grp_rp (ranges st ! n) ! i)"
      "re_grplink e = re_grplink (gm_grp_rp (ranges st ! n) ! i)"
  defines "st' \<equiv> put_lists False (upd_entry n i (\<lambda>_. e) (used_lists False st)) st"
  shows "ranges_ok (ranges st')" "same_pool st st'" "length (ranges st') = length (ranges st)" "rs_set_entries st' = rs_set_entries st"
proof -
  define g where "g = (\<lambda>x :: rp_grp_entry. x\<lparr>re_holdtime := re_holdtime e, re_autorp_holdtime := re_autorp_holdtime e, re_fragment_tag := re_fragment_tag e,
    re_origin := re_origin e\<rparr>)"
  have "g (gm_grp_rp (ranges st ! n) ! i) = e" using e by (simp add: g_def)
  then have s: "st' = put_lists False (upd_entry n i g (used_lists False st)) st" by (simp add: st'_def upd_entry_def used_lists_def)
  note u = upd_entry_keeps [OF ok n, of g, folded s]
  show "ranges_ok (ranges st')" "same_pool st st'" "length (ranges st') = length (ranges st)" "rs_set_entries st' = rs_set_entries st"
    by (rule u; simp add: g_def)+
qed

lemma put_entry_ok:
  assumes "rp_set_ok st" "n < length (ranges st)" "i < length (gm_grp_rp (ranges st ! n))"
    "re_rp e = re_rp (gm_grp_rp (ranges st ! n) ! i)" "re_priority e = re_priority (gm_grp_rp (ranges st ! n) ! i)"
    "re_grplink e = re_grplink (gm_grp_rp (ranges st ! n) ! i)"
  shows "rp_set_ok (put_lists False (upd_entry n i (\<lambda>_. e) (used_lists False st)) st)"
proof -
  have o: "ranges_ok (ranges st)" "unat (rs_set_entries st) = length (ranges st)" "current st" using assms(1) by (simp_all add: rp_set_ok_def)
  note u = put_entry_kept [OF o(1) assms(2-6)]
  show ?thesis using u same_pool_current [OF o(1) u(1,2) o(3)] o(2) by (simp add: rp_set_ok_def)
qed

lemma put_entry_lists:
  assumes "n < length (ranges st)"
  shows "length (ranges (put_lists False (upd_entry n i f (used_lists False st)) st)) = length (ranges st)"
    "length (gm_grp_rp (ranges (put_lists False (upd_entry n i f (used_lists False st)) st) ! n)) = length (gm_grp_rp (ranges st ! n))"
  using assms by (simp_all add: upd_entry_def put_lists_def used_lists_def)

lemma delete_entry_shape:
  assumes "n < length (ranges st)" "i < length (gm_grp_rp (ranges st ! n))"
  defines "st' \<equiv> delete_rp_grp_entry False n i st"
  shows "length (gm_grp_rp (ranges st ! n)) = Suc 0 \<Longrightarrow> length (ranges st') = length (ranges st) - 1"
    "length (gm_grp_rp (ranges st ! n)) \<noteq> Suc 0 \<Longrightarrow> length (ranges st') = length (ranges st) \<and>
       length (gm_grp_rp (ranges st' ! n)) = length (gm_grp_rp (ranges st ! n)) - 1"
proof -
  let ?d = "drop_entry n i st"
  have es: "gm_grp_rp (ranges ?d ! n) = remove_nth i (gm_grp_rp (ranges st ! n))" using assms(1) by (simp add: drop_entry_ranges)
  have len: "length (remove_nth i (gm_grp_rp (ranges st ! n))) = length (gm_grp_rp (ranges st ! n)) - 1" using remove_nth_length [OF assms(2)] by simp
  show "length (ranges st') = length (ranges st) - 1" if "length (gm_grp_rp (ranges st ! n)) = Suc 0"
  proof -
    have ne: "gm_grp_rp (ranges ?d ! n) = []" using es len that by simp
    have "ranges (drop_range n ?d) = remove_nth n (ranges st)" by (rule shrinks_trans_drop(2) [OF assms(1,2) ne])
    moreover have "regroups (drop_entry_range n i st) (fold remap_grpentry gs (release_rp False a k (drop_entry_range n i st)))" for gs a k
      using release_remap_walk by blast
    then have "length (ranges (fold remap_grpentry gs (release_rp False a k (drop_entry_range n i st)))) = length (ranges (drop_entry_range n i st))" for gs a k
      by (rule regroups_frame(2))
    moreover have "rs_main (update_bootstrap_timer s) = rs_main s" for s by (simp add: update_bootstrap_timer_def)
    ultimately show ?thesis unfolding st'_def delete_rp_grp_entry_eq [OF assms(1)]
      using remove_nth_length [OF assms(1)] ne by (simp add: drop_entry_range_def Let_def)
  qed
  show "length (ranges st') = length (ranges st) \<and> length (gm_grp_rp (ranges st' ! n)) = length (gm_grp_rp (ranges st ! n)) - 1"
    if "length (gm_grp_rp (ranges st ! n)) \<noteq> Suc 0"
  proof -
    have ne: "gm_grp_rp (ranges ?d ! n) \<noteq> []" using es len that assms(2) by auto
    note b = delete_entry_ranges [OF assms(1) ne, folded st'_def]
    have n: "n < length (ranges ?d)" using assms(1) by simp
    show ?thesis using bare_entries(2) [OF b n] map_eq_imp_length_eq [OF b] es len by (metis drop_entry_frame(1) length_map)
  qed
qed

lemma masklen_valid [simp]: "inet_valid_mask (ntohl (masklen_to_mask n))"
proof -
  have "masklen_to_mask n = masklen_to_mask (min n 32)" by (simp add: masklen_to_mask_def min_def)
  then show ?thesis unfolding valid_mask_masklen by (metis min.cobounded2)
qed

definition leaves :: "(rp_state \<Rightarrow> bool) \<Rightarrow> (bool \<times> rp_state \<times> bsr_act list) option \<Rightarrow> bool" where
  "leaves P r = (case r of None \<Rightarrow> False | Some (b, st, acts) \<Rightarrow> P st)"

lemma leaves_Some [simp]: "leaves P (Some (b, st, acts)) = P st"
  by (simp add: leaves_def)

section \<open>An invariant of the RP set\<close>

text \<open>
  What an invariant of the RP set owes the handlers: it does not depend on the segmented lists and the globals of the
  bootstrap mechanism, and the operations on the main lists keep it.
\<close>

locale rp_invariant =
  fixes I :: "rp_state \<Rightarrow> bool"
  assumes sound: "I st \<Longrightarrow> ranges_ok (ranges st)"
    and frame: "rs_main st' = rs_main st \<Longrightarrow> rs_norp st' = rs_norp st \<Longrightarrow> rs_ssm st' = rs_ssm st \<Longrightarrow>
      rs_autorp st' = rs_autorp st \<Longrightarrow> rs_set_entries st' = rs_set_entries st \<Longrightarrow> rs_set_limit st' = rs_set_limit st \<Longrightarrow> I st' = I st"
    and remap: "I st \<Longrightarrow> I (remap_grpentry g st)"
    and delete_entry: "I st \<Longrightarrow> n < length (ranges st) \<Longrightarrow> i < length (gm_grp_rp (ranges st ! n)) \<Longrightarrow> I (delete_rp_grp_entry False n i st)"
    and delete_range: "I st \<Longrightarrow> n < length (ranges st) \<Longrightarrow> I (delete_grp_mask_entry False n st)"
    and put_entry: "I st \<Longrightarrow> n < length (ranges st) \<Longrightarrow> i < length (gm_grp_rp (ranges st ! n)) \<Longrightarrow>
      re_rp e = re_rp (gm_grp_rp (ranges st ! n) ! i) \<Longrightarrow> re_priority e = re_priority (gm_grp_rp (ranges st ! n) ! i) \<Longrightarrow>
      re_grplink e = re_grplink (gm_grp_rp (ranges st ! n) ! i) \<Longrightarrow> I (put_lists False (upd_entry n i (\<lambda>_. e) (used_lists False st)) st)"
    and add: "I st \<Longrightarrow> inet_valid_mask (ntohl k) \<Longrightarrow> I (snd (add_rp_grp_entry_from False b p t a k h tag origin st))"
begin

lemma remaps: "I st \<Longrightarrow> I (fold remap_grpentry gs st)"
  by (induction gs arbitrary: st) (simp_all add: remap)

lemma put_seg_ok [simp]: "I (put_lists True l st) = I st"
  by (rule frame) simp_all

lemma release_seg_ok [simp]: "I (release_rp True a k st) = I st"
  by (simp add: release_rp_def Let_def)

lemma put_range_seg_ok [simp]: "I (put_range True n m st) = I st"
  by (simp add: put_range_def Let_def)

lemma timer_ok [simp]: "I (update_bootstrap_timer st) = I st"
  by (rule frame) (simp_all add: update_bootstrap_timer_def)

lemma delete_mask_seg_ok: "I st \<Longrightarrow> I (delete_grp_mask_entry True n st)"
proof -
  have "I (fold (\<lambda>e st. release_rp True (re_rp e) (range_key m e) (fold remap_grpentry (re_grplink e) st)) es s)"
    if "I s" for m es s using that by (induction es arbitrary: s) (simp_all add: remaps)
  then show "I st \<Longrightarrow> I (delete_grp_mask_entry True n st)" by (simp add: delete_grp_mask_entry_def Let_def)
qed

lemma delete_entry_seg_ok: "I st \<Longrightarrow> I (delete_rp_grp_entry True n i st)"
  by (simp add: delete_rp_grp_entry_def Let_def remaps delete_mask_seg_ok)

lemma bsr_withdraw_seg_ok: "I st \<Longrightarrow> I (bsr_withdraw True k n i st)"
  by (induction k arbitrary: i st) (simp_all add: Let_def delete_entry_seg_ok)

lemma delete_grp_mask_seg_ok: "I st \<Longrightarrow> I (delete_grp_mask True a k st)"
  by (simp add: delete_grp_mask_def Let_def bsr_withdraw_seg_ok delete_mask_seg_ok split: option.split)

lemma remap_best_seg_ok: "I st \<Longrightarrow> I (remap_best True n p q st)"
proof -
  have "I (fold (\<lambda>i. remap_of P n i True) is s)" if "I s" for P "is" s
    using that by (induction "is" arbitrary: s) (simp_all add: remap_of_def remaps)
  then show "I st \<Longrightarrow> I (remap_best True n p q st)" by (simp add: remap_best_def Let_def)
qed

lemma add_seg_ok: "I st \<Longrightarrow> I (snd (add_rp_grp_entry_from True b p t a k h tag origin st))"
proof -
  assume ok: "I st"
  have m: "I st2" if "add_grp_mask True a k h st = Some (n, st2)" for n st2
    using that ok by (auto simp: add_grp_mask_def Let_def split_def split: if_splits)
  show ?thesis
    by (auto simp: add_rp_grp_entry_from_def Let_def split_def first_rp_def m delete_grp_mask_seg_ok remap_best_seg_ok ok split: option.split if_splits)
qed



lemma withdraw:
  "I st \<Longrightarrow> n < length (ranges st) \<Longrightarrow> i + k = length (gm_grp_rp (ranges st ! n)) \<Longrightarrow>
   list_ex kept (gm_grp_rp (ranges st ! n)) \<Longrightarrow> I (bsr_withdraw False k n i st)"
proof (induction k arbitrary: i st)
  case (Suc k)
  let ?es = "gm_grp_rp (ranges st ! n)" and ?s = "unmark n i st"
  have i: "i < length ?es" using Suc.prems(3) by simp
  have e: "entry_at False n i st = ?es ! i" by (simp add: entry_at_def used_lists_def)
  note u = unmark_lists [OF Suc.prems(2) i]
  have iu: "I ?s" unfolding unmark_def using put_entry [OF Suc.prems(1,2) i] by (simp add: upd_entry_def used_lists_def)
  have n': "n < length (ranges ?s)" using u(1) Suc.prems(2) by simp
  have len: "length (gm_grp_rp (ranges ?s ! n)) = length ?es" by (simp add: unmark_entries [OF Suc.prems(2)])
  consider "re_origin (?es ! i) AND rp_origin_bsr = 0" | "re_origin (?es ! i) AND rp_origin_bsr \<noteq> 0" "kept (?es ! i)"
    | "re_origin (?es ! i) AND rp_origin_bsr \<noteq> 0" "\<not> kept (?es ! i)" by blast
  then show ?case
  proof cases
    case 1
    then show ?thesis using Suc.IH [of st "Suc i"] Suc.prems by (simp only: bsr_withdraw_step e) simp
  next
    case 2
    then show ?thesis using Suc.IH [of ?s "Suc i"] Suc.prems iu u n' len by (simp only: bsr_withdraw_step e) simp
  next
    case 3
    let ?d = "drop_entry n i ?s" and ?t = "delete_rp_grp_entry False n i ?s"
    have i': "i < length (gm_grp_rp (ranges ?s ! n))" using i len by simp
    have "\<not> kept (gm_grp_rp (ranges ?s ! n) ! i)" using 3(2) i by (simp add: unmark_entries [OF Suc.prems(2)] kept_def and.assoc)
    then have ex: "list_ex kept (gm_grp_rp (ranges ?d ! n))" using remove_nth_keeps [of kept "gm_grp_rp (ranges ?s ! n)" i] i' u(2) Suc.prems(4) n'
      by (simp add: drop_entry_ranges)
    then have ne: "gm_grp_rp (ranges ?d ! n) \<noteq> []" by auto
    note b = bare_entries [OF delete_entry_ranges [OF n' ne]]
    have nd: "n < length (ranges ?d)" using n' by simp
    have "length (gm_grp_rp (ranges ?t ! n)) = length (gm_grp_rp (ranges ?d ! n))" using b(2) [OF nd] by (metis length_map)
    then have "i + k = length (gm_grp_rp (ranges ?t ! n))" using Suc.prems(3) len remove_nth_length [OF i'] n' by (simp add: drop_entry_ranges)
    moreover have "list_ex kept (gm_grp_rp (ranges ?t ! n))" using bare_kept [OF b(2) [OF nd]] ex by simp
    ultimately have "I (bsr_withdraw False k n i ?t)"
      using Suc.IH [of ?t i] delete_entry [OF iu n' i'] b(1) [OF nd] by simp
    then show ?thesis using 3 by (simp only: bsr_withdraw_step e) simp
  qed
qed simp

lemma delete_group:
  assumes "I st"
  shows "I (delete_grp_mask False a k st)"
proof (cases "find_grp_mask a k 0 (ranges st)")
  case None
  then show ?thesis using assms by (simp add: delete_grp_mask_def used_lists_def)
next
  case (Some n)
  have n: "n < length (ranges st)" using find_grp_mask_valid [OF Some] by simp
  have "delete_grp_mask False a k st = (if \<not> list_ex kept (gm_grp_rp (ranges st ! n)) then delete_grp_mask_entry False n st
      else bsr_withdraw False (length (gm_grp_rp (ranges st ! n))) n 0 st)"
    using Some by (simp add: delete_grp_mask_def used_lists_def kept_def [abs_def])
  then show ?thesis using delete_range [OF assms n] withdraw [OF assms n, of 0] by simp
qed



lemma sweep_rps_ok:
  assumes f: "keeps_place f"
  shows "I st \<Longrightarrow> n < length (ranges st) \<Longrightarrow> i + k = length (gm_grp_rp (ranges st ! n)) \<Longrightarrow>
    I (sweep_rps False f k n i st) \<and>
    (length (ranges (sweep_rps False f k n i st)) = length (ranges st) \<or> Suc (length (ranges (sweep_rps False f k n i st))) = length (ranges st))"
proof (induction k arbitrary: i st)
  case (Suc k)
  have i: "i < length (gm_grp_rp (ranges st ! n))" using Suc.prems(3) by simp
  have e: "entry_at False n i st = gm_grp_rp (ranges st ! n) ! i" by (simp add: entry_at_def used_lists_def)
  show ?case
  proof (cases "f (entry_at False n i st)")
    case None
    let ?t = "delete_rp_grp_entry False n i st"
    have ok: "I ?t" by (rule delete_entry [OF Suc.prems(1,2) i])
    show ?thesis
    proof (cases "length (gm_grp_rp (ranges st ! n)) = Suc 0")
      case True
      then show ?thesis using None ok delete_entry_shape(1) [OF Suc.prems(2) i True] Suc.prems(2,3) by auto
    next
      case False
      then show ?thesis using None ok delete_entry_shape(2) [OF Suc.prems(2) i False] Suc.IH [of ?t i] Suc.prems(2,3) by simp
    qed
  next
    case (Some x)
    have x: "re_rp x = re_rp (gm_grp_rp (ranges st ! n) ! i)" "re_priority x = re_priority (gm_grp_rp (ranges st ! n) ! i)"
      "re_grplink x = re_grplink (gm_grp_rp (ranges st ! n) ! i)" using f Some e by (auto simp: keeps_place_def)
    note u = put_entry [OF Suc.prems(1,2) i x] put_entry_lists [OF Suc.prems(2), of i "\<lambda>_. x"]
    show ?thesis using Some Suc.IH [of "put_lists False (upd_entry n i (\<lambda>_. x) (used_lists False st)) st" "Suc i"] u Suc.prems(2,3) by simp
  qed
qed simp

lemma sweep_ranges_ok:
  assumes f: "keeps_place f"
  shows "I st \<Longrightarrow> n + k = length (ranges st) \<Longrightarrow> I (sweep_ranges False P f k n st)"
proof (induction k arbitrary: n st)
  case (Suc k)
  have n: "n < length (ranges st)" using Suc.prems(2) by simp
  note r = sweep_rps_ok [OF f Suc.prems(1) n, of 0 "length (gm_grp_rp (ranges st ! n))"]
  show ?case using Suc.IH Suc.prems r by (auto simp: used_lists_def Let_def)
qed simp

lemma sweep_ok: "keeps_place f \<Longrightarrow> I st \<Longrightarrow> I (sweep False P f st)"
  by (simp add: sweep_def used_lists_def sweep_ranges_ok)

lemma sweep_seg_ok: "I st \<Longrightarrow> I (sweep True P f st)"
proof -
  have r: "I s \<Longrightarrow> I (sweep_rps True f k n i s)" for k n i s
    by (induction k arbitrary: i s) (simp_all add: delete_entry_seg_ok split: option.split)
  have "I s \<Longrightarrow> I (sweep_ranges True P f k n s)" for k n s
    by (induction k arbitrary: n s) (simp_all add: Let_def r)
  then show "I st \<Longrightarrow> I (sweep True P f st)" by (simp add: sweep_def)
qed

lemma add_ok: "I st \<Longrightarrow> I (snd (add_rp_grp_entry seg b p t a (masklen_to_mask n) h tag st))"
  by (cases seg) (simp_all add: add_rp_grp_entry_def add_seg_ok add)

lemma add_rprecs_ok:
  "I st \<Longrightarrow> list_all (\<lambda>j. pim_bsr_rp msg g j \<noteq> None) [i..<i + k] \<Longrightarrow>
   \<exists>st'. add_rprecs seg msg g (masklen_to_mask n) k i st = Some st' \<and> I st'"
proof (induction k arbitrary: i st)
  case (Suc k)
  obtain r where r: "pim_bsr_rp msg g i = Some r" using Suc.prems(2) by (auto simp: upt_rec [of i] simp del: upt_Suc)
  have "list_all (\<lambda>j. pim_bsr_rp msg g j \<noteq> None) [Suc i..<Suc i + k]" using Suc.prems(2) by (auto simp: list_all_iff)
  from Suc.IH [OF add_ok [OF Suc.prems(1)] this] show ?case using r by simp
qed simp

lemma add_saved_ok: "I st \<Longrightarrow> I (add_saved g (masklen_to_mask n) es st)"
  unfolding add_saved_def by (induction es arbitrary: st) (simp_all add: add_ok)

lemma bootstrap_set_ok:
  assumes "I st" "bsr_grp_good msg g"
  shows "\<exists>st'. bootstrap_set msg g st = Some st' \<and> I st'"
proof -
  have l: "list_all (\<lambda>j. pim_bsr_rp msg g j \<noteq> None) [0..<0 + unat (bg_frag_rp_count g)]" using assms(2) by (simp add: bsr_grp_good_def)
  let ?k = "masklen_to_mask (unat (ega_masklen (bg_grp g)))" and ?f = "unat (bg_frag_rp_count g)"
  obtain s t where s: "add_rprecs False msg g ?k ?f 0 st = Some s" "I s" and t: "add_rprecs True msg g ?k ?f 0 st = Some t" "I t"
    using add_rprecs_ok [OF assms(1) l] by metis
  have "case bootstrap_set msg g st of None \<Rightarrow> False | Some st' \<Rightarrow> I st'"
    using assms(1) s t delete_group [OF assms(1)] delete_grp_mask_seg_ok [OF add_saved_ok [OF s(2)]]
    by (simp add: bootstrap_set_def Let_def split: option.split)
  then show ?thesis by (auto split: option.splits)
qed

lemma bootstrap_sets_ok:
  "I st \<Longrightarrow> bsr_groups_at msg p k = Some gs \<Longrightarrow> list_all (bsr_grp_good msg) gs \<Longrightarrow>
   \<exists>st'. bootstrap_sets msg k p st = Some st' \<and> I st'"
proof (induction k arbitrary: p gs st)
  case (Suc k)
  obtain q g hs where g: "pim_bsr_group msg p = Some (q, g)" "bsr_groups_at msg q k = Some hs" "gs = g # hs"
    using Suc.prems(2) by (auto split: bind_splits)
  obtain s where s: "bootstrap_set msg g st = Some s" "I s" using bootstrap_set_ok [OF Suc.prems(1)] Suc.prems(3) g(3) by auto
  from Suc.IH [OF s(2) g(2)] Suc.prems(3) g s show ?case by simp
qed simp

lemma bootstrap_collect_ok: "I st \<Longrightarrow> I (bootstrap_collect st)"
  by (simp add: bootstrap_collect_def Let_def sweep_seg_ok sweep_ok sweeps_keep_place)

lemma bootstrap_adopt_ok [simp]: "I (bootstrap_adopt bsr st) = I st"
  by (rule frame) (simp_all add: bootstrap_adopt_def delete_rp_list_def Let_def)

lemma receive_pim_bootstrap_ok:
  assumes "I st"
  shows "leaves I (receive_pim_bootstrap k uvifs src dst msg st)"
proof -
  obtain rc bsr where p: "pim_parse_bsr msg = Some (rc, bsr)" using parse_bsr_returns by blast
  show ?thesis
  proof (cases "rc = PIM_BSR_OK")
    case True
    obtain q gs where q: "bsr_sets bsr = Some q" "bsr_groups_at msg q (bsr_num_sets bsr) = Some gs" "list_all (bsr_grp_good msg) gs"
      using parse_bsr_ok p True by blast
    obtain s where "bootstrap_sets msg (bsr_num_sets bsr) q (bootstrap_adopt bsr st) = Some s" "I s"
      using bootstrap_sets_ok [OF _ q(2,3), of "bootstrap_adopt bsr st"] assms by auto
    then show ?thesis using p q(1) assms bootstrap_collect_ok [of s] by (simp add: receive_pim_bootstrap_def Let_def split: option.split)
  next
    case False
    then show ?thesis using p assms by (cases rc) (simp_all add: receive_pim_bootstrap_def Let_def split: option.split)
  qed
qed

lemma crp_loop_ok:
  "I st \<Longrightarrow> list_all (\<lambda>j. pim_crp_prefix msg crp j \<noteq> None) [i..<i + k] \<Longrightarrow>
   \<exists>st'. crp_loop l msg crp h k i st = Some st' \<and> I st'"
proof (induction k arbitrary: i st)
  case (Suc k)
  obtain r where r: "pim_crp_prefix msg crp i = Some r" using Suc.prems(2) by (auto simp: upt_rec [of i] simp del: upt_Suc)
  have l: "list_all (\<lambda>j. pim_crp_prefix msg crp j \<noteq> None) [Suc i..<Suc i + k]" using Suc.prems(2) by (auto simp: list_all_iff)
  define s where "s = (if ega_masklen r > 32 then st
        else if \<not> group_range_ok r then st
        else if \<not> cand_rp_group_accepted l (ega_mcast_addr r) (unat (ega_masklen r)) then st
        else if is_ssm_group (rs_ssm st) (ega_mcast_addr r) then st
        else snd (add_rp_grp_entry False (crp_rp crp) (crp_priority crp) h (ega_mcast_addr r)
                    (masklen_to_mask (unat (ega_masklen r))) (my_bsr_hash_mask st) (curr_bsr_fragment_tag st) st))"
  have "crp_loop l msg crp h (Suc k) i st = crp_loop l msg crp h k (Suc i) s" unfolding s_def by (simp only: crp_loop.simps r bind.bind_lunit)
  moreover have "I s" using Suc.prems(1) by (simp add: s_def add_ok)
  ultimately show ?case using Suc.IH [OF _ l] by simp
qed simp

lemma receive_pim_cand_rp_adv_ok:
  assumes "I st"
  shows "\<exists>r st'. receive_pim_cand_rp_adv from_list group_list src msg st = Some (r, st') \<and> I st'"
proof -
  obtain rc crp where p: "pim_parse_crp msg = Some (rc, crp)" using parse_crp_returns by blast
  let ?loop = "crp_loop group_list msg crp (wire_holdtime st (crp_holdtime crp)) (unat (crp_num_prefixes crp)) 0 st"
  have "\<exists>s. ?loop = Some s \<and> I s" if "rc = PIM_CRP_OK"
    by (rule crp_loop_ok [OF assms]) (use crp_prefix_Some p that in \<open>auto simp: list_all_iff\<close>)
  then obtain s where s: "rc = PIM_CRP_OK \<Longrightarrow> ?loop = Some s \<and> I s" by blast
  have "case receive_pim_cand_rp_adv from_list group_list src msg st of None \<Rightarrow> False | Some (r, st') \<Rightarrow> I st'"
    using p assms s add_ok [OF assms] by (cases rc) (simp_all add: receive_pim_cand_rp_adv_def Let_def)
  then show ?thesis by (auto split: option.splits)
qed



lemma my_cand_rp: "I st \<Longrightarrow> I (add_my_cand_rp_loop l priority k i st)"
  by (induction k arbitrary: i st) (simp_all add: add_ok split: option.split)

lemma priorities:
  assumes "send_buf_size \<le> length buf"
  shows "I st \<Longrightarrow> \<exists>st' acts. cand_rp_priorities l buf mine ps st = Some (st', acts) \<and> I st'"
proof (induction ps arbitrary: st)
  case (Cons p ps)
  obtain acts where a: "send_cand_rp_adv l buf p (cand_rp_prefix_count l p) st = Some acts" using send_cand_rp_adv_returns [OF assms] by blast
  obtain s as where s: "cand_rp_priorities l buf mine ps st = Some (s, as)" "I s" using Cons.IH Cons.prems by blast
  obtain t at where t: "cand_rp_priorities l buf mine ps (add_my_cand_rp l p (cand_rp_prefix_count l p) st) = Some (t, at)" "I t"
    using Cons.IH [of "add_my_cand_rp l p (cand_rp_prefix_count l p) st"] my_cand_rp [OF Cons.prems] by (auto simp: add_my_cand_rp_def)
  show ?case using a s t by (cases mine) (auto simp: Let_def)
qed simp

lemma send_adv:
  assumes "send_buf_size \<le> length buf" "I st"
  shows "leaves I (send_pim_cand_rp_adv l buf st)"
proof -
  obtain s acts where "cand_rp_priorities l buf (curr_bsr_address st = my_bsr_address st) (map of_nat [0..<256]) st = Some (s, acts)" "I s"
    using priorities [OF assms] by blast
  then show ?thesis using assms(2) by (simp add: send_pim_cand_rp_adv_def)
qed

text \<open>The clock: the timers are apart from the lists, and what is sent changes the fragment tag only.\<close>

lemma age:
  assumes buf: "send_buf_size \<le> length buf" and ok: "I st" and cands: "\<And>s. I s \<Longrightarrow> cand_ok s"
  shows "case age_misc rnd l uvifs buf st of None \<Rightarrow> False | Some (st', acts) \<Rightarrow> I st'"
proof -
  let ?s1 = "sweep False (\<lambda>_. True) age_entry st"
  let ?adv = "\<lambda>s. if cand_rp_flag s then
          let s = s\<lparr>pim_cand_rp_adv_timer := timer_tick (pim_cand_rp_adv_timer s)\<rparr> in
          if pim_cand_rp_adv_timer s = 0 then do {
            (_, s, acts) \<leftarrow> send_pim_cand_rp_adv l buf s;
            Some (s\<lparr>pim_cand_rp_adv_timer := my_cand_rp_adv_period s\<rparr>, acts) }
          else Some (s, [])
        else Some (s, [])"
  have t: "I (s\<lparr>pim_cand_rp_adv_timer := x\<rparr>) = I s" "I (s\<lparr>pim_bootstrap_timer := x\<rparr>) = I s" "I (s\<lparr>curr_bsr_fragment_tag := x\<rparr>) = I s"
    "I (s\<lparr>curr_bsr_priority := y\<rparr>) = I s" "I (s\<lparr>curr_bsr_address := z\<rparr>) = I s" "I (s\<lparr>curr_bsr_hash_mask := z\<rparr>) = I s" for s x y z
    by (rule frame; simp)+
  have "I ?s1" using sweep_ok sweeps_keep_place(1) ok by blast
  moreover from this obtain b s acts where "send_pim_cand_rp_adv l buf (?s1\<lparr>pim_cand_rp_adv_timer := timer_tick (pim_cand_rp_adv_timer ?s1)\<rparr>) = Some (b, s, acts)" "I s"
    using send_adv [OF buf, of "?s1\<lparr>pim_cand_rp_adv_timer := timer_tick (pim_cand_rp_adv_timer ?s1)\<rparr>" l]
    by (auto simp: t leaves_def split: option.splits)
  ultimately have "case ?adv ?s1 of None \<Rightarrow> False | Some (s2, acts) \<Rightarrow> I s2" by (auto simp: Let_def t)
  then obtain s2 acts where s2: "?adv ?s1 = Some (s2, acts)" "I s2" by (auto split: option.splits)
  let ?s3 = "s2\<lparr>pim_bootstrap_timer := timer_tick (pim_bootstrap_timer s2)\<rparr>"
  have s3: "I ?s3" "I (no_bsr ?s3)" using s2(2) by (simp_all add: t no_bsr_def)
  let ?s4 = "?s3\<lparr>pim_bootstrap_timer := my_bsr_adv_period ?s3\<rparr>"
  have s4: "I ?s4" "ranges_ok (ranges ?s4)" using s3(1) sound [of s2] s2(2) by (simp_all add: t)
  from send_bootstrap_returns [OF cands [OF s4(1)] s4(2) buf, of uvifs] obtain tag acts'
    where "send_pim_bootstrap uvifs buf ?s4 = Some (?s4\<lparr>curr_bsr_fragment_tag := tag\<rparr>, acts')" by (elim exE)
  moreover have "I (?s4\<lparr>curr_bsr_fragment_tag := tag\<rparr>)" using s4(1) by (simp add: t)
  ultimately show ?thesis using s2(1) s3 unfolding age_misc_def Let_def [of ?s1] by (simp add: t no_bsr_def Let_def)
qed

end

lemma rp_state_frame:
  fixes st st' :: rp_state
  assumes "rs_main st' = rs_main st" "rs_norp st' = rs_norp st" "rs_ssm st' = rs_ssm st" "rs_autorp st' = rs_autorp st"
    "rs_set_entries st' = rs_set_entries st" "rs_set_limit st' = rs_set_limit st"
  shows "rp_state_ok st' = rp_state_ok st"
  unfolding rp_state_ok_def rp_set_ok_frame [OF assms(1-5)] cand_ok_frame [OF assms(1)] within_frame [OF assms(5,6)] by (rule refl)

interpretation rps: rp_invariant rp_state_ok
proof
  fix st st' :: rp_state assume "rs_main st' = rs_main st" "rs_norp st' = rs_norp st" "rs_ssm st' = rs_ssm st" "rs_autorp st' = rs_autorp st"
    "rs_set_entries st' = rs_set_entries st" "rs_set_limit st' = rs_set_limit st"
  then show "rp_state_ok st' = rp_state_ok st" by (rule rp_state_frame)
next
  fix st g assume "rp_state_ok st"
  then show "rp_state_ok (remap_grpentry g st)"
    using fold_remap_ok [of st "[g]"] fold_remap_cand_ok [of "[g]" st] within_core [of "remap_grpentry g st" st] by (simp add: rp_state_ok_def)
next
  fix st n i assume "rp_state_ok st" "n < length (ranges st)" "i < length (gm_grp_rp (ranges st ! n))"
  then show "rp_state_ok (delete_rp_grp_entry False n i st)"
    using delete_rp_grp_entry_ok delete_entry_cand_ok delete_entry_within by (simp add: rp_state_ok_def rp_set_ok_def)
next
  fix st n assume "rp_state_ok st" "n < length (ranges st)"
  then show "rp_state_ok (delete_grp_mask_entry False n st)"
    using delete_grp_mask_entry_ok delete_mask_cand_ok ranges_distinct delete_mask_within by (simp add: rp_state_ok_def rp_set_ok_def)
next
  fix st n i and e :: rp_grp_entry assume "rp_state_ok st" "n < length (ranges st)" "i < length (gm_grp_rp (ranges st ! n))"
    "re_rp e = re_rp (gm_grp_rp (ranges st ! n) ! i)" "re_priority e = re_priority (gm_grp_rp (ranges st ! n) ! i)"
    "re_grplink e = re_grplink (gm_grp_rp (ranges st ! n) ! i)"
  then show "rp_state_ok (put_lists False (upd_entry n i (\<lambda>_. e) (used_lists False st)) st)"
    using put_entry_ok put_entry_cand_ok within_frame [of "put_lists False l st" st for l] by (simp add: rp_state_ok_def rp_set_ok_def)
next
  fix st k b p t a h tag origin assume "rp_state_ok st" "inet_valid_mask (ntohl k)"
  then show "rp_state_ok (snd (add_rp_grp_entry_from False b p t a k h tag origin st))"
    using add_rp_set_ok add_cand_ok add_within by (simp add: rp_state_ok_def rp_set_ok_shape)
qed (simp add: rp_state_ok_def rp_set_ok_def)


text \<open>
  The shape of the RP set alone is such an invariant too, whether or not the groups hang where they should: this is what is
  left of it where mappings of Auto-RP come and go.
\<close>

definition rp_shape_ok :: "rp_state \<Rightarrow> bool" where
  "rp_shape_ok st \<longleftrightarrow> set_shape st \<and> cand_ok st \<and> within_limit st"

lemma rp_shape_frame:
  fixes st st' :: rp_state
  assumes "rs_main st' = rs_main st" "rs_set_entries st' = rs_set_entries st" "rs_set_limit st' = rs_set_limit st"
  shows "rp_shape_ok st' = rp_shape_ok st"
  unfolding rp_shape_ok_def cand_ok_frame [OF assms(1)] within_frame [OF assms(2,3)] using assms by (simp add: set_shape_def)

lemma rp_shape_regroups: "core st' = core st \<Longrightarrow> cands st' = cands st \<Longrightarrow> rp_shape_ok st' = rp_shape_ok st"
  using cand_ok_regroups within_core ranges_ok_bare core_simps(1,6) unfolding rp_shape_ok_def set_shape_def by (metis length_map)

interpretation shp: rp_invariant rp_shape_ok
proof
  fix st st' :: rp_state assume "rs_main st' = rs_main st" "rs_set_entries st' = rs_set_entries st" "rs_set_limit st' = rs_set_limit st"
  then show "rp_shape_ok st' = rp_shape_ok st" by (rule rp_shape_frame)
next
  fix st g assume "rp_shape_ok st"
  then show "rp_shape_ok (remap_grpentry g st)" using rp_shape_regroups [of "remap_grpentry g st" st] by simp
next
  fix st n i assume "rp_shape_ok st" "n < length (ranges st)" "i < length (gm_grp_rp (ranges st ! n))"
  then show "rp_shape_ok (delete_rp_grp_entry False n i st)"
    using delete_entry_set_shape delete_entry_cand_ok delete_entry_within by (simp add: rp_shape_ok_def set_shape_def)
next
  fix st n assume "rp_shape_ok st" "n < length (ranges st)"
  then show "rp_shape_ok (delete_grp_mask_entry False n st)"
    using delete_mask_set_shape delete_mask_cand_ok ranges_distinct delete_mask_within by (simp add: rp_shape_ok_def set_shape_def)
next
  fix st n i and e :: rp_grp_entry assume a: "rp_shape_ok st" "n < length (ranges st)" "i < length (gm_grp_rp (ranges st ! n))"
    "re_rp e = re_rp (gm_grp_rp (ranges st ! n) ! i)" "re_priority e = re_priority (gm_grp_rp (ranges st ! n) ! i)"
    "re_grplink e = re_grplink (gm_grp_rp (ranges st ! n) ! i)"
  then have "ranges_ok (ranges st)" by (simp add: rp_shape_ok_def set_shape_def)
  from put_entry_kept [OF this a(2-6)] show "rp_shape_ok (put_lists False (upd_entry n i (\<lambda>_. e) (used_lists False st)) st)"
    using a put_entry_cand_ok within_frame [of "put_lists False l st" st for l] by (simp add: rp_shape_ok_def set_shape_def)
next
  fix st k b p t a h tag origin assume "rp_shape_ok st" "inet_valid_mask (ntohl k)"
  then show "rp_shape_ok (snd (add_rp_grp_entry_from False b p t a k h tag origin st))"
    using add_shape add_cand_ok add_within by (simp add: rp_shape_ok_def)
qed (simp add: rp_shape_ok_def set_shape_def)

end
