(* ===== verification/Bsr_Elect.thy ===== *)
theory Bsr_Elect
  imports Bsr_Keep Nbr_Keep Election
begin

text \<open>
  The bootstrap mechanism as a whole: its handlers keep the RP set, routers that hear the same Bootstraps agree on
  the bootstrap router, a candidate takes over when no other is heard, and what it sends reads back as the RP set it has.
\<close>


section \<open>The order of bootstrap routers\<close>

definition bsr_beats :: "u8 \<times> u32 \<Rightarrow> u8 \<times> u32 \<Rightarrow> bool" where
  "bsr_beats x y \<longleftrightarrow> fst x > fst y \<or> fst x = fst y \<and> ntohl (snd x) > ntohl (snd y)"

interpretation be: election bsr_beats
  by unfold_locales (auto simp: bsr_beats_def prod_eq_iff intro: less_trans dest: antisym_conv3)

definition bsr_of :: "rp_state \<Rightarrow> u8 \<times> u32" where
  "bsr_of st = (curr_bsr_priority st, curr_bsr_address st)"

lemma less_preferred_beats: "bsr_less_preferred st bsr \<longleftrightarrow> bsr_beats (bsr_of st) (bsr_priority bsr, bsr_bsr bsr)"
  by (simp add: bsr_less_preferred_def bsr_beats_def bsr_of_def)


section \<open>What the operations of the RP set leave of the rest of the state\<close>

definition rest :: "rp_state \<Rightarrow> rp_state" where
  "rest st = st\<lparr>rs_main := \<lparr>rl_cand = [], rl_grp = []\<rparr>, rs_seg := \<lparr>rl_cand = [], rl_grp = []\<rparr>, rs_norp := [], rs_resync := False,
     rs_set_entries := 0\<rparr>"

definition retimes :: "rp_state \<Rightarrow> rp_state \<Rightarrow> bool" where
  "retimes st st' \<longleftrightarrow> rest st' = rest st \<or>
     cand_bsr_flag st \<and> curr_bsr_address st = my_bsr_address st \<and> rest st' = rest (st\<lparr>pim_bootstrap_timer := pim_min_bootstrap_period\<rparr>)"

lemma rest_fields:
  "rest st' = rest st \<Longrightarrow> curr_bsr_address st' = curr_bsr_address st \<and> curr_bsr_priority st' = curr_bsr_priority st \<and>
     curr_bsr_fragment_tag st' = curr_bsr_fragment_tag st \<and> curr_bsr_hash_mask st' = curr_bsr_hash_mask st \<and>
     pim_bootstrap_timer st' = pim_bootstrap_timer st \<and> my_bsr_address st' = my_bsr_address st \<and> cand_bsr_flag st' = cand_bsr_flag st \<and>
     my_bsr_priority st' = my_bsr_priority st \<and> my_bsr_hash_mask st' = my_bsr_hash_mask st \<and> my_bsr_timeout st' = my_bsr_timeout st"
  by (cases st; cases st') (simp add: rest_def)

lemma retimes_refl [simp]: "retimes st st"
  by (simp add: retimes_def)

lemma retimes_rest: "rest st' = rest st \<Longrightarrow> retimes st st'"
  by (simp add: retimes_def)

lemma rest_timer: "rest st' = rest st \<Longrightarrow> rest (st'\<lparr>pim_bootstrap_timer := x\<rparr>) = rest (st\<lparr>pim_bootstrap_timer := x\<rparr>)"
  by (cases st; cases st') (simp add: rest_def)

lemma retimes_trans:
  assumes "retimes a b" "retimes b c"
  shows "retimes a c"
proof (cases "rest b = rest a")
  case True
  then show ?thesis using assms(2) rest_fields [OF True] rest_timer [OF True] by (auto simp: retimes_def)
next
  case False
  then have f: "cand_bsr_flag a" "curr_bsr_address a = my_bsr_address a" "rest b = rest (a\<lparr>pim_bootstrap_timer := pim_min_bootstrap_period\<rparr>)"
    using assms(1) by (auto simp: retimes_def)
  have "rest (b\<lparr>pim_bootstrap_timer := pim_min_bootstrap_period\<rparr>) = rest b" using f(3) by (cases a; cases b) (simp add: rest_def)
  then show ?thesis using assms(2) f by (auto simp: retimes_def)
qed

lemma retimes_timer: "retimes st (update_bootstrap_timer st)"
  by (simp add: update_bootstrap_timer_def retimes_def)

lemma rest_lists [simp]: "rest (put_lists seg l st) = rest st" "rest (put_range seg n m st) = rest st" "rest (release_rp seg a k st) = rest st"
  by (simp_all add: rest_def put_lists_def put_range_def release_rp_def Let_def)

lemma rest_remap [simp]: "rest (remap_grpentry g st) = rest st"
  by (simp add: rest_def remap_grpentry_def grp_chain_unlink_def grp_link_def Let_def split: option.split)

lemma rest_remaps [simp]: "rest (fold remap_grpentry gs st) = rest st"
  by (induction gs arbitrary: st) simp_all

lemma rest_fold: "(\<And>x s. rest (f x s) = rest s) \<Longrightarrow> rest (fold f xs st) = rest st"
  by (induction xs arbitrary: st) simp_all

lemma rest_delete_mask [simp]: "rest (delete_grp_mask_entry seg n st) = rest st"
proof -
  have "rest (s\<lparr>rs_set_entries := x\<rparr>) = rest s" for s x by (simp add: rest_def)
  then show ?thesis by (simp add: delete_grp_mask_entry_def Let_def rest_fold)
qed

lemma retimes_delete_entry: "retimes st (delete_rp_grp_entry seg n i st)"
proof -
  have "\<exists>s. delete_rp_grp_entry seg n i st = update_bootstrap_timer s \<and> rest s = rest st" by (auto simp: delete_rp_grp_entry_def Let_def)
  then show ?thesis using retimes_trans [OF retimes_rest retimes_timer] by metis
qed

lemma retimes_withdraw: "retimes st (bsr_withdraw seg k n i st)"
proof (induction k arbitrary: i st)
  case (Suc k)
  have s: "retimes st (put_lists seg l st)" for l by (rule retimes_rest) simp
  have "retimes st (bsr_withdraw seg k n j (put_lists seg l st))" for j l by (rule retimes_trans [OF s Suc])
  moreover have "retimes st (bsr_withdraw seg k n j (delete_rp_grp_entry seg n i (put_lists seg l st)))" for j l
    by (rule retimes_trans [OF s retimes_trans [OF retimes_delete_entry Suc]])
  ultimately show ?case using Suc by (simp add: Let_def)
qed simp

lemma retimes_delete_group: "retimes st (delete_grp_mask seg a k st)"
  by (auto simp: delete_grp_mask_def Let_def retimes_withdraw intro: retimes_rest split: option.split)

lemma rest_remap_of [simp]: "rest (remap_of P n i seg st) = rest st"
  by (simp add: remap_of_def)

lemma rest_first [simp]: "rest (first_rp seg n st) = rest st"
proof -
  have "rest (s\<lparr>rs_resync := x\<rparr>) = rest s" for s x by (simp add: rest_def)
  then show ?thesis by (simp add: first_rp_def remap_norp_def remap_covered_groups_def Let_def rest_fold)
qed

lemma rest_best [simp]: "rest (remap_best seg n p q st) = rest st"
  by (simp add: remap_best_def Let_def rest_fold)

lemma retimes_add: "retimes st (snd (add_rp_grp_entry_from seg b p t a k h tag origin st))"
proof -
  have e: "rest (s\<lparr>rs_set_entries := x\<rparr>) = rest s" for s x by (simp add: rest_def)
  have m: "rest s = rest st" if "add_grp_mask seg a k h st = Some (n, s)" for n s
    using that by (auto simp: add_grp_mask_def Let_def split_def e split: if_splits)
  have "retimes st (update_bootstrap_timer s)" if "rest s = rest st" for s using retimes_trans [OF retimes_rest [OF that] retimes_timer] .
  moreover have "retimes st (delete_grp_mask seg a k s)" if "rest s = rest st" for s using retimes_trans [OF retimes_rest [OF that] retimes_delete_group] .
  ultimately show ?thesis by (auto simp: add_rp_grp_entry_from_def Let_def split_def m intro: retimes_rest split: option.split)
qed

lemma retimes_sweep: "retimes st (sweep seg P f st)"
proof -
  have r: "retimes s (sweep_rps seg f k n i s)" for k n i s
  proof (induction k arbitrary: i s)
    case (Suc k)
    have "retimes s (put_lists seg l s)" for l by (rule retimes_rest) simp
    then show ?case using retimes_trans [OF _ Suc] retimes_trans [OF retimes_delete_entry Suc] by (simp split: option.split)
  qed simp
  have "retimes s (sweep_ranges seg P f k n s)" for k n s
    by (induction k arbitrary: n s) (auto simp: Let_def intro: retimes_trans [OF r])
  then show ?thesis by (simp add: sweep_def)
qed


lemma retimes_bsr:
  assumes "retimes st st'"
  shows "bsr_of st' = bsr_of st \<and> curr_bsr_fragment_tag st' = curr_bsr_fragment_tag st \<and> curr_bsr_hash_mask st' = curr_bsr_hash_mask st \<and>
    my_bsr_address st' = my_bsr_address st \<and> my_bsr_priority st' = my_bsr_priority st \<and> cand_bsr_flag st' = cand_bsr_flag st \<and>
    (curr_bsr_address st \<noteq> my_bsr_address st \<longrightarrow> pim_bootstrap_timer st' = pim_bootstrap_timer st)"
  using assms rest_fields [of st' st] rest_fields [of st' "st\<lparr>pim_bootstrap_timer := pim_min_bootstrap_period\<rparr>"]
  by (auto simp: retimes_def bsr_of_def)


section \<open>Hearing Bootstraps\<close>

lemma retimes_rprecs: "add_rprecs seg msg g k n i st = Some st' \<Longrightarrow> retimes st st'"
proof (induction n arbitrary: i st)
  case (Suc n)
  then show ?case by (auto simp: add_rp_grp_entry_def bind_eq_Some_conv intro: retimes_trans [OF retimes_add Suc.IH])
qed simp

lemma retimes_saved: "retimes st (add_saved g k es st)"
  unfolding add_saved_def
  by (induction es arbitrary: st) (auto simp: add_rp_grp_entry_def intro: retimes_trans [OF retimes_add])

lemma retimes_set: "bootstrap_set msg g st = Some st' \<Longrightarrow> retimes st st'"
proof -
  let ?g = "ega_mcast_addr (bg_grp g)" and ?k = "masklen_to_mask (unat (ega_masklen (bg_grp g)))"
  have "retimes st (delete_grp_mask True ?g ?k (add_saved ?g ?k es s))" if "add_rprecs False msg g ?k (unat (bg_frag_rp_count g)) 0 st = Some s" for es s
    by (rule retimes_trans [OF retimes_rprecs [OF that] retimes_trans [OF retimes_saved retimes_delete_group]])
  then show "bootstrap_set msg g st = Some st' \<Longrightarrow> retimes st st'"
    by (auto simp: bootstrap_set_def Let_def retimes_delete_group bind_eq_Some_conv dest: retimes_rprecs split: if_splits option.splits)
qed

lemma retimes_sets: "bootstrap_sets msg k p st = Some st' \<Longrightarrow> retimes st st'"
proof (induction k arbitrary: p st)
  case (Suc k)
  then show ?case by (auto simp: bind_eq_Some_conv intro: retimes_trans [OF retimes_set Suc.IH])
qed simp

lemma retimes_collect: "retimes st (bootstrap_collect st)"
  by (simp add: bootstrap_collect_def Let_def) (rule retimes_trans [OF retimes_sweep retimes_sweep])

lemma adopt_fields:
  "bsr_of (bootstrap_adopt bsr st) = (bsr_priority bsr, bsr_bsr bsr) \<and> curr_bsr_fragment_tag (bootstrap_adopt bsr st) = bsr_frag_tag bsr \<and>
   curr_bsr_hash_mask (bootstrap_adopt bsr st) = masklen_to_mask (unat (bsr_hash_masklen bsr)) \<and>
   my_bsr_address (bootstrap_adopt bsr st) = my_bsr_address st \<and> cand_bsr_flag (bootstrap_adopt bsr st) = cand_bsr_flag st \<and>
   pim_bootstrap_timer (bootstrap_adopt bsr st) = my_bsr_timeout st"
  by (simp add: bootstrap_adopt_def delete_rp_list_def put_lists_def bsr_of_def Let_def)

lemma receive_cases:
  assumes "receive_pim_bootstrap k uvifs src dst msg st = Some (b, st', acts)"
  obtains (refused) "\<not> b" "st' = st" "acts = []"
  | (accepted) bsr s q incoming where "b" "pim_parse_bsr msg = Some (PIM_BSR_OK, bsr)" "\<not> bsr_less_preferred st bsr"
      "local_address uvifs (bsr_bsr bsr) = no_vif" "bootstrap_sets msg (bsr_num_sets bsr) q (bootstrap_adopt bsr st) = Some s" "st' = bootstrap_collect s"
      "bootstrap_sender k uvifs src dst bsr st = Some incoming" "acts = bootstrap_forward uvifs incoming dst bsr msg"
proof -
  have "(\<not> b \<and> st' = st \<and> acts = []) \<or> (\<exists>bsr s q incoming. b \<and> pim_parse_bsr msg = Some (PIM_BSR_OK, bsr) \<and> \<not> bsr_less_preferred st bsr \<and>
      local_address uvifs (bsr_bsr bsr) = no_vif \<and> bootstrap_sets msg (bsr_num_sets bsr) q (bootstrap_adopt bsr st) = Some s \<and> st' = bootstrap_collect s \<and>
      bootstrap_sender k uvifs src dst bsr st = Some incoming \<and> acts = bootstrap_forward uvifs incoming dst bsr msg)"
  proof -
    obtain rc bsr where p: "pim_parse_bsr msg = Some (rc, bsr)" using parse_bsr_returns by blast
    show ?thesis using assms p by (cases rc) (auto simp: receive_pim_bootstrap_def Let_def bind_eq_Some_conv split: if_splits option.splits)
  qed
  then show ?thesis using refused accepted by blast
qed

lemma receive_elects:
  assumes "receive_pim_bootstrap k uvifs src dst msg st = Some (b, st', acts)"
  shows "\<not> b \<and> st' = st \<and> acts = [] \<or>
    (\<exists>bsr. b \<and> pim_parse_bsr msg = Some (PIM_BSR_OK, bsr) \<and> \<not> bsr_beats (bsr_of st) (bsr_priority bsr, bsr_bsr bsr) \<and>
       bsr_of st' = (bsr_priority bsr, bsr_bsr bsr) \<and> curr_bsr_fragment_tag st' = bsr_frag_tag bsr \<and>
       curr_bsr_hash_mask st' = masklen_to_mask (unat (bsr_hash_masklen bsr)) \<and> my_bsr_address st' = my_bsr_address st \<and>
       (bsr_bsr bsr \<noteq> my_bsr_address st \<longrightarrow> pim_bootstrap_timer st' = my_bsr_timeout st))"
  using assms
proof (cases rule: receive_cases)
  case refused
  then show ?thesis by simp
next
  case (accepted bsr s q incoming)
  have r: "retimes (bootstrap_adopt bsr st) st'" using retimes_trans [OF retimes_sets [OF accepted(5)] retimes_collect] accepted(6) by simp
  have a: "curr_bsr_address (bootstrap_adopt bsr st) = bsr_bsr bsr" using adopt_fields [of bsr st] by (simp add: bsr_of_def)
  show ?thesis using accepted(1-3) retimes_bsr [OF r] adopt_fields [of bsr st] a unfolding less_preferred_beats by simp
qed


definition bootstrap_good :: "(u32 \<Rightarrow> bool \<times> rpfctl) \<Rightarrow> uvif list \<Rightarrow> u32 \<times> bytes \<Rightarrow> pim_bsr \<Rightarrow> bool" where
  "bootstrap_good k_req_incoming uvifs heard bsr \<longleftrightarrow> inet_cksum (snd heard) = 0 \<and> find_vif_direct k_req_incoming uvifs (fst heard) \<noteq> no_vif \<and>
     pim_parse_bsr (snd heard) = Some (PIM_BSR_OK, bsr) \<and> local_address uvifs (bsr_bsr bsr) = no_vif \<and>
     bootstrap_sender k_req_incoming uvifs (fst heard) allpimrouters_group bsr rp_globals \<noteq> None"

fun hear :: "(u32 \<Rightarrow> bool \<times> rpfctl) \<Rightarrow> uvif list \<Rightarrow> (u32 \<times> bytes) list \<Rightarrow> rp_state \<Rightarrow> rp_state option" where
  "hear k_req_incoming uvifs [] st = Some st"
| "hear k_req_incoming uvifs (x # xs) st = do {
     (_, st, _) \<leftarrow> receive_pim_bootstrap k_req_incoming uvifs (fst x) allpimrouters_group (snd x) st;
     hear k_req_incoming uvifs xs st }"

lemma good_challenges:
  assumes "bootstrap_good k uvifs x bsr" "rp_state_ok st"
  shows "\<exists>b st' acts. receive_pim_bootstrap k uvifs (fst x) allpimrouters_group (snd x) st = Some (b, st', acts) \<and> rp_state_ok st' \<and>
    bsr_of st' = challenge bsr_beats (bsr_of st) (bsr_priority bsr, bsr_bsr bsr)"
proof -
  have "bootstrap_sender k uvifs (fst x) allpimrouters_group bsr st = bootstrap_sender k uvifs (fst x) allpimrouters_group bsr rp_globals"
    by (simp add: bootstrap_sender_def)
  then obtain incoming where i: "bootstrap_sender k uvifs (fst x) allpimrouters_group bsr st = Some incoming" using assms(1) by (auto simp: bootstrap_good_def)
  obtain b st' acts where r: "receive_pim_bootstrap k uvifs (fst x) allpimrouters_group (snd x) st = Some (b, st', acts)" "rp_state_ok st'"
    using rps.receive_pim_bootstrap_ok [OF assms(2), of k uvifs "fst x" allpimrouters_group "snd x"] by (auto simp: leaves_def split: option.splits)
  have "bsr_of st' = challenge bsr_beats (bsr_of st) (bsr_priority bsr, bsr_bsr bsr)"
  proof (cases "bsr_beats (bsr_of st) (bsr_priority bsr, bsr_bsr bsr)")
    case True
    then have "st' = st" using r(1) assms(1) by (simp add: receive_pim_bootstrap_def bootstrap_good_def less_preferred_beats Let_def)
    then show ?thesis using True by (simp add: challenge_def)
  next
    case False
    then have "b" using r(1) assms(1) i by (auto simp: receive_pim_bootstrap_def bootstrap_good_def less_preferred_beats Let_def bind_eq_Some_conv)
    then show ?thesis using receive_elects [OF r(1)] assms(1) False by (auto simp: challenge_def bootstrap_good_def)
  qed
  then show ?thesis using r by blast
qed

lemma hear_folds:
  "list_all2 (bootstrap_good k uvifs) heard bsrs \<Longrightarrow> rp_state_ok st \<Longrightarrow>
   \<exists>st'. hear k uvifs heard st = Some st' \<and> rp_state_ok st' \<and>
     bsr_of st' = foldl (challenge bsr_beats) (bsr_of st) (map (\<lambda>bsr. (bsr_priority bsr, bsr_bsr bsr)) bsrs)"
proof (induction heard bsrs arbitrary: st rule: list_all2_induct)
  case (Cons x xs bsr bsrs)
  obtain b s acts where "receive_pim_bootstrap k uvifs (fst x) allpimrouters_group (snd x) st = Some (b, s, acts)" "rp_state_ok s"
    "bsr_of s = challenge bsr_beats (bsr_of st) (bsr_priority bsr, bsr_bsr bsr)" using good_challenges [OF Cons(1) Cons.prems] by blast
  then show ?case using Cons(3) [of s] by simp
qed simp


section \<open>Taking over\<close>

lemma log_loop_le: "log_loop x m n \<le> n"
  by (induction x m n rule: log_loop.induct) auto

lemma log_loop_bound: "unat x < 2 ^ k \<Longrightarrow> n \<le> 31 \<Longrightarrow> log_loop x (push_bit n 1) n \<le> k - 1"
proof (induction n)
  case (Suc n)
  have b: "x AND push_bit (Suc n) 1 \<noteq> 0 \<longleftrightarrow> bit x (Suc n)"
    using bit_iff_and_push_bit_not_eq_0 [of x "Suc n"] by blast
  have s: "drop_bit 1 (push_bit (Suc n) (1 :: u32)) = push_bit n 1"
    using Suc.prems(2) by (intro bit_word_eqI) (auto simp: bit_simps)
  have k: "\<not> bit x (Suc n)" if "k \<le> Suc n"
  proof -
    have "unat x < 2 ^ Suc n" using Suc.prems(1) power_increasing [OF that, of "2 :: nat"] by linarith
    then have "unat x div 2 ^ Suc n = 0" by simp
    then have "\<not> bit (unat x) (Suc n)" by (simp only: bit_iff_odd) simp
    then show ?thesis by (simp add: bit_unsigned_iff)
  qed
  show ?case
  proof (cases "bit x (Suc n)")
    case True
    then have "Suc n \<le> k - 1" using k by linarith
    then show ?thesis using True b by (simp only: log_loop.simps if_True)
  next
    case False
    have "log_loop x (push_bit n 1) n \<le> k - 1" using Suc by simp
    then show ?thesis using False b s by (simp only: log_loop.simps if_False)
  qed
qed simp


lemma initial_delay_bounds: "5 \<le> unat (bootstrap_initial_delay st) \<and> unat (bootstrap_initial_delay st) \<le> 23"
proof -
  let ?best = "max (curr_bsr_priority st) (my_bsr_priority st)" and ?my = "my_bsr_priority st"
  define d :: u32 where "d = 1 + ucast ?best - ucast ?my"
  define a :: u32 where "a = (if ?best = ?my
    then of_nat (log_loop (ntohl (curr_bsr_address st) - ntohl (my_bsr_address st)) (push_bit 31 1) 31 div 16)
    else 2 - ntohl (my_bsr_address st) div push_bit 31 1)"
  define l where "l = log_loop d (push_bit 31 1) 31"
  have a: "unat a \<le> 2"
  proof (cases "?best = ?my")
    case True
    define n where "n = log_loop (ntohl (curr_bsr_address st) - ntohl (my_bsr_address st)) (push_bit 31 1) 31"
    have "n \<le> 31" unfolding n_def by (rule log_loop_le)
    then have "n div 16 \<le> 1" by linarith
    moreover have "a = of_nat (n div 16)" unfolding a_def n_def by (rule if_P [OF True])
    ultimately show ?thesis by (simp add: unat_of_nat)
  next
    case False
    have "unat (ntohl (my_bsr_address st) div push_bit 31 1) = unat (ntohl (my_bsr_address st)) div 2147483648" by (simp only: unat_div_distrib) simp
    also have "\<dots> \<le> 1" using unsigned_less [of "ntohl (my_bsr_address st)", where ?'a = nat] by simp
    finally have "unat (2 - ntohl (my_bsr_address st) div push_bit 31 1) \<le> 2" by (subst unat_sub) (simp_all add: word_le_nat_alt)
    then show ?thesis using False by (simp add: a_def)
  qed
  have m: "unat ?my \<le> unat ?best" "unat ?best < 256"
    using unsigned_less [of "?best", where ?'a = nat] by (simp_all add: max_def word_le_nat_alt)
  have "unat d < 2 ^ 9" using m unfolding d_def by (subst unat_sub) (simp_all add: word_le_nat_alt unat_word_ariths unsigned_ucast_eq take_bit_nat_eq_self)
  then have l: "l \<le> 8" using log_loop_bound [of d 9 31] by (simp add: l_def)
  have e: "bootstrap_initial_delay st = ucast (5 + 2 * of_nat l + a)" unfolding bootstrap_initial_delay_def Let_def d_def a_def l_def by (rule refl)
  have "unat (5 + 2 * of_nat l + a :: u32) = 5 + 2 * l + unat a" using a l by (simp add: unat_word_ariths unat_of_nat)
  then show ?thesis using a l by (simp add: e unsigned_ucast_eq take_bit_nat_eq_self)
qed


lemma retimes_my_cand_rp: "retimes st (add_my_cand_rp_loop l p k i st)"
  by (induction k arbitrary: i st) (auto simp: add_rp_grp_entry_def intro: retimes_trans [OF retimes_add] split: option.split)

lemma retimes_priorities: "cand_rp_priorities l buf mine ps st = Some (st', acts) \<Longrightarrow> retimes st st'"
proof (induction ps arbitrary: st acts)
  case (Cons p ps)
  have "retimes st (add_my_cand_rp l p (cand_rp_prefix_count l p) st)" by (simp add: add_my_cand_rp_def retimes_my_cand_rp)
  then show ?case using Cons by (auto simp: Let_def bind_eq_Some_conv intro: retimes_trans split: if_splits)
qed simp

text \<open>One turn of the clock at a router that is not the bootstrap router.\<close>

lemma age_waits:
  assumes ok: "rp_state_ok st" and buf: "send_buf_size \<le> length buf" and c: "cand_bsr_flag st" "curr_bsr_address st \<noteq> my_bsr_address st"
  shows "\<exists>st' acts. age_misc rnd l uvifs buf st = Some (st', acts) \<and> rp_state_ok st' \<and>
    my_bsr_address st' = my_bsr_address st \<and> my_bsr_priority st' = my_bsr_priority st \<and> cand_bsr_flag st' \<and>
    (if timer_tick (pim_bootstrap_timer st) \<noteq> 0
     then bsr_of st' = bsr_of st \<and> pim_bootstrap_timer st' = timer_tick (pim_bootstrap_timer st)
     else bsr_of st' = (my_bsr_priority st, my_bsr_address st) \<and> (\<exists>s. pim_bootstrap_timer st' = bootstrap_initial_delay s))"
proof -
  obtain st' acts where a: "age_misc rnd l uvifs buf st = Some (st', acts)" "rp_state_ok st'"
    using rps.age [OF buf ok, of rnd l uvifs] by (auto simp: rp_state_ok_def split: option.splits)
  let ?s1 = "sweep False (\<lambda>_. True) age_entry st"
  obtain s2 acts2 where s2: "(if cand_rp_flag ?s1 then
          let s = ?s1\<lparr>pim_cand_rp_adv_timer := timer_tick (pim_cand_rp_adv_timer ?s1)\<rparr> in
          if pim_cand_rp_adv_timer s = 0 then do {
            (_, s, acts) \<leftarrow> send_pim_cand_rp_adv l buf s;
            Some (s\<lparr>pim_cand_rp_adv_timer := my_cand_rp_adv_period s\<rparr>, acts) }
          else Some (s, [])
        else Some (?s1, [])) = Some (s2, acts2)"
    using a(1) unfolding age_misc_def by (auto simp: Let_def bind_eq_Some_conv)
  have t: "bsr_of (s\<lparr>pim_cand_rp_adv_timer := x\<rparr>) = bsr_of s" for s x by (simp add: bsr_of_def)
  have r: "bsr_of s2 = bsr_of ?s1 \<and> my_bsr_address s2 = my_bsr_address ?s1 \<and> my_bsr_priority s2 = my_bsr_priority ?s1 \<and>
      cand_bsr_flag s2 = cand_bsr_flag ?s1 \<and> (curr_bsr_address ?s1 \<noteq> my_bsr_address ?s1 \<longrightarrow> pim_bootstrap_timer s2 = pim_bootstrap_timer ?s1)"
    using s2 by (auto simp: Let_def t send_pim_cand_rp_adv_def bind_eq_Some_conv dest!: retimes_priorities retimes_bsr split: if_splits)
  have i: "bsr_of s2 = bsr_of st" "my_bsr_address s2 = my_bsr_address st" "my_bsr_priority s2 = my_bsr_priority st" "cand_bsr_flag s2"
      "pim_bootstrap_timer s2 = pim_bootstrap_timer st" "curr_bsr_address s2 \<noteq> my_bsr_address s2"
    using r retimes_bsr [OF retimes_sweep [of st False "\<lambda>_. True" age_entry]] c by (auto simp: bsr_of_def)
  have "age_misc rnd l uvifs buf st = (let s = s2\<lparr>pim_bootstrap_timer := timer_tick (pim_bootstrap_timer s2)\<rparr> in
      if pim_bootstrap_timer s \<noteq> 0 then Some (s, acts2)
      else Some (s\<lparr>pim_bootstrap_timer := bootstrap_initial_delay s, curr_bsr_fragment_tag := rnd, curr_bsr_priority := my_bsr_priority s,
        curr_bsr_address := my_bsr_address s, curr_bsr_hash_mask := my_bsr_hash_mask s\<rparr>, acts2))"
    using s2 i(4,6) unfolding age_misc_def Let_def [of ?s1] by (simp add: Let_def)
  then show ?thesis using a i by (auto simp: Let_def bsr_of_def split: if_splits)
qed


primrec age_turns :: "u16 \<Rightarrow> cand_rp_prefix list \<Rightarrow> uvif list \<Rightarrow> bytes \<Rightarrow> nat \<Rightarrow> rp_state \<Rightarrow> rp_state option" where
  "age_turns rnd l uvifs buf 0 st = Some st"
| "age_turns rnd l uvifs buf (Suc n) st = do { (st, _) \<leftarrow> age_misc rnd l uvifs buf st; age_turns rnd l uvifs buf n st }"

lemma age_turns_waits:
  assumes buf: "send_buf_size \<le> length buf"
  shows "rp_state_ok st \<Longrightarrow> cand_bsr_flag st \<Longrightarrow> curr_bsr_address st \<noteq> my_bsr_address st \<Longrightarrow> 5 * k < unat (pim_bootstrap_timer st) \<Longrightarrow>
    \<exists>st'. age_turns rnd l uvifs buf k st = Some st' \<and> rp_state_ok st' \<and> cand_bsr_flag st' \<and> bsr_of st' = bsr_of st \<and>
      my_bsr_address st' = my_bsr_address st \<and> my_bsr_priority st' = my_bsr_priority st \<and> unat (pim_bootstrap_timer st') = unat (pim_bootstrap_timer st) - 5 * k"
proof (induction k arbitrary: st)
  case (Suc k)
  have t: "unat (timer_tick (pim_bootstrap_timer st)) = unat (pim_bootstrap_timer st) - 5" by (rule tick_unat)
  then have "timer_tick (pim_bootstrap_timer st) \<noteq> 0" using Suc.prems(4) by auto
  then obtain s acts where a: "age_misc rnd l uvifs buf st = Some (s, acts)" and s: "rp_state_ok s" "my_bsr_address s = my_bsr_address st"
      "my_bsr_priority s = my_bsr_priority st" "cand_bsr_flag s" "bsr_of s = bsr_of st" "pim_bootstrap_timer s = timer_tick (pim_bootstrap_timer st)"
    using age_waits [OF Suc.prems(1) buf Suc.prems(2,3), of rnd l uvifs] by auto
  have "curr_bsr_address s \<noteq> my_bsr_address s" using s Suc.prems(3) by (simp add: bsr_of_def)
  from Suc.IH [OF s(1,4) this] show ?case using Suc.prems(4) a s t by auto
qed simp

lemma age_turns_add: "age_turns rnd l uvifs buf (m + n) st = do { st \<leftarrow> age_turns rnd l uvifs buf m st; age_turns rnd l uvifs buf n st }"
proof (induction m arbitrary: st)
  case (Suc m)
  then show ?case by (cases "age_misc rnd l uvifs buf st") auto
qed simp

lemma takes_over:
  assumes ok: "rp_state_ok st" and buf: "send_buf_size \<le> length buf" and c: "cand_bsr_flag st" "curr_bsr_address st \<noteq> my_bsr_address st"
  defines "n \<equiv> (unat (pim_bootstrap_timer st) - 1) div 5"
  shows "\<exists>st'. age_turns rnd l uvifs buf (Suc n) st = Some st' \<and> rp_state_ok st' \<and> bsr_of st' = (my_bsr_priority st, my_bsr_address st) \<and>
    5 \<le> unat (pim_bootstrap_timer st') \<and> unat (pim_bootstrap_timer st') \<le> 23"
proof -
  have "\<exists>s. age_turns rnd l uvifs buf n st = Some s \<and> rp_state_ok s \<and> cand_bsr_flag s \<and> bsr_of s = bsr_of st \<and>
      my_bsr_address s = my_bsr_address st \<and> my_bsr_priority s = my_bsr_priority st \<and> unat (pim_bootstrap_timer s) = unat (pim_bootstrap_timer st) - 5 * n"
  proof (cases "pim_bootstrap_timer st = 0")
    case False
    then have "0 < unat (pim_bootstrap_timer st)" by (simp add: unat_gt_0)
    moreover have "0 < t \<Longrightarrow> 5 * ((t - 1) div 5) < t" for t :: nat by linarith
    ultimately have "5 * n < unat (pim_bootstrap_timer st)" unfolding n_def by blast
    then show ?thesis using age_turns_waits [OF buf ok c] by blast
  qed (use ok c in \<open>simp add: n_def\<close>)
  then obtain s where s: "age_turns rnd l uvifs buf n st = Some s" "rp_state_ok s" "cand_bsr_flag s" "bsr_of s = bsr_of st"
      "my_bsr_address s = my_bsr_address st" "my_bsr_priority s = my_bsr_priority st" "unat (pim_bootstrap_timer s) = unat (pim_bootstrap_timer st) - 5 * n" by blast
  have "unat (timer_tick (pim_bootstrap_timer s)) = 0" unfolding tick_unat s(7) n_def by linarith
  then have z: "timer_tick (pim_bootstrap_timer s) = 0" by (simp add: unat_eq_0)
  have "curr_bsr_address s \<noteq> my_bsr_address s" using s(4,5) c(2) by (simp add: bsr_of_def)
  from age_waits [OF s(2) buf s(3) this, of rnd l uvifs] z obtain st' acts s0 where a: "age_misc rnd l uvifs buf s = Some (st', acts)" "rp_state_ok st'"
      "bsr_of st' = (my_bsr_priority s, my_bsr_address s)" "pim_bootstrap_timer st' = bootstrap_initial_delay s0" by auto
  have "age_turns rnd l uvifs buf (Suc n) st = Some st'" using age_turns_add [of rnd l uvifs buf n 1 st] s(1) a(1) by simp
  then show ?thesis using a s(5,6) initial_delay_bounds [of s0] by simp
qed



section \<open>The states of the RP set\<close>

text \<open>
  What can happen to the RP set: a Bootstrap or a Candidate-RP-Advertisement arrives from anyone and says anything,
  the clock turns, a candidacy is configured or withdrawn, an RP is configured, a group is mapped again.
\<close>

inductive rp_step :: "rp_state \<Rightarrow> rp_state \<Rightarrow> bool" where
  bootstrap: "receive_pim_bootstrap k uvifs src dst msg st = Some (b, st', acts) \<Longrightarrow> rp_step st st'"
| cand_rp_adv: "receive_pim_cand_rp_adv from_list group_list src msg st = Some (r, st') \<Longrightarrow> rp_step st st'"
| clock: "age_misc rnd l uvifs buf st = Some (st', acts) \<Longrightarrow> send_buf_size \<le> length buf \<Longrightarrow> rp_step st st'"
| cand_bsr: "rp_step st (cand_bsr_address_set rnd addr st)"
| cand_rp: "rp_step st (cand_rp_address_set addr st)"
| configured: "inet_valid_mask (ntohl m) \<Longrightarrow> rp_step st (snd (add_rp_grp_entry_from False rp priority holdtime addr m hash tag origin st))"
| remapped: "rp_step st (remap_grpentry g st)"

inductive_cases rp_stepE: "rp_step st st'"

context rp_invariant
begin

lemma step:
  assumes "rp_step st st'" "I st" and cands: "\<And>s. I s \<Longrightarrow> cand_ok s"
  shows "I st'"
  using assms(1,2)
proof (induction rule: rp_step.induct)
  case (bootstrap k uvifs src dst msg st b st' acts)
  then show ?case using receive_pim_bootstrap_ok [of st k uvifs src dst msg] by (simp add: leaves_def)
next
  case (cand_rp_adv from_list group_list src msg st r st')
  then show ?case using receive_pim_cand_rp_adv_ok [of st from_list group_list src msg] by auto
next
  case (clock rnd l uvifs buf st st' acts)
  then show ?case using age [of buf st rnd l uvifs] cands by auto
next
  case (cand_bsr st rnd addr)
  then show ?case using frame [of "cand_bsr_address_set rnd addr st" st]
    by (simp add: cand_bsr_address_set_def cand_bsr_stop_def no_bsr_def cand_bsr_start_def Let_def)
next
  case (cand_rp st addr)
  then show ?case using frame [of "cand_rp_address_set addr st" st] by (simp add: cand_rp_address_set_def)
next
  case (configured m st rp priority holdtime addr hash tag origin)
  then show ?case using add by blast
next
  case (remapped st g)
  then show ?case by (rule remap)
qed

end

lemma rp_step_ok: "rp_step st st' \<Longrightarrow> rp_state_ok st \<Longrightarrow> rp_state_ok st'"
  by (rule rps.step) (simp_all add: rp_state_ok_def)

lemma rp_globals_ok: "rp_state_ok rp_globals"
  by code_simp


section \<open>Properties\<close>

text \<open>
  C5: From the empty RP set the daemon starts with, no sequence of Bootstraps, Candidate-RP-Advertisements, turns of the clock, changes
  of the configuration and remapped groups leads to an RP set that is not in order: ranges and RPs sorted and counted, within the
  limit, every group on the entry the match gives for it, and the list of candidate RPs with their chains in agreement with the
  ranges.  And in every such state every handler returns, whatever the message says: nothing is read or written out of
  bounds, and no entry has an RP that is not on the list.
\<close>
theorem rp_set_always_in_order:
  assumes "rp_step\<^sup>*\<^sup>* rp_globals st"
  shows "rp_state_ok st \<and> receive_pim_bootstrap k uvifs src dst msg st \<noteq> None \<and> receive_pim_cand_rp_adv from_list group_list src msg st \<noteq> None \<and>
    (send_buf_size \<le> length buf \<longrightarrow> age_misc rnd l uvifs buf st \<noteq> None)"
proof -
  have ok: "rp_state_ok st" using assms by (induction rule: rtranclp_induct) (simp_all add: rp_globals_ok rp_step_ok)
  have "receive_pim_bootstrap k uvifs src dst msg st \<noteq> None"
    using rps.receive_pim_bootstrap_ok [OF ok, of k uvifs src dst msg] by (auto simp: leaves_def split: option.splits)
  moreover have "receive_pim_cand_rp_adv from_list group_list src msg st \<noteq> None"
    using rps.receive_pim_cand_rp_adv_ok [OF ok, of from_list group_list src msg] by auto
  moreover have "age_misc rnd l uvifs buf st \<noteq> None" if "send_buf_size \<le> length buf"
    using rps.age [OF that ok, of rnd l uvifs] by (auto simp: rp_state_ok_def split: option.splits)
  ultimately show ?thesis using ok by blast
qed

theorem rp_set_always_in_order_witness:
  "rp_state_ok (static_rp 0xe0 0xf0 rp_globals) \<and> receive_pim_bootstrap (\<lambda>a. (False, \<lparr>rpf_source = a, rpf_rpfneighbor = 0, rpf_iif = 0\<rparr>)) [] 1 2 [0x24, 0] (static_rp 0xe0 0xf0 rp_globals) \<noteq> None"
proof -
  have "inet_valid_mask (ntohl 0xf0)" by code_simp
  then have "rp_step rp_globals (static_rp 0xe0 0xf0 rp_globals)" unfolding static_rp_def by (rule rp_step.configured)
  then have "rp_step\<^sup>*\<^sup>* rp_globals (static_rp 0xe0 0xf0 rp_globals)" by (rule r_into_rtranclp)
  then show ?thesis using rp_set_always_in_order by blast
qed

text \<open>
  C6: Routers agree on the bootstrap router.  Whatever well-formed Bootstraps of reachable routers are heard, in whatever
  order, the router holds the best of them and the one it had before: the one of the highest priority, and of the
  highest address among those.  So two routers that started alike and heard the same Bootstraps follow the same one.
\<close>
theorem bsr_election_agrees:
  assumes "list_all2 (bootstrap_good k_req_incoming uvifs) heard bsrs" "rp_state_ok st"
  shows "\<exists>st'. hear k_req_incoming uvifs heard st = Some st' \<and> rp_state_ok st' \<and>
    is_best bsr_beats (insert (bsr_of st) (set (map (\<lambda>bsr. (bsr_priority bsr, bsr_bsr bsr)) bsrs))) (bsr_of st')"
proof -
  obtain st' where "hear k_req_incoming uvifs heard st = Some st'" "rp_state_ok st'"
    "bsr_of st' = foldl (challenge bsr_beats) (bsr_of st) (map (\<lambda>bsr. (bsr_priority bsr, bsr_bsr bsr)) bsrs)" using hear_folds [OF assms] by blast
  moreover have "is_best bsr_beats ({bsr_of st} \<union> set (map (\<lambda>bsr. (bsr_priority bsr, bsr_bsr bsr)) bsrs))
      (foldl (challenge bsr_beats) (bsr_of st) (map (\<lambda>bsr. (bsr_priority bsr, bsr_bsr bsr)) bsrs))" by (rule be.best_fold) simp
  ultimately show ?thesis by simp
qed

definition example_route :: "u32 \<Rightarrow> bool \<times> rpfctl" where
  "example_route a = (True, \<lparr>rpf_source = a, rpf_rpfneighbor = 0x0200000a, rpf_iif = 0\<rparr>)"

definition example_bootstrap :: bytes where
  "example_bootstrap = [0x24, 0, 0xb2, 0xea, 0, 7, 30, 5, 1, 0, 10, 0, 0, 9]"

lemma example_bootstrap_good:
  "bootstrap_good example_route [example_vif 0 0x0100000a 1 [example_nbr 0x0200000a True 1] None] (0x0200000a, example_bootstrap)
     (bsr_zero\<lparr>bsr_frag_tag := 7, bsr_hash_masklen := 30, bsr_priority := 5, bsr_bsr := 0x0900000a, bsr_sets := Some 14\<rparr>)"
  by code_simp

theorem bsr_election_agrees_witness:
  "\<exists>st'. hear example_route [example_vif 0 0x0100000a 1 [example_nbr 0x0200000a True 1] None] [(0x0200000a, example_bootstrap)] rp_globals = Some st' \<and>
    rp_state_ok st' \<and> is_best bsr_beats {(0, 0), (5, 0x0900000a)} (bsr_of st')"
proof -
  let ?vs = "[example_vif 0 0x0100000a 1 [example_nbr 0x0200000a True 1] None]"
  let ?b = "bsr_zero\<lparr>bsr_frag_tag := 7, bsr_hash_masklen := 30, bsr_priority := 5, bsr_bsr := 0x0900000a, bsr_sets := Some 14\<rparr>"
  have "list_all2 (bootstrap_good example_route ?vs) [(0x0200000a, example_bootstrap)] [?b]" using example_bootstrap_good by simp
  from bsr_election_agrees [OF this rp_globals_ok] show ?thesis by (simp add: bsr_of_def rp_globals_def insert_commute)
qed

text \<open>
  C8: A candidate that hears no Bootstrap becomes the bootstrap router when its timer has run out, after exactly as many turns of the
  clock as that takes, and not before; its first Bootstrap is then due in 5 to 23 seconds.
\<close>
theorem candidate_takes_over:
  assumes "rp_state_ok st" "send_buf_size \<le> length buf" "cand_bsr_flag st" "curr_bsr_address st \<noteq> my_bsr_address st"
  shows "(\<exists>st'. age_turns rnd l uvifs buf (Suc ((unat (pim_bootstrap_timer st) - 1) div 5)) st = Some st' \<and> rp_state_ok st' \<and>
      bsr_of st' = (my_bsr_priority st, my_bsr_address st) \<and> 5 \<le> unat (pim_bootstrap_timer st') \<and> unat (pim_bootstrap_timer st') \<le> 23) \<and>
    (5 * k < unat (pim_bootstrap_timer st) \<longrightarrow> (\<exists>st'. age_turns rnd l uvifs buf k st = Some st' \<and> bsr_of st' = bsr_of st))"
  using takes_over [OF assms] age_turns_waits [OF assms(2,1,3,4)] by blast

definition waiting :: rp_state where
  "waiting = two_rps\<lparr>cand_bsr_flag := True, my_bsr_address := 0x0100000a, my_bsr_priority := 3, curr_bsr_address := 0x0900000a,
     curr_bsr_priority := 5, pim_bootstrap_timer := 130\<rparr>"

lemma two_rps_state_ok: "rp_state_ok two_rps"
  by code_simp

theorem candidate_takes_over_witness:
  "\<exists>st'. age_turns 1 [] [] (replicate send_buf_size 0) 26 waiting = Some st' \<and> bsr_of st' = (3, 0x0100000a)"
proof -
  have "rp_state_ok waiting" using two_rps_state_ok rp_state_frame [of waiting two_rps] by (simp add: waiting_def)
  moreover have "Suc ((unat (pim_bootstrap_timer waiting) - 1) div 5) = 26" "cand_bsr_flag waiting" "curr_bsr_address waiting \<noteq> my_bsr_address waiting"
    "my_bsr_priority waiting = 3" "my_bsr_address waiting = 0x0100000a" by (simp_all add: waiting_def)
  ultimately show ?thesis using candidate_takes_over [of waiting "replicate send_buf_size 0" 1 "[]" "[]"] by fastforce
qed

text \<open>
  C7: The Bootstrap a router sends is within its buffer, and reads back as what the router has: its bootstrap router, the hash mask and
  the priority, with a fragment tag that is new when the router is the bootstrap router itself, and in order the ranges
  outside the SSM ranges that fit, each whole, with all its RPs, their priorities and holdtimes.
\<close>
theorem bootstrap_sent_reads_back:
  assumes "rp_state_ok st" "curr_bsr_address st \<noteq> 0" "34 \<le> buflen" "buflen \<le> length buf" "length hdr = 4"
  shows "\<exists>body. create_pim_bootstrap_message buf buflen st = Some (length body, body, st\<lparr>curr_bsr_fragment_tag := bootstrap_tag st\<rparr>) \<and>
    length body \<le> buflen - 24 \<and>
    (\<exists>bsr gs. pim_parse_bsr (hdr @ body) = Some (PIM_BSR_OK, bsr) \<and> bsr_frag_tag bsr = bootstrap_tag st \<and>
       unat (bsr_hash_masklen bsr) = mask_to_masklen (curr_bsr_hash_mask st) \<and> bsr_priority bsr = curr_bsr_priority st \<and>
       bsr_bsr bsr = curr_bsr_address st \<and> bsr_sets bsr = Some 14 \<and>
       bsr_groups_at (hdr @ body) 14 (bsr_num_sets bsr) = Some gs \<and>
       list_all2 (bsr_set_read (hdr @ body)) (adverts st (buflen - 34) (ranges st)) gs)"
proof -
  have ok: "cand_ok st" "ranges_ok (ranges st)" using assms(1) by (simp_all add: rp_state_ok_def rp_set_ok_def)
  show ?thesis using create_bootstrap [OF ok assms(2-4)] bootstrap_bytes_parse [OF ok assms(5), of "buflen - 34"]
    by (intro exI [of _ "bootstrap_bytes st (buflen - 34)"]) auto
qed

theorem bootstrap_sent_reads_back_witness:
  "\<exists>body. create_pim_bootstrap_message (replicate 100 0) 100 waiting = Some (length body, body, waiting\<lparr>curr_bsr_fragment_tag := bootstrap_tag waiting\<rparr>) \<and>
    (\<exists>bsr. pim_parse_bsr ([0x24, 0, 0, 0] @ body) = Some (PIM_BSR_OK, bsr) \<and> bsr_bsr bsr = 0x0900000a)"
proof -
  have ok: "rp_state_ok waiting" using two_rps_state_ok rp_state_frame [of waiting two_rps] by (simp add: waiting_def)
  have a: "curr_bsr_address waiting \<noteq> 0" "curr_bsr_address waiting = 0x0900000a" by (simp_all add: waiting_def)
  from bootstrap_sent_reads_back [OF ok a(1), of 100 "replicate 100 0" "[0x24, 0, 0, 0]"] a(2) show ?thesis by fastforce
qed

end
