(* ===== verification/Autorp.thy ===== *)
theory Autorp
  imports Autorp_Parse Pim_Encode Bsr
begin

text \<open>
  Auto-RP, \<^verbatim>\<open>src/autorp.c\<close>: the mappings a router hears and puts in its RP set, the announcements a mapping agent
  caches and resolves, the two messages the router sends, the relay of the listener, and the settings of
  \<^verbatim>\<open>pimd.conf\<close>.

  The list \<open>autorp_maps\<close> is the field \<open>rs_autorp\<close> of the state of the RP set, whose \<open>rp_grp_match\<close> reads it; the other
  globals are here.  A socket is whether it is open.  What \<open>calloc\<close>, \<open>setsockopt\<close> and \<open>socket\<close> answer are parameters,
  and so are the bytes that lie in an automatic array before it is written.  \<open>None\<close> stands for a read or a write
  outside a buffer.  The flags that let a warning be logged once are not modelled.
\<close>


section \<open>The state\<close>

record autorp_prefix =
  px_group_addr :: u32
  px_group_mask :: u32
  px_masklen :: u8
  px_negative :: bool

record autorp_state =
  ar_rp :: rp_state
  autorp_announced :: "autorp_map list"
  autorp_entries :: u32
  autorp_limit :: u32
  autorp_announce_flag :: bool
  autorp_announce_addr :: u32
  autorp_announce_interval :: u16
  autorp_announce_holdtime :: u16
  autorp_announce_ttl :: u8
  autorp_announce_timer :: u16
  autorp_inited :: bool
  autorp_prefix_list :: "autorp_prefix list"
  autorp_agent_flag :: bool
  autorp_agent_addr :: u32
  autorp_agent_interval :: u16
  autorp_agent_holdtime :: u16
  autorp_agent_ttl :: u8
  autorp_agent_timer :: u16
  autorp_agent_better :: u32
  autorp_agent_better_timer :: u16
  autorp_socket :: bool
  autorp_enabled :: bool
  autorp_listener_flag :: bool
  autorp_relay_socket :: bool
  autorp_relay_id :: u16
  autorp_acl_list :: "prefix_acl list"

abbreviation autorp_maps :: "autorp_state \<Rightarrow> autorp_map list" where
  "autorp_maps st \<equiv> rs_autorp (ar_rp st)"

definition pim_autorp_limit :: u32 where
  "pim_autorp_limit = 1024"

definition autorp_default_interval :: u16 where
  "autorp_default_interval = 60"

definition autorp_default_holdtime :: u16 where
  "autorp_default_holdtime = 3 * autorp_default_interval"

definition autorp_default_scope :: u8 where
  "autorp_default_scope = 15"

definition autorp_holdtime_forever :: u16 where
  "autorp_holdtime_forever = 0"

definition autorp_msg_max :: nat where
  "autorp_msg_max = 1024"

definition autorp_announce_group :: u32 where
  "autorp_announce_group = 0xe0000127"

definition autorp_discovery_group :: u32 where
  "autorp_discovery_group = 0xe0000128"

definition autorp_globals :: autorp_state where
  "autorp_globals = \<lparr>ar_rp = rp_globals, autorp_announced = [], autorp_entries = 0, autorp_limit = pim_autorp_limit,
     autorp_announce_flag = False, autorp_announce_addr = 0, autorp_announce_interval = autorp_default_interval,
     autorp_announce_holdtime = autorp_default_holdtime, autorp_announce_ttl = autorp_default_scope,
     autorp_announce_timer = 0, autorp_inited = False, autorp_prefix_list = [], autorp_agent_flag = False,
     autorp_agent_addr = 0, autorp_agent_interval = autorp_default_interval, autorp_agent_holdtime = autorp_default_holdtime,
     autorp_agent_ttl = autorp_default_scope, autorp_agent_timer = 0, autorp_agent_better = 0,
     autorp_agent_better_timer = 0, autorp_socket = False, autorp_enabled = True, autorp_listener_flag = False,
     autorp_relay_socket = False, autorp_relay_id = 0, autorp_acl_list = []\<rparr>"


section \<open>The lists of mappings\<close>

text \<open>A list is kept with the count of all mappings, which is shared between the two lists.\<close>

fun autorp_list_clear :: "u32 \<Rightarrow> autorp_map list \<Rightarrow> u32 \<times> autorp_map list" where
  "autorp_list_clear entries [] = (entries, [])"
| "autorp_list_clear entries (m # ms) = autorp_list_clear (if entries > 0 then entries - 1 else entries) ms"

definition autorp_maps_clear :: "autorp_state \<Rightarrow> autorp_state" where
  "autorp_maps_clear st =
     (let (entries, maps) = autorp_list_clear (autorp_entries st) (autorp_maps st);
          (_, announced) = autorp_list_clear entries (autorp_announced st)
      in st\<lparr>ar_rp := (ar_rp st)\<lparr>rs_autorp := maps\<rparr>, autorp_announced := announced, autorp_entries := 0\<rparr>)"

definition map_key :: "autorp_map \<Rightarrow> u32 \<times> u32 \<times> u32" where
  "map_key m = (am_rp_addr m, am_group_addr m, am_group_mask m)"

fun map_place :: "u32 \<times> u32 \<times> u32 \<Rightarrow> autorp_map list \<Rightarrow> nat option" where
  "map_place key [] = None"
| "map_place key (m # ms) = (if map_key m = key then Some 0 else map_option Suc (map_place key ms))"

text \<open>The place of the mapping in the list, and the list with its count.\<close>

definition autorp_map_get ::
    "bool \<Rightarrow> u32 \<Rightarrow> u32 \<Rightarrow> u32 \<Rightarrow> u32 \<Rightarrow> u8 \<Rightarrow> u32 \<times> autorp_map list \<Rightarrow> (nat \<times> u32 \<times> autorp_map list) option" where
  "autorp_map_get mem limit rp_addr group_addr group_mask masklen = (\<lambda>(entries, head).
     case map_place (rp_addr, group_addr, group_mask) head of
       Some i \<Rightarrow> Some (i, entries, head)
     | None \<Rightarrow>
         if entries \<ge> limit then None
         else if \<not> mem then None
         else Some (0, entries + 1,
           \<lparr>am_rp_addr = rp_addr, am_group_addr = group_addr, am_group_mask = group_mask, am_masklen = masklen,
            am_negative = False, am_holdtime = 0, am_origin = 0\<rparr> # head))"

definition map_fill :: "bool \<Rightarrow> u16 \<Rightarrow> u32 \<Rightarrow> autorp_map \<Rightarrow> autorp_map" where
  "map_fill negative holdtime from_addr m = m\<lparr>am_negative := negative, am_holdtime := holdtime, am_origin := from_addr\<rparr>"

definition autorp_apply :: "u32 \<Rightarrow> u16 \<Rightarrow> u32 \<Rightarrow> u32 \<Rightarrow> rp_state \<Rightarrow> rp_state" where
  "autorp_apply rp_addr holdtime group_addr group_mask rp =
     (let holdtime = (if holdtime = pim_hello_holdtime_forever then pim_hello_holdtime_forever - 1
                      else if holdtime = autorp_holdtime_forever then pim_hello_holdtime_forever
                      else holdtime)
      in snd (add_rp_grp_entry_from False rp_addr 1 holdtime group_addr group_mask (curr_bsr_hash_mask rp)
                (curr_bsr_fragment_tag rp) rp_origin_autorp rp))"

definition autorp_learn ::
    "bool \<Rightarrow> u32 \<Rightarrow> u32 \<Rightarrow> u16 \<Rightarrow> u32 \<Rightarrow> u8 \<Rightarrow> bool \<Rightarrow> autorp_state \<Rightarrow> autorp_state" where
  "autorp_learn mem from_addr rp_addr holdtime group_addr masklen negative st =
     (if masklen > 32 then st
      else
        let group_mask = masklen_to_mask (unat masklen); group_addr = group_addr AND group_mask in
        if \<not> in_classd (ntohl group_addr) then st
        else
          case autorp_map_get mem (autorp_limit st) (if negative then 0 else rp_addr) group_addr group_mask masklen
                 (autorp_entries st, autorp_maps st) of
            None \<Rightarrow> st
          | Some (i, entries, maps) \<Rightarrow>
              let rp = (ar_rp st)\<lparr>rs_autorp := maps[i := map_fill negative holdtime from_addr (maps ! i)]\<rparr>
              in st\<lparr>autorp_entries := entries,
                    ar_rp := (if negative then rp else autorp_apply rp_addr holdtime group_addr group_mask rp)\<rparr>)"

definition autorp_announced_learn ::
    "bool \<Rightarrow> u32 \<Rightarrow> u32 \<Rightarrow> u16 \<Rightarrow> u32 \<Rightarrow> u8 \<Rightarrow> bool \<Rightarrow> autorp_state \<Rightarrow> autorp_state" where
  "autorp_announced_learn mem from_addr rp_addr holdtime group_addr masklen negative st =
     (if masklen > 32 then st
      else
        let group_mask = masklen_to_mask (unat masklen); group_addr = group_addr AND group_mask in
        if \<not> in_classd (ntohl group_addr) then st
        else
          case autorp_map_get mem (autorp_limit st) rp_addr group_addr group_mask masklen
                 (autorp_entries st, autorp_announced st) of
            None \<Rightarrow> st
          | Some (i, entries, announced) \<Rightarrow>
              st\<lparr>autorp_entries := entries,
                 autorp_announced := announced[i := map_fill negative holdtime from_addr (announced ! i)]\<rparr>)"


section \<open>A message\<close>

definition autorp_version :: nat where
  "autorp_version = 1"

definition autorp_type_announce :: nat where
  "autorp_type_announce = 1"

definition autorp_type_mapping :: nat where
  "autorp_type_mapping = 2"

definition autorp_prefix_heard :: "bool \<Rightarrow> u32 \<Rightarrow> autorp_hdr \<Rightarrow> autorp_wire_prefix \<Rightarrow> autorp_state \<Rightarrow> autorp_state" where
  "autorp_prefix_heard mem from_addr hdr pfx st =
     (if \<not> inet_valid_host (ap_rp_addr pfx) then st
      else if ah_type hdr = autorp_type_announce
      then autorp_announced_learn mem from_addr (ap_rp_addr pfx) (ah_holdtime hdr) (ap_group_addr pfx) (ap_masklen pfx)
             (ap_negative pfx \<noteq> 0) st
      else autorp_learn mem from_addr (ap_rp_addr pfx) (ah_holdtime hdr) (ap_group_addr pfx) (ap_masklen pfx)
             (ap_negative pfx \<noteq> 0) st)"

text \<open>
  The loop over the prefixes of the message: \<open>n\<close> bounds the turns, and \<open>mem n\<close> is what \<open>calloc\<close> answers in the turn
  that has \<open>n\<close> turns behind it.
\<close>

fun accept_loop ::
    "nat \<Rightarrow> (nat \<Rightarrow> bool) \<Rightarrow> u32 \<Rightarrow> autorp_hdr \<Rightarrow> bytes \<Rightarrow> autorp_cursor \<Rightarrow> autorp_wire_prefix \<Rightarrow> autorp_state \<Rightarrow>
     autorp_state option" where
  "accept_loop 0 mem from_addr hdr buf c pfx st = None"
| "accept_loop (Suc n) mem from_addr hdr buf c pfx st = do {
     (rc, c, pfx) \<leftarrow> autorp_parse_next buf c pfx;
     (if rc = AUTORP_PARSE_PREFIX
      then accept_loop n mem from_addr hdr buf c pfx (autorp_prefix_heard (mem n) from_addr hdr pfx st)
      else Some st) }"

definition agent_heard :: "u32 \<Rightarrow> autorp_hdr \<Rightarrow> autorp_state \<Rightarrow> autorp_state" where
  "agent_heard from_addr hdr st =
     (if ah_type hdr = autorp_type_mapping \<and> autorp_agent_flag st \<and> from_addr \<noteq> autorp_agent_addr st \<and>
         ntohl from_addr > ntohl (autorp_agent_addr st)
      then st\<lparr>autorp_agent_better := from_addr, autorp_agent_better_timer := 3 * autorp_agent_interval st\<rparr> else st)"

definition no_prefix :: autorp_wire_prefix where
  "no_prefix = \<lparr>ap_rp_addr = 0, ap_group_addr = 0, ap_masklen = 0, ap_negative = 0\<rparr>"

definition accept_autorp :: "(nat \<Rightarrow> bool) \<Rightarrow> u32 \<Rightarrow> bytes \<Rightarrow> autorp_state \<Rightarrow> autorp_state option" where
  "accept_autorp mem from_addr buf st =
     (if \<not> autorp_enabled st then Some st
      else if \<not> autorp_accepted_from (autorp_acl_list st) from_addr then Some st
      else do {
        r \<leftarrow> autorp_parse_hdr buf;
        (case r of
           Inl _ \<Rightarrow> Some st
         | Inr (c, hdr) \<Rightarrow>
             if ah_version hdr \<noteq> autorp_version then Some st
             else if ah_type hdr = autorp_type_announce \<and> \<not> autorp_agent_flag st then Some st
             else if ah_type hdr \<noteq> autorp_type_mapping \<and> ah_type hdr \<noteq> autorp_type_announce then Some st
             else accept_loop (length buf) mem from_addr hdr buf c no_prefix (agent_heard from_addr hdr st)) })"


section \<open>Sending\<close>

datatype autorp_act = AUTORP_SEND nat u32 u8 bytes | AUTORP_RELAY nat bytes | AUTORP_JOIN nat u32

text \<open>\<open>sel vifi\<close> says whether the socket takes the interface as the one to send from.\<close>

definition in_service :: "uvif list \<Rightarrow> nat list" where
  "in_service uvifs = filter (\<lambda>vifi. \<not> out_of_service (uvifs ! vifi)) [0..<length uvifs]"

definition autorp_send :: "(nat \<Rightarrow> bool) \<Rightarrow> uvif list \<Rightarrow> u32 \<Rightarrow> u8 \<Rightarrow> bytes \<Rightarrow> autorp_state \<Rightarrow> autorp_act list" where
  "autorp_send sel uvifs grp ttl msg st =
     (if \<not> autorp_socket st then []
      else map (\<lambda>vifi. AUTORP_SEND vifi (htonl grp) ttl msg) (filter sel (in_service uvifs)))"

fun announce_prefixes :: "autorp_prefix list \<Rightarrow> pim_writer \<Rightarrow> pim_writer option" where
  "announce_prefixes [] w = Some w"
| "announce_prefixes (pfx # l) w = do {
     (_, w) \<leftarrow> autorp_encode_grp w (px_group_addr pfx) (px_masklen pfx) (px_negative pfx);
     announce_prefixes l w }"

definition autorp_send_announce ::
    "(nat \<Rightarrow> bool) \<Rightarrow> (nat \<Rightarrow> bool) \<Rightarrow> uvif list \<Rightarrow> bytes \<Rightarrow> autorp_state \<Rightarrow> (autorp_state \<times> autorp_act list) option" where
  "autorp_send_announce mem sel uvifs msg st =
     (let count = length (autorp_prefix_list st) in
      if count = 0 then Some (st, [])
      else if autorp_hdr_len + autorp_rp_len + count * autorp_grp_len > autorp_msg_max then Some (st, [])
      else do {
        (_, w) \<leftarrow> autorp_encode_hdr (pim_writer_init msg 0 autorp_msg_max) (of_nat autorp_type_announce) 1
                    (autorp_announce_holdtime st);
        (_, w) \<leftarrow> autorp_encode_rp w (autorp_announce_addr st) (of_nat count);
        w \<leftarrow> announce_prefixes (autorp_prefix_list st) w;
        (if w_full w then Some (st, [])
         else
           let acts = autorp_send sel uvifs autorp_announce_group (autorp_announce_ttl st) (written 0 w) st in
           if autorp_agent_flag st then do {
             st \<leftarrow> accept_autorp mem (autorp_announce_addr st) (written 0 w) st;
             Some (st, acts) }
           else Some (st, acts)) })"

text \<open>The rules of an agent, asked of the announcement at place \<open>i\<close>.\<close>

definition yields_to :: "autorp_map \<Rightarrow> autorp_map \<Rightarrow> bool" where
  "yields_to m other \<longleftrightarrow>
     am_rp_addr other = am_rp_addr m \<and> am_negative other = am_negative m \<and> am_masklen other < am_masklen m \<and>
       am_group_addr m AND am_group_mask other = am_group_addr other \<or>
     am_group_addr other = am_group_addr m \<and> am_masklen other = am_masklen m \<and>
       (am_negative other \<and> \<not> am_negative m \<or>
        am_negative other = am_negative m \<and> ntohl (am_rp_addr other) > ntohl (am_rp_addr m))"

definition autorp_resolved :: "autorp_map list \<Rightarrow> nat \<Rightarrow> bool" where
  "autorp_resolved ms i = list_all (\<lambda>j. j = i \<or> \<not> yields_to (ms ! i) (ms ! j)) [0..<length ms]"

definition mapped_by :: "autorp_map list \<Rightarrow> u32 \<Rightarrow> nat list" where
  "mapped_by ms rp_addr = filter (\<lambda>i. am_rp_addr (ms ! i) = rp_addr \<and> autorp_resolved ms i) [0..<length ms]"

fun mapping_prefixes :: "autorp_map list \<Rightarrow> pim_writer \<Rightarrow> pim_writer option" where
  "mapping_prefixes [] w = Some w"
| "mapping_prefixes (m # l) w = do {
     (_, w) \<leftarrow> autorp_encode_grp w (am_group_addr m) (am_masklen m) (am_negative m);
     mapping_prefixes l w }"

text \<open>The pass over the RPs, from the announcement at \<open>i\<close> on, with the number of blocks written.\<close>

fun mapping_blocks :: "autorp_map list \<Rightarrow> nat \<Rightarrow> nat \<Rightarrow> pim_writer \<Rightarrow> nat \<Rightarrow> (nat \<times> pim_writer) option" where
  "mapping_blocks ms 0 i w rpcnt = Some (rpcnt, w)"
| "mapping_blocks ms (Suc k) i w rpcnt =
     (let rp_addr = am_rp_addr (ms ! i); grps = mapped_by ms rp_addr; grpcnt = length grps in
      if list_ex (\<lambda>m. am_rp_addr m = rp_addr) (take i ms) then mapping_blocks ms k (Suc i) w rpcnt
      else if grpcnt = 0 then mapping_blocks ms k (Suc i) w rpcnt
      else if \<not> pim_writer_room w (autorp_rp_len + grpcnt * autorp_grp_len) then Some (rpcnt, w)
      else do {
        (_, w) \<leftarrow> autorp_encode_rp w rp_addr (of_nat grpcnt);
        w \<leftarrow> mapping_prefixes (map ((!) ms) grps) w;
        mapping_blocks ms k (Suc i) w (Suc rpcnt) })"

definition autorp_send_mapping ::
    "(nat \<Rightarrow> bool) \<Rightarrow> uvif list \<Rightarrow> bytes \<Rightarrow> autorp_state \<Rightarrow> autorp_act list option" where
  "autorp_send_mapping sel uvifs msg st =
     (if autorp_agent_better st \<noteq> 0 then Some []
      else do {
        (_, w) \<leftarrow> autorp_encode_hdr (pim_writer_init msg 0 autorp_msg_max) (of_nat autorp_type_mapping) 0
                    (autorp_agent_holdtime st);
        (rpcnt, w) \<leftarrow> mapping_blocks (autorp_announced st) (length (autorp_announced st)) 0 w 0;
        Some (if rpcnt = 0 then []
              else if w_full w then []
              else autorp_send sel uvifs autorp_discovery_group (autorp_agent_ttl st)
                     ((written 0 w)[1 := of_nat rpcnt]) st) })"


section \<open>The clock\<close>

fun age_autorp_list :: "u32 \<Rightarrow> autorp_map list \<Rightarrow> u32 \<times> autorp_map list" where
  "age_autorp_list entries [] = (entries, [])"
| "age_autorp_list entries (m # ms) =
     (if am_holdtime m = autorp_holdtime_forever then apsnd ((#) m) (age_autorp_list entries ms)
      else if am_holdtime m > timer_interval
      then apsnd ((#) (m\<lparr>am_holdtime := am_holdtime m - timer_interval\<rparr>)) (age_autorp_list entries ms)
      else age_autorp_list (if entries > 0 then entries - 1 else entries) ms)"

definition age_autorp ::
    "(nat \<Rightarrow> bool) \<Rightarrow> (nat \<Rightarrow> bool) \<Rightarrow> uvif list \<Rightarrow> bytes \<Rightarrow> autorp_state \<Rightarrow> (autorp_state \<times> autorp_act list) option" where
  "age_autorp mem sel uvifs msg st = do {
     let (entries, maps) = age_autorp_list (autorp_entries st) (autorp_maps st);
     let (entries, announced) = age_autorp_list entries (autorp_announced st);
     let st = st\<lparr>ar_rp := (ar_rp st)\<lparr>rs_autorp := maps\<rparr>, autorp_announced := announced, autorp_entries := entries\<rparr>;
     (st, acts) \<leftarrow>
       (if autorp_announce_flag st then
          let st = st\<lparr>autorp_announce_timer := timer_tick (autorp_announce_timer st)\<rparr> in
          if autorp_announce_timer st = 0 then do {
            (st, acts) \<leftarrow> autorp_send_announce mem sel uvifs msg st;
            Some (st\<lparr>autorp_announce_timer := autorp_announce_interval st\<rparr>, acts) }
          else Some (st, [])
        else Some (st, []));
     let st =
       (if autorp_agent_better st \<noteq> 0 then
          let st = st\<lparr>autorp_agent_better_timer := timer_tick (autorp_agent_better_timer st)\<rparr> in
          if autorp_agent_better_timer st = 0 then st\<lparr>autorp_agent_better := 0\<rparr> else st
        else st);
     (if autorp_agent_flag st then
        let st = st\<lparr>autorp_agent_timer := timer_tick (autorp_agent_timer st)\<rparr> in
        if autorp_agent_timer st = 0 then do {
          acts' \<leftarrow> autorp_send_mapping sel uvifs msg st;
          Some (st\<lparr>autorp_agent_timer := autorp_agent_interval st\<rparr>, acts @ acts') }
        else Some (st, acts)
      else Some (st, acts)) }"


section \<open>The listener\<close>

definition autorp_relay_max :: nat where
  "autorp_relay_max = 2048"

definition autorp_port :: u16 where
  "autorp_port = 496"

definition mem16 :: "u16 \<Rightarrow> bytes" where
  "mem16 x = [ucast x, ucast (drop_bit 8 x)]"

definition autorp_udp_cksum :: "bytes \<Rightarrow> u32 \<Rightarrow> u32 \<Rightarrow> bytes \<Rightarrow> u16 option" where
  "autorp_udp_cksum buf src dst udp =
     (if length udp > autorp_relay_max then Some 0
      else do {
        (_, w) \<leftarrow> pim_put_bytes (pim_writer_init buf 0 (12 + autorp_relay_max)) (mem32 src);
        (_, w) \<leftarrow> pim_put_bytes w (mem32 dst);
        (_, w) \<leftarrow> pim_put_u8 w 0;
        (_, w) \<leftarrow> pim_put_u8 w 17;
        (_, w) \<leftarrow> pim_put_u16 w (of_nat (length udp));
        (_, w) \<leftarrow> pim_put_bytes w udp;
        Some (if w_full w then 0 else inet_cksum (take (12 + length udp) (w_mem w))) })"

text \<open>The headers as they lie in the buffer, the IP header of a host that takes its length in network order.\<close>

definition relay_ip :: "nat \<Rightarrow> u16 \<Rightarrow> u8 \<Rightarrow> u32 \<Rightarrow> u32 \<Rightarrow> bytes" where
  "relay_ip iplen ident ttl src dst =
     [0x45, 0] @ be16b (of_nat iplen) @ be16b ident @ [0, 0, ttl, 17, 0, 0] @ mem32 src @ mem32 dst"

definition relay_udp :: "nat \<Rightarrow> u16 \<Rightarrow> bytes \<Rightarrow> bytes" where
  "relay_udp udplen cks msg = be16b autorp_port @ be16b autorp_port @ be16b (of_nat udplen) @ mem16 cks @ msg"

definition autorp_relay ::
    "bytes \<Rightarrow> uvif list \<Rightarrow> u32 \<Rightarrow> u32 \<Rightarrow> int \<Rightarrow> nat \<Rightarrow> bytes \<Rightarrow> autorp_state \<Rightarrow> (autorp_state \<times> autorp_act list) option" where
  "autorp_relay buf uvifs from_addr grp ttl iif msg st =
     (let udplen = 8 + length msg; iplen = 20 + udplen in
      if \<not> autorp_relay_socket st then Some (st, [])
      else if ttl \<le> 1 then Some (st, [])
      else if iplen > autorp_relay_max then Some (st, [])
      else
        let st = st\<lparr>autorp_relay_id := autorp_relay_id st + 1\<rparr> in do {
        cks \<leftarrow> autorp_udp_cksum buf from_addr grp (relay_udp udplen 0 msg);
        let pkt = relay_ip iplen (autorp_relay_id st) (word_of_int (ttl - 1)) from_addr grp @ relay_udp udplen cks msg;
        Some (st, map (\<lambda>vifi. AUTORP_RELAY vifi pkt) (filter (\<lambda>vifi. vifi \<noteq> iif) (in_service uvifs))) })"

definition autorp_relay_group :: "bytes \<Rightarrow> u32 option option" where
  "autorp_relay_group msg =
     (if length msg < autorp_hdr_len then Some None
      else do {
        b0 \<leftarrow> rd msg 0;
        Some (if autorp_version_of b0 \<noteq> autorp_version then None
              else if autorp_type_of b0 = autorp_type_announce then Some (htonl autorp_announce_group)
              else if autorp_type_of b0 = autorp_type_mapping then Some (htonl autorp_discovery_group)
              else None) })"

text \<open>
  What \<open>autorp_read\<close> does with a datagram: \<open>iif\<close> and \<open>ttl\<close> are what the control messages of \<open>recvmsg\<close> said of it,
  \<open>None\<close> being \<open>NO_VIF\<close>.
\<close>

definition autorp_read ::
    "(nat \<Rightarrow> bool) \<Rightarrow> bytes \<Rightarrow> uvif list \<Rightarrow> u32 \<Rightarrow> nat option \<Rightarrow> int \<Rightarrow> bytes \<Rightarrow> autorp_state \<Rightarrow>
     (autorp_state \<times> autorp_act list) option" where
  "autorp_read mem buf uvifs from_addr iif ttl msg st = do {
     (st, acts) \<leftarrow>
       (if \<not> autorp_listener_flag st then Some (st, [])
        else case iif of
          None \<Rightarrow> Some (st, [])
        | Some vifi \<Rightarrow>
            if ttl < 0 then Some (st, [])
            else if \<not> autorp_accepted_from (autorp_acl_list st) from_addr then Some (st, [])
            else do {
              g \<leftarrow> autorp_relay_group msg;
              (case g of None \<Rightarrow> Some (st, []) | Some grp \<Rightarrow> autorp_relay buf uvifs from_addr grp ttl vifi msg st) });
     st \<leftarrow> accept_autorp mem from_addr msg st;
     Some (st, acts) }"


section \<open>Settings\<close>

definition autorp_join :: "uvif list \<Rightarrow> autorp_state \<Rightarrow> autorp_act list" where
  "autorp_join uvifs st =
     concat (map (\<lambda>vifi. AUTORP_JOIN vifi (htonl autorp_discovery_group) #
       (if autorp_agent_flag st \<or> autorp_listener_flag st then [AUTORP_JOIN vifi (htonl autorp_announce_group)] else []))
       (in_service uvifs))"

text \<open>\<open>opened\<close> and \<open>relay\<close> say whether the buffer and the socket of the messages, and those of the relay, are to be had.\<close>

definition init_autorp :: "bool \<Rightarrow> bool \<Rightarrow> uvif list \<Rightarrow> autorp_state \<Rightarrow> autorp_state \<times> autorp_act list" where
  "init_autorp opened relay uvifs st =
     (if \<not> autorp_enabled st then (st, [])
      else if \<not> opened then (st, [])
      else
        let st = st\<lparr>autorp_socket := True\<rparr>;
            st = (if autorp_listener_flag st \<and> \<not> autorp_relay_socket st then st\<lparr>autorp_relay_socket := relay\<rparr> else st);
            acts = autorp_join uvifs st;
            st = (if autorp_announce_flag st then st\<lparr>autorp_announce_timer := 1\<rparr> else st);
            st = (if autorp_agent_flag st then st\<lparr>autorp_agent_timer := autorp_agent_interval st\<rparr> else st)
        in (st\<lparr>autorp_inited := True\<rparr>, acts))"

definition autorp_listener_set :: "bool \<Rightarrow> autorp_state \<Rightarrow> autorp_state" where
  "autorp_listener_set on st = st\<lparr>autorp_listener_flag := on\<rparr>"

definition autorp_accept_add :: "bool \<Rightarrow> u32 \<Rightarrow> nat \<Rightarrow> autorp_state \<Rightarrow> bool \<times> autorp_state" where
  "autorp_accept_add mem addr masklen st =
     (if masklen < 1 \<or> 32 < masklen then (False, st)
      else if 255 \<le> length (autorp_acl_list st) then (False, st)
      else if \<not> mem then (False, st)
      else let m = val_to_mask masklen in
        (True, st\<lparr>autorp_acl_list := \<lparr>pa_addr = addr AND m, pa_mask = m, pa_masklen = masklen\<rparr> # autorp_acl_list st\<rparr>))"

definition autorp_config_reset :: "autorp_state \<Rightarrow> autorp_state" where
  "autorp_config_reset st = st\<lparr>autorp_prefix_list := [], autorp_acl_list := [],
     autorp_announce_flag := False, autorp_announce_addr := 0, autorp_announce_interval := autorp_default_interval,
     autorp_announce_holdtime := autorp_default_holdtime, autorp_announce_ttl := autorp_default_scope,
     autorp_agent_flag := False, autorp_agent_addr := 0, autorp_agent_interval := autorp_default_interval,
     autorp_agent_holdtime := autorp_default_holdtime, autorp_agent_ttl := autorp_default_scope,
     autorp_agent_better := 0, autorp_listener_flag := False\<rparr>"

definition autorp_announce_set :: "u32 \<Rightarrow> int \<Rightarrow> int \<Rightarrow> int \<Rightarrow> autorp_state \<Rightarrow> autorp_state" where
  "autorp_announce_set addr interval holdtime ttl st =
     (let was = autorp_announce_flag st;
          st = st\<lparr>autorp_announce_flag := (addr \<noteq> 0), autorp_announce_addr := addr,
                  autorp_announce_interval := word_of_int interval, autorp_announce_holdtime := word_of_int holdtime,
                  autorp_announce_ttl := word_of_int ttl\<rparr>
      in if autorp_inited st \<and> autorp_announce_flag st \<and> \<not> was then st\<lparr>autorp_announce_timer := 1\<rparr> else st)"

definition autorp_agent_set ::
    "uvif list \<Rightarrow> u32 \<Rightarrow> int \<Rightarrow> int \<Rightarrow> int \<Rightarrow> autorp_state \<Rightarrow> autorp_state \<times> autorp_act list" where
  "autorp_agent_set uvifs addr interval holdtime ttl st =
     (let was = autorp_agent_flag st;
          st = st\<lparr>autorp_agent_flag := (addr \<noteq> 0), autorp_agent_addr := addr,
                  autorp_agent_interval := word_of_int interval, autorp_agent_holdtime := word_of_int holdtime,
                  autorp_agent_ttl := word_of_int ttl\<rparr>
      in if autorp_inited st \<and> autorp_agent_flag st \<and> \<not> was
         then (st\<lparr>autorp_agent_timer := autorp_agent_interval st\<rparr>, autorp_join uvifs st) else (st, []))"

definition autorp_prefix_add :: "bool \<Rightarrow> u32 \<Rightarrow> u8 \<Rightarrow> bool \<Rightarrow> autorp_state \<Rightarrow> bool \<times> autorp_state" where
  "autorp_prefix_add mem group_addr masklen negative st =
     (if masklen > 32 then (False, st)
      else
        let group_mask = masklen_to_mask (unat masklen) in
        if \<not> mem then (False, st)
        else (True, st\<lparr>autorp_prefix_list := autorp_prefix_list st @
          [\<lparr>px_group_addr = group_addr AND group_mask, px_group_mask = group_mask, px_masklen = masklen,
            px_negative = negative\<rparr>]\<rparr>))"

definition stop_autorp :: "autorp_state \<Rightarrow> autorp_state" where
  "stop_autorp st =
     (autorp_maps_clear st)\<lparr>autorp_inited := False, autorp_socket := False, autorp_relay_socket := False\<rparr>"

end
