(* ===== verification/Autorp_Keep.thy ===== *)
theory Autorp_Keep
  imports Autorp Bsr_Elect
begin

text \<open>
  What Auto-RP keeps, whoever sends what: the lists of mappings are counted and within the limit, a mapping is a group
  prefix in its canonical form and there is one of a kind, and the RP set the mappings go into stays in shape.
\<close>


section \<open>The lists\<close>

definition map_ok :: "autorp_map \<Rightarrow> bool" where
  "map_ok m \<longleftrightarrow> am_masklen m \<le> 32 \<and> am_group_mask m = masklen_to_mask (unat (am_masklen m)) \<and>
     am_group_addr m AND am_group_mask m = am_group_addr m \<and> in_classd (ntohl (am_group_addr m))"

definition mapping_ok :: "autorp_map \<Rightarrow> bool" where
  "mapping_ok m \<longleftrightarrow> map_ok m \<and> (if am_negative m then am_rp_addr m = 0 else inet_valid_host (am_rp_addr m))"

definition announcement_ok :: "autorp_map \<Rightarrow> bool" where
  "announcement_ok m \<longleftrightarrow> map_ok m \<and> inet_valid_host (am_rp_addr m)"

definition maps_ok :: "(autorp_map \<Rightarrow> bool) \<Rightarrow> autorp_map list \<Rightarrow> bool" where
  "maps_ok P ms \<longleftrightarrow> distinct (map map_key ms) \<and> list_all P ms"

definition autorp_ok :: "autorp_state \<Rightarrow> bool" where
  "autorp_ok st \<longleftrightarrow> rp_shape_ok (ar_rp st) \<and> maps_ok mapping_ok (autorp_maps st) \<and> maps_ok announcement_ok (autorp_announced st) \<and>
     unat (autorp_entries st) = length (autorp_maps st) + length (autorp_announced st) \<and> autorp_entries st \<le> autorp_limit st"

lemma map_place_Some: "map_place key ms = Some i \<Longrightarrow> i < length ms \<and> map_key (ms ! i) = key"
  by (induction ms arbitrary: i) (auto split: if_splits)

lemma map_place_None: "map_place key ms = None \<longleftrightarrow> key \<notin> map_key ` set ms"
  by (induction ms) auto

lemma map_fill_key [simp]: "map_key (map_fill negative holdtime from_addr m) = map_key m"
  by (simp add: map_fill_def map_key_def)

text \<open>A mapping that is had is filled in: the list has it, and the count follows the list.\<close>

lemma map_get_fill:
  assumes get: "autorp_map_get mem limit rp g k masklen (entries, ms) = Some (i, entries', ms')"
    and ok: "maps_ok P ms" and P: "\<And>m. map_key m = (rp, g, k) \<Longrightarrow> m \<in> set ms \<or> am_masklen m = masklen \<Longrightarrow> P (map_fill neg ht from_addr m)"
  shows "maps_ok P (ms'[i := map_fill neg ht from_addr (ms' ! i)])"
    "i < length ms'" "map_key (ms' ! i) = (rp, g, k)"
    "entries' = entries \<and> length ms' = length ms \<or> entries < limit \<and> entries' = entries + 1 \<and> length ms' = Suc (length ms)"
proof -
  consider (old) "map_place (rp, g, k) ms = Some i" "entries' = entries" "ms' = ms"
    | (new) m where "map_place (rp, g, k) ms = None" "entries < limit" "i = 0" "entries' = entries + 1" "ms' = m # ms" "map_key m = (rp, g, k)" "am_masklen m = masklen"
    using get by (auto simp: autorp_map_get_def map_key_def not_le split: option.splits if_splits)
  then have "maps_ok P (ms'[i := map_fill neg ht from_addr (ms' ! i)]) \<and> i < length ms' \<and> map_key (ms' ! i) = (rp, g, k) \<and>
    (entries' = entries \<and> length ms' = length ms \<or> entries < limit \<and> entries' = entries + 1 \<and> length ms' = Suc (length ms))"
  proof cases
    case old
    have i: "i < length ms" "map_key (ms ! i) = (rp, g, k)" using map_place_Some [OF old(1)] by simp_all
    have "map map_key (ms[i := map_fill neg ht from_addr (ms ! i)]) = map map_key ms" using i by (simp add: map_update) (metis i(1) i(2) list_update_id map_update nth_map)
    moreover have "list_all P (ms[i := map_fill neg ht from_addr (ms ! i)])"
      using ok P [OF i(2)] i(1) by (auto simp: maps_ok_def list_all_length nth_list_update)
    ultimately show ?thesis using old i ok by (simp add: maps_ok_def)
  next
    case new
    then show ?thesis using ok P [of m] by (auto simp: maps_ok_def map_place_None)
  qed
  then show "maps_ok P (ms'[i := map_fill neg ht from_addr (ms' ! i)])"
    "i < length ms'" "map_key (ms' ! i) = (rp, g, k)"
    "entries' = entries \<and> length ms' = length ms \<or> entries < limit \<and> entries' = entries + 1 \<and> length ms' = Suc (length ms)" by blast+
qed

lemma count_up: "x < y \<Longrightarrow> unat (x + 1) = Suc (unat x) \<and> x + 1 \<le> y" for x y :: u32
  using unsigned_less [of y, where ?'a = nat] by (simp add: unat_word_ariths word_less_nat_alt inc_le)

text \<open>The canonical prefix that a message's address and mask length come to.\<close>

lemma canonical:
  assumes "masklen \<le> 32"
  shows "(g AND masklen_to_mask (unat masklen)) AND masklen_to_mask (unat masklen) = g AND masklen_to_mask (unat masklen)"
  by (simp add: and.assoc)

lemma masklen_to_mask_inject:
  assumes "a \<le> 32" "b \<le> 32" "masklen_to_mask (unat a) = masklen_to_mask (unat (b :: u8))"
  shows "a = b"
proof -
  have l: "unat a \<le> 32" "unat b \<le> 32" using assms(1,2) by (simp_all add: word_le_nat_alt)
  then have "unat a = unat b" using assms(3) by (metis mask_to_masklen_inverse)
  then show ?thesis by (simp add: unsigned_word_eqI)
qed

lemma key_filled:
  assumes "map_key x = (a, g AND masklen_to_mask (unat masklen), masklen_to_mask (unat masklen))" "map_ok x \<or> am_masklen x = masklen"
    "masklen \<le> 32" "in_classd (ntohl (g AND masklen_to_mask (unat masklen)))"
  shows "map_ok (map_fill negative holdtime from_addr x)" "am_rp_addr (map_fill negative holdtime from_addr x) = a"
    "am_negative (map_fill negative holdtime from_addr x) = negative"
proof -
  let ?k = "masklen_to_mask (unat masklen)"
  have k: "am_rp_addr x = a" "am_group_addr x = g AND ?k" "am_group_mask x = ?k" using assms(1) by (simp_all add: map_key_def)
  have "am_masklen x = masklen" using assms(2,3) k(3) masklen_to_mask_inject [of "am_masklen x" masklen] unfolding map_ok_def by metis
  then show "map_ok (map_fill negative holdtime from_addr x)" using assms(3,4) k canonical [OF assms(3), of g] by (simp add: map_ok_def map_fill_def)
  show "am_rp_addr (map_fill negative holdtime from_addr x) = a" "am_negative (map_fill negative holdtime from_addr x) = negative"
    using k by (simp_all add: map_fill_def)
qed



section \<open>Hearing a message\<close>

lemma rest_autorp: "rest s' = rest s \<Longrightarrow> rs_autorp s' = rs_autorp s"
  by (cases s; cases s') (simp add: rest_def)

lemma retimes_autorp: "retimes st st' \<Longrightarrow> rs_autorp st' = rs_autorp st"
  unfolding retimes_def using rest_autorp [of st' st] rest_autorp [of st' "st\<lparr>pim_bootstrap_timer := pim_min_bootstrap_period\<rparr>"] by auto

lemma add_autorp [simp]: "rs_autorp (snd (add_rp_grp_entry_from seg b p t a k h tag origin st)) = rs_autorp st"
  by (rule retimes_autorp [OF retimes_add])

lemma shape_autorp [simp]: "rp_shape_ok (rp\<lparr>rs_autorp := x\<rparr>) = rp_shape_ok rp"
  by (rule rp_shape_frame) simp_all

lemma apply_shape: "rp_shape_ok rp \<Longrightarrow> rp_shape_ok (autorp_apply a holdtime g (masklen_to_mask n) rp) \<and>
    rs_autorp (autorp_apply a holdtime g (masklen_to_mask n) rp) = rs_autorp rp"
  by (simp add: autorp_apply_def shp.add)

lemma learn_ok:
  assumes ok: "autorp_ok st" and rp: "inet_valid_host rp"
  shows "autorp_ok (autorp_learn mem from_addr rp holdtime grp masklen negative st)"
proof -
  let ?k = "masklen_to_mask (unat masklen)"
  let ?g = "grp AND ?k" and ?a = "if negative then 0 else rp"
  show ?thesis
  proof (cases "masklen > 32 \<or> \<not> in_classd (ntohl ?g) \<or>
      autorp_map_get mem (autorp_limit st) ?a ?g ?k masklen (autorp_entries st, autorp_maps st) = None")
    case True
    then show ?thesis using ok by (auto simp: autorp_learn_def Let_def)
  next
    case False
    then obtain i entries maps where get: "autorp_map_get mem (autorp_limit st) ?a ?g ?k masklen (autorp_entries st, autorp_maps st) = Some (i, entries, maps)"
      and m: "masklen \<le> 32" "in_classd (ntohl ?g)" by auto
    define ms where "ms = maps[i := map_fill negative holdtime from_addr (maps ! i)]"
    define rp0 where "rp0 = (ar_rp st)\<lparr>rs_autorp := ms\<rparr>"
    define rp1 where "rp1 = (if negative then rp0 else autorp_apply rp holdtime ?g ?k rp0)"
    have l: "autorp_learn mem from_addr rp holdtime grp masklen negative st = st\<lparr>autorp_entries := entries, ar_rp := rp1\<rparr>"
      using get m by (simp add: autorp_learn_def Let_def rp1_def rp0_def ms_def)
    have o: "rp_shape_ok (ar_rp st)" "maps_ok mapping_ok (autorp_maps st)" using ok by (simp_all add: autorp_ok_def)
    have P: "mapping_ok (map_fill negative holdtime from_addr x)"
      if "map_key x = (?a, ?g, ?k)" "x \<in> set (autorp_maps st) \<or> am_masklen x = masklen" for x
    proof -
      have "map_ok x \<or> am_masklen x = masklen" using that(2) o(2) by (auto simp: maps_ok_def list_all_iff mapping_ok_def)
      from key_filled [OF that(1) this m] show ?thesis using rp by (simp add: mapping_ok_def)
    qed
    note f = map_get_fill [OF get o(2) P]
    have r: "rp_shape_ok rp1" "rs_autorp rp1 = ms"
      using apply_shape [of rp0 rp holdtime ?g "unat masklen"] o(1) by (simp_all add: rp1_def rp0_def)
    have "unat entries = length ms + length (autorp_announced st)" "entries \<le> autorp_limit st"
      using f(4) ok count_up [of "autorp_entries st" "autorp_limit st"] by (auto simp: autorp_ok_def ms_def)
    then show ?thesis using f(1) ok r unfolding l ms_def by (simp add: autorp_ok_def)
  qed
qed

lemma announced_learn_ok:
  assumes ok: "autorp_ok st" and rp: "inet_valid_host rp"
  shows "autorp_ok (autorp_announced_learn mem from_addr rp holdtime grp masklen negative st)"
proof -
  let ?k = "masklen_to_mask (unat masklen)"
  let ?g = "grp AND ?k"
  show ?thesis
  proof (cases "masklen > 32 \<or> \<not> in_classd (ntohl ?g) \<or>
      autorp_map_get mem (autorp_limit st) rp ?g ?k masklen (autorp_entries st, autorp_announced st) = None")
    case True
    then show ?thesis using ok by (auto simp: autorp_announced_learn_def Let_def)
  next
    case False
    then obtain i entries ms where get: "autorp_map_get mem (autorp_limit st) rp ?g ?k masklen (autorp_entries st, autorp_announced st) = Some (i, entries, ms)"
      and m: "masklen \<le> 32" "in_classd (ntohl ?g)" by auto
    have o: "maps_ok announcement_ok (autorp_announced st)" using ok by (simp add: autorp_ok_def)
    have P: "announcement_ok (map_fill negative holdtime from_addr x)"
      if "map_key x = (rp, ?g, ?k)" "x \<in> set (autorp_announced st) \<or> am_masklen x = masklen" for x
    proof -
      have "map_ok x \<or> am_masklen x = masklen" using that(2) o by (auto simp: maps_ok_def list_all_iff announcement_ok_def)
      from key_filled [OF that(1) this m] show ?thesis using rp by (simp add: announcement_ok_def)
    qed
    note f = map_get_fill [OF get o P]
    have "unat entries = length (autorp_maps st) + length ms" "entries \<le> autorp_limit st"
      using f(4) ok count_up [of "autorp_entries st" "autorp_limit st"] by (auto simp: autorp_ok_def)
    then show ?thesis using f(1) ok get m by (simp add: autorp_ok_def autorp_announced_learn_def Let_def)
  qed
qed

lemma prefix_heard_ok: "autorp_ok st \<Longrightarrow> autorp_ok (autorp_prefix_heard mem from_addr hdr pfx st)"
  by (simp add: autorp_prefix_heard_def learn_ok announced_learn_ok)

lemma accept_loop_ok:
  "cursor_ok buf c \<Longrightarrow> c_left c < n \<Longrightarrow> autorp_ok st \<Longrightarrow>
   \<exists>st'. accept_loop n mem from_addr hdr buf c pfx st = Some st' \<and> autorp_ok st'"
proof (induction n arbitrary: c pfx st)
  case (Suc n)
  obtain rc c1 p1 where nx: "autorp_parse_next buf c pfx = Some (rc, c1, p1)" "cursor_ok buf c1"
    "rc = AUTORP_PARSE_PREFIX \<longrightarrow> c_left c1 < c_left c"
    using autorp_next_rule [OF Suc.prems(1)] by blast
  show ?case
  proof (cases "rc = AUTORP_PARSE_PREFIX")
    case True
    then show ?thesis using Suc.IH [OF nx(2) _ prefix_heard_ok [OF Suc.prems(3)]] Suc.prems(2) nx by simp
  qed (use nx Suc.prems(3) in simp)
qed simp

lemma agent_heard_ok [simp]: "autorp_ok (agent_heard from_addr hdr st) = autorp_ok st"
  by (simp add: agent_heard_def autorp_ok_def)

lemma accept_autorp_ok:
  assumes "autorp_ok st"
  shows "\<exists>st'. accept_autorp mem from_addr buf st = Some st' \<and> autorp_ok st'"
proof -
  obtain r where r: "autorp_parse_hdr buf = Some r" "\<And>c hdr. r = Inr (c, hdr) \<Longrightarrow> cursor_ok buf c \<and> c_left c + 8 = length buf"
    using autorp_hdr_returns [of buf] by blast
  have "\<exists>st'. accept_loop (length buf) mem from_addr hdr buf c no_prefix (agent_heard from_addr hdr st) = Some st' \<and> autorp_ok st'"
    if "r = Inr (c, hdr)" for c hdr
    using accept_loop_ok [of buf c "length buf" "agent_heard from_addr hdr st"] r(2) [OF that] assms by fastforce
  then show ?thesis using r(1) assms by (auto simp: accept_autorp_def split: sum.splits)
qed

end
