(* ===== verification/Autorp_Agent.thy ===== *)
theory Autorp_Agent
  imports Autorp_Keep Pim_Roundtrip
begin

text \<open>
  The mapping agent of \<^verbatim>\<open>src/autorp.c\<close>: what the message it sends is made of, that a listener reads back what was
  resolved, and that the rules of the resolution leave one answer for a prefix and cover every prefix announced.
\<close>


section \<open>The bytes of a message\<close>

type_synonym autorp_grp = "u32 \<times> u8 \<times> bool"

definition grp_bytes :: "autorp_grp \<Rightarrow> bytes" where
  "grp_bytes = (\<lambda>(g, masklen, negative). [if negative then 1 else 0, masklen] @ mem32 g)"

definition block_bytes :: "u32 \<times> autorp_grp list \<Rightarrow> bytes" where
  "block_bytes = (\<lambda>(rp, gs). mem32 rp @ [2, of_nat (length gs)] @ concat (map grp_bytes gs))"

definition hdr_bytes :: "u32 \<Rightarrow> u8 \<Rightarrow> u16 \<Rightarrow> bytes" where
  "hdr_bytes type rpcnt holdtime = [ucast (push_bit 4 (1 AND 0x0f) OR (type AND 0x0f)), rpcnt] @ be16b holdtime @ [0, 0, 0, 0]"

lemma length_grp_bytes [simp]: "length (grp_bytes p) = 6"
  by (simp add: grp_bytes_def split_def)

lemma length_grps_bytes [simp]: "length (concat (map grp_bytes gs)) = 6 * length gs"
  by (induction gs) simp_all

lemma length_block_bytes [simp]: "length (block_bytes b) = 6 + 6 * length (snd b)"
  by (cases b) (simp add: block_bytes_def del: length_concat)

lemma length_hdr_bytes [simp]: "length (hdr_bytes t r h) = 8"
  by (simp add: hdr_bytes_def be16b_def)

definition grp_of :: "autorp_map \<Rightarrow> autorp_grp" where
  "grp_of m = (am_group_addr m, am_masklen m, am_negative m)"

definition px_grp :: "autorp_prefix \<Rightarrow> autorp_grp" where
  "px_grp p = (px_group_addr p, px_masklen p, px_negative p)"

text \<open>What a writer is after bytes that fit it.\<close>

definition wrote :: "nat \<Rightarrow> bytes \<Rightarrow> pim_writer \<Rightarrow> bytes \<Rightarrow> pim_writer \<Rightarrow> bool" where
  "wrote cap orig w bs w' \<longleftrightarrow> writer_inv 0 cap orig w' \<and> \<not> w_full w' \<and> written 0 w' = written 0 w @ bs \<and> w_left w' = w_left w - length bs"

lemma wrote_puts:
  assumes "writer_inv 0 cap orig w" "\<not> w_full w" "length (concat cs) \<le> w_left w"
  shows "\<exists>w'. puts pim_put w cs = Some w' \<and> wrote cap orig w (concat cs) w'"
  using ws.puts_fit [OF assms] by (auto simp: wrote_def)

lemma encode_hdr_fits:
  assumes "writer_inv 0 cap orig w" "\<not> w_full w" "8 \<le> w_left w"
  shows "\<exists>w'. autorp_encode_hdr w type rpcnt holdtime = Some (True, w') \<and> wrote cap orig w (hdr_bytes type (ucast rpcnt) holdtime) w'"
proof -
  let ?cs = "[[ucast (push_bit 4 (1 AND 0x0f) OR (type AND 0x0f))], [ucast rpcnt], be16b holdtime, be32b 0] :: bytes list"
  have "length (concat ?cs) = 8" by (simp add: be16b_def be32b_def)
  with wrote_puts [OF assms(1,2), of ?cs] assms(3) obtain w' where w': "puts pim_put w ?cs = Some w'" "wrote cap orig w (concat ?cs) w'" by auto
  moreover have "concat ?cs = hdr_bytes type (ucast rpcnt) holdtime" by (simp add: hdr_bytes_def be32b_def byte_at_def)
  ultimately show ?thesis unfolding autorp_chunks by (simp only: bind.bind_lunit) (auto simp: wrote_def)
qed

lemma encode_rp_fits:
  assumes "writer_inv 0 cap orig w" "\<not> w_full w" "6 \<le> w_left w"
  shows "\<exists>w'. autorp_encode_rp w rp grpcnt = Some (True, w') \<and> wrote cap orig w (mem32 rp @ [2, ucast grpcnt]) w'"
proof -
  let ?cs = "[mem32 rp, [2], [ucast grpcnt]] :: bytes list"
  have "length (concat ?cs) = 6" by simp
  with wrote_puts [OF assms(1,2), of ?cs] assms(3) obtain w' where "puts pim_put w ?cs = Some w'" "wrote cap orig w (concat ?cs) w'" by auto
  then show ?thesis unfolding autorp_chunks by (simp only: bind.bind_lunit) (auto simp: wrote_def)
qed

lemma encode_grp_fits:
  assumes "writer_inv 0 cap orig w" "\<not> w_full w" "6 \<le> w_left w"
  shows "\<exists>w'. autorp_encode_grp w g masklen negative = Some (True, w') \<and> wrote cap orig w (grp_bytes (g, masklen, negative)) w'"
proof -
  let ?cs = "[[if negative then 1 else 0], [masklen], mem32 g] :: bytes list"
  have "length (concat ?cs) = 6" by simp
  with wrote_puts [OF assms(1,2), of ?cs] assms(3) obtain w' where "puts pim_put w ?cs = Some w'" "wrote cap orig w (concat ?cs) w'" by auto
  moreover have "concat ?cs = grp_bytes (g, masklen, negative)" by (simp add: grp_bytes_def)
  ultimately show ?thesis unfolding autorp_chunks by (simp only: bind.bind_lunit) (auto simp: wrote_def)
qed

lemma ucast_count: "ucast (of_nat n :: u32) = (of_nat n :: u8)"
proof -
  have "n mod 2 ^ 32 mod 2 ^ 8 = n mod 2 ^ 8" by (rule mod_mod_cancel) simp
  then have "unat (ucast (of_nat n :: u32) :: u8) = unat (of_nat n :: u8)" by (simp add: unat_ucast_mod unat_of_nat)
  then show ?thesis by (rule unsigned_word_eqI)
qed

text \<open>The two loops over prefixes are one.\<close>

fun put_grps :: "autorp_grp list \<Rightarrow> pim_writer \<Rightarrow> pim_writer option" where
  "put_grps [] w = Some w"
| "put_grps (p # ps) w = do {
     (_, w) \<leftarrow> autorp_encode_grp w (fst p) (fst (snd p)) (snd (snd p));
     put_grps ps w }"

lemma announce_prefixes_eq: "announce_prefixes l = put_grps (map px_grp l)"
proof (induction l)
  case (Cons p l)
  show ?case by (rule ext) (simp add: Cons px_grp_def [of p])
qed (simp add: fun_eq_iff)

lemma mapping_prefixes_eq: "mapping_prefixes ms = put_grps (map grp_of ms)"
proof (induction ms)
  case (Cons m ms)
  show ?case by (rule ext) (simp add: Cons grp_of_def [of m])
qed (simp add: fun_eq_iff)

lemma put_grps_fit:
  assumes "writer_inv 0 cap orig w" "\<not> w_full w" "6 * length gs \<le> w_left w"
  shows "\<exists>w'. put_grps gs w = Some w' \<and> wrote cap orig w (concat (map grp_bytes gs)) w'"
  using assms
proof (induction gs arbitrary: w)
  case (Cons p ps)
  obtain w1 where w1: "autorp_encode_grp w (fst p) (fst (snd p)) (snd (snd p)) = Some (True, w1)" "wrote cap orig w (grp_bytes p) w1"
    using encode_grp_fits [OF Cons.prems(1,2), of "fst p" "fst (snd p)" "snd (snd p)"] Cons.prems(3) by auto
  have "writer_inv 0 cap orig w1" "\<not> w_full w1" "6 * length ps \<le> w_left w1" using w1(2) Cons.prems(3) by (auto simp: wrote_def)
  from Cons.IH [OF this] obtain w2 where "put_grps ps w1 = Some w2" "wrote cap orig w1 (concat (map grp_bytes ps)) w2" by blast
  then show ?case using w1 by (auto simp: wrote_def)
qed (auto simp: wrote_def)


section \<open>The blocks of a mapping\<close>

fun blocks :: "autorp_map list \<Rightarrow> nat \<Rightarrow> nat \<Rightarrow> nat \<Rightarrow> (u32 \<times> autorp_grp list) list" where
  "blocks ms 0 i room = []"
| "blocks ms (Suc k) i room =
     (let rp = am_rp_addr (ms ! i); gs = map (\<lambda>j. grp_of (ms ! j)) (mapped_by ms rp); n = 6 + 6 * length gs in
      if list_ex (\<lambda>m. am_rp_addr m = rp) (take i ms) \<or> gs = [] then blocks ms k (Suc i) room
      else if room < n then []
      else (rp, gs) # blocks ms k (Suc i) (room - n))"

lemma mapping_blocks_written:
  assumes "writer_inv 0 cap orig w" "\<not> w_full w"
  shows "\<exists>w'. mapping_blocks ms k i w rpcnt = Some (rpcnt + length (blocks ms k i (w_left w)), w') \<and>
    writer_inv 0 cap orig w' \<and> \<not> w_full w' \<and> written 0 w' = written 0 w @ concat (map block_bytes (blocks ms k i (w_left w)))"
  using assms
proof (induction k arbitrary: i w rpcnt)
  case (Suc k)
  let ?rp = "am_rp_addr (ms ! i)"
  define gs where "gs = map (\<lambda>j. grp_of (ms ! j)) (mapped_by ms ?rp)"
  have len: "length (mapped_by ms ?rp) = length gs" "mapped_by ms ?rp = [] \<longleftrightarrow> gs = []" by (simp_all add: gs_def)
  have room: "pim_writer_room w (autorp_rp_len + length gs * autorp_grp_len) \<longleftrightarrow> 6 + 6 * length gs \<le> w_left w"
    using Suc.prems(2) by (simp add: pim_writer_room_def autorp_lens mult.commute)
  consider (skip) "list_ex (\<lambda>m. am_rp_addr m = ?rp) (take i ms) \<or> gs = []"
    | (full) "\<not> (list_ex (\<lambda>m. am_rp_addr m = ?rp) (take i ms) \<or> gs = [])" "w_left w < 6 + 6 * length gs"
    | (fits) "\<not> (list_ex (\<lambda>m. am_rp_addr m = ?rp) (take i ms) \<or> gs = [])" "6 + 6 * length gs \<le> w_left w" by linarith
  then show ?case
  proof cases
    case skip
    then have "mapping_blocks ms (Suc k) i w rpcnt = mapping_blocks ms k (Suc i) w rpcnt" "blocks ms (Suc k) i (w_left w) = blocks ms k (Suc i) (w_left w)"
      by (auto simp: Let_def len gs_def [symmetric])
    then show ?thesis using Suc.IH [OF Suc.prems] by simp
  next
    case full
    then have "mapping_blocks ms (Suc k) i w rpcnt = Some (rpcnt, w)" "blocks ms (Suc k) i (w_left w) = []"
      using room by (simp_all add: Let_def len gs_def [symmetric])
    then show ?thesis using Suc.prems by simp
  next
    case fits
    obtain w1 where w1: "autorp_encode_rp w ?rp (of_nat (length gs)) = Some (True, w1)" "wrote cap orig w (mem32 ?rp @ [2, ucast (of_nat (length gs) :: u32)]) w1"
      using encode_rp_fits [OF Suc.prems, of ?rp "of_nat (length gs)"] fits(2) by auto
    have "writer_inv 0 cap orig w1" "\<not> w_full w1" "6 * length gs \<le> w_left w1" using w1(2) fits(2) by (auto simp: wrote_def)
    from put_grps_fit [OF this] obtain w2 where w2: "put_grps gs w1 = Some w2" "wrote cap orig w1 (concat (map grp_bytes gs)) w2" by blast
    have "w_left w2 = w_left w - length (block_bytes (?rp, gs))" using w1(2) w2(2) by (simp add: wrote_def)
    moreover have "written 0 w2 = written 0 w @ block_bytes (?rp, gs)" using w1(2) w2(2) by (simp add: wrote_def block_bytes_def ucast_count)
    ultimately have b: "wrote cap orig w (block_bytes (?rp, gs)) w2" using w2(2) by (simp add: wrote_def)
    have l: "w_left w2 = w_left w - (6 + 6 * length gs)" using b by (simp add: wrote_def)
    have "mapping_prefixes (map ((!) ms) (mapped_by ms ?rp)) w1 = Some w2" using w2(1) by (simp add: mapping_prefixes_eq gs_def comp_def)
    then have "mapping_blocks ms (Suc k) i w rpcnt = mapping_blocks ms k (Suc i) w2 (Suc rpcnt)"
      using fits room w1(1) by (simp add: Let_def len)
    moreover have "blocks ms (Suc k) i (w_left w) = (?rp, gs) # blocks ms k (Suc i) (w_left w2)"
      using fits by (simp add: Let_def len gs_def [symmetric] l)
    ultimately show ?thesis using Suc.IH [of w2 "Suc i" "Suc rpcnt"] b by (auto simp: wrote_def)
  qed
qed simp



definition mapping_bytes :: "autorp_state \<Rightarrow> bytes" where
  "mapping_bytes st =
     (let bs = blocks (autorp_announced st) (length (autorp_announced st)) 0 (autorp_msg_max - 8)
      in hdr_bytes 2 (of_nat (length bs)) (autorp_agent_holdtime st) @ concat (map block_bytes bs))"

definition nothing_mapped :: "autorp_state \<Rightarrow> bool" where
  "nothing_mapped st \<longleftrightarrow> blocks (autorp_announced st) (length (autorp_announced st)) 0 (autorp_msg_max - 8) = []"

lemma send_mapping_eq:
  assumes "autorp_msg_max \<le> length buf" "autorp_agent_better st = 0"
  shows "autorp_send_mapping sel uvifs buf st =
    Some (if nothing_mapped st then [] else autorp_send sel uvifs autorp_discovery_group (autorp_agent_ttl st) (mapping_bytes st) st)"
proof -
  let ?w = "pim_writer_init buf 0 autorp_msg_max" and ?ms = "autorp_announced st"
  let ?bs = "blocks ?ms (length ?ms) 0 (autorp_msg_max - 8)"
  have i: "writer_inv 0 autorp_msg_max buf ?w" "\<not> w_full ?w" "w_left ?w = autorp_msg_max" "written 0 ?w = []"
    using assms(1) by (simp_all add: writer_inv_def pim_writer_init_def written_def)
  obtain w1 where w1: "autorp_encode_hdr ?w (of_nat autorp_type_mapping) 0 (autorp_agent_holdtime st) = Some (True, w1)"
      "wrote autorp_msg_max buf ?w (hdr_bytes 2 0 (autorp_agent_holdtime st)) w1"
    using encode_hdr_fits [OF i(1,2), of 2 0 "autorp_agent_holdtime st"] i(3) by (auto simp: autorp_msg_max_def autorp_type_mapping_def)
  have l: "writer_inv 0 autorp_msg_max buf w1" "\<not> w_full w1" "w_left w1 = autorp_msg_max - 8" "written 0 w1 = hdr_bytes 2 0 (autorp_agent_holdtime st)"
    using w1(2) i(3,4) by (simp_all add: wrote_def)
  obtain w2 where w2: "mapping_blocks ?ms (length ?ms) 0 w1 0 = Some (length ?bs, w2)" "\<not> w_full w2"
      "written 0 w2 = hdr_bytes 2 0 (autorp_agent_holdtime st) @ concat (map block_bytes ?bs)"
    using mapping_blocks_written [OF l(1,2), of ?ms "length ?ms" 0 0] l(3,4) by auto
  have "(written 0 w2)[1 := of_nat (length ?bs)] = mapping_bytes st"
    unfolding w2(3) by (simp add: mapping_bytes_def hdr_bytes_def Let_def)
  then show ?thesis using assms(2) w1(1) w2(1,2) by (simp add: autorp_send_mapping_def nothing_mapped_def)
qed


section \<open>Reading it back\<close>

definition wire :: "u32 \<Rightarrow> autorp_grp \<Rightarrow> autorp_wire_prefix" where
  "wire rp = (\<lambda>(g, masklen, negative). \<lparr>ap_rp_addr = rp, ap_group_addr = g, ap_masklen = masklen, ap_negative = (if negative then 1 else 0)\<rparr>)"

definition wires :: "(u32 \<times> autorp_grp list) list \<Rightarrow> autorp_wire_prefix list" where
  "wires bs = concat (map (\<lambda>(rp, gs). map (wire rp) gs) bs)"

lemma mem32_reads: "get_netlong (pre @ mem32 x @ post) (length pre) = Some (x, length pre + 4)"
  using le32_byte_at [of x] by (simp add: get_netlong_def mem32_def rd_def nth_append numeral_2_eq_2 numeral_3_eq_3)

lemma next_prefix:
  assumes "buf = pre @ grp_bytes p @ post" "length pre = n"
  shows "autorp_parse_next buf \<lparr>c_p = n, c_left = length buf - n, ac_rpcnt = r, ac_grpcnt = Suc k, ac_rp_addr = rp\<rparr> pfx =
    Some (AUTORP_PARSE_PREFIX, \<lparr>c_p = n + 6, c_left = length buf - (n + 6), ac_rpcnt = r, ac_grpcnt = k, ac_rp_addr = rp\<rparr>, wire rp p)"
proof -
  obtain g masklen negative where p: "p = (g, masklen, negative)" by (cases p)
  have "get_netlong buf (n + 2) = Some (g, n + 6)"
    using mem32_reads [of "pre @ [if negative then 1 else 0, masklen]" g post] assms p by (simp add: grp_bytes_def)
  moreover have "rd buf n = Some (if negative then 1 else 0)" "rd buf (n + 1) = Some masklen" "6 \<le> length buf - n"
    using assms p by (simp_all add: rd_def grp_bytes_def nth_append)
  ultimately have "autorp_parse_step buf \<lparr>c_p = n, c_left = length buf - n, ac_rpcnt = r, ac_grpcnt = Suc k, ac_rp_addr = rp\<rparr> pfx =
    Some (AUTORP_PARSE_PREFIX, \<lparr>c_p = n + 6, c_left = length buf - (n + 6), ac_rpcnt = r, ac_grpcnt = k, ac_rp_addr = rp\<rparr>, wire rp p)"
    using p by (simp add: autorp_parse_step_def autorp_lens cursor_step_def wire_def autorp_grp_negative_def)
  then show ?thesis by (subst autorp_parse_next.simps) simp
qed

lemma next_block:
  assumes "buf = pre @ mem32 rp @ [b, of_nat k] @ post" "length pre = n" "k < 256"
  shows "autorp_parse_next buf \<lparr>c_p = n, c_left = length buf - n, ac_rpcnt = Suc r, ac_grpcnt = 0, ac_rp_addr = rp0\<rparr> pfx =
    autorp_parse_next buf \<lparr>c_p = n + 6, c_left = length buf - (n + 6), ac_rpcnt = r, ac_grpcnt = k, ac_rp_addr = rp\<rparr> pfx"
proof -
  have "get_netlong buf n = Some (rp, n + 4)" using mem32_reads [of pre rp] assms by simp
  moreover have "rd buf (n + 5) = Some (of_nat k)" "6 \<le> length buf - n" using assms by (simp_all add: rd_def nth_append)
  moreover have "unat (of_nat k :: u8) = k" using assms(3) by (simp add: unat_of_nat)
  ultimately have "autorp_parse_step buf \<lparr>c_p = n, c_left = length buf - n, ac_rpcnt = Suc r, ac_grpcnt = 0, ac_rp_addr = rp0\<rparr> pfx =
    Some (AUTORP_PARSE_BLOCK, \<lparr>c_p = n + 6, c_left = length buf - (n + 6), ac_rpcnt = r, ac_grpcnt = k, ac_rp_addr = rp\<rparr>, pfx)"
    by (simp add: autorp_parse_step_def autorp_lens cursor_step_def)
  then show ?thesis by (subst autorp_parse_next.simps) simp
qed

lemma next_done:
  "autorp_parse_next buf \<lparr>c_p = n, c_left = l, ac_rpcnt = 0, ac_grpcnt = 0, ac_rp_addr = rp\<rparr> pfx =
    Some (AUTORP_PARSE_DONE, \<lparr>c_p = n, c_left = l, ac_rpcnt = 0, ac_grpcnt = 0, ac_rp_addr = rp\<rparr>, pfx)"
  by (subst autorp_parse_next.simps) (simp add: autorp_parse_step_def)

lemma blocks_read:
  assumes "buf = pre @ concat (map grp_bytes gs) @ concat (map block_bytes bs)" "length pre = n"
    "\<forall>b\<in>set bs. length (snd b) < 256" "length gs + length (wires bs) < k"
  shows "autorp_prefixes k buf \<lparr>c_p = n, c_left = length buf - n, ac_rpcnt = length bs, ac_grpcnt = length gs, ac_rp_addr = rp\<rparr> pfx =
    Some (AUTORP_PARSE_DONE, map (wire rp) gs @ wires bs)"
  using assms
proof (induction bs arbitrary: pre gs n rp pfx k)
  case Nil
  then show ?case
  proof (induction gs arbitrary: pre n pfx k)
    case Nil
    then show ?case by (cases k) (simp_all add: next_done wires_def)
  next
    case (Cons g gs)
    obtain j where j: "k = Suc j" using Cons.prems(4) by (cases k) auto
    note nx = next_prefix [of buf pre g "concat (map grp_bytes gs)" n 0 "length gs" rp pfx]
    have "autorp_prefixes j buf \<lparr>c_p = n + 6, c_left = length buf - (n + 6), ac_rpcnt = 0, ac_grpcnt = length gs, ac_rp_addr = rp\<rparr> (wire rp g) =
        Some (AUTORP_PARSE_DONE, map (wire rp) gs @ wires [])"
      using Cons.IH [of "pre @ grp_bytes g" "n + 6" j "wire rp g"] Cons.prems j by simp
    then show ?case using nx Cons.prems(1,2) j by simp
  qed
next
  case (Cons b bs)
  then show ?case
  proof (induction gs arbitrary: pre n pfx k)
    case Nil
    obtain r hs where b: "b = (r, hs)" by (cases b)
    have l: "length hs < 256" using Nil.prems(4) b by simp
    let ?post = "concat (map grp_bytes hs) @ concat (map block_bytes bs)"
    have eq: "buf = pre @ mem32 r @ [2, of_nat (length hs)] @ ?post" using Nil.prems(2) b by (simp add: block_bytes_def)
    note nx = next_block [OF eq Nil.prems(3) l, of "length bs" rp pfx]
    have "autorp_prefixes k buf \<lparr>c_p = n + 6, c_left = length buf - (n + 6), ac_rpcnt = length bs, ac_grpcnt = length hs, ac_rp_addr = r\<rparr> pfx =
        Some (AUTORP_PARSE_DONE, map (wire r) hs @ wires bs)"
      using Nil.prems(1) [of "pre @ mem32 r @ [2, of_nat (length hs)]" hs "n + 6" k r pfx] eq Nil.prems(3-5) b by (simp add: wires_def)
    then show ?case using nx b by (cases k) (simp_all add: wires_def)
  next
    case (Cons g gs)
    obtain j where j: "k = Suc j" using Cons.prems(5) by (cases k) auto
    note nx = next_prefix [of buf pre g "concat (map grp_bytes gs) @ concat (map block_bytes (b # bs))" n "length (b # bs)" "length gs" rp pfx]
    have "autorp_prefixes j buf \<lparr>c_p = n + 6, c_left = length buf - (n + 6), ac_rpcnt = length (b # bs), ac_grpcnt = length gs, ac_rp_addr = rp\<rparr> (wire rp g) =
        Some (AUTORP_PARSE_DONE, map (wire rp) gs @ wires (b # bs))"
      using Cons.IH [of "pre @ grp_bytes g" "n + 6" j "wire rp g"] Cons.prems j by simp
    then show ?case using nx Cons.prems(2,3) j by simp
  qed
qed


lemma blocks_small: "b \<in> set (blocks ms k i room) \<Longrightarrow> 6 + 6 * length (snd b) \<le> room"
proof (induction k arbitrary: i room)
  case (Suc k)
  then show ?case using Suc.IH [of "Suc i"] by (fastforce simp: Let_def split: if_splits)
qed simp

lemma blocks_few: "12 * length (blocks ms k i room) \<le> room"
proof (induction k arbitrary: i room)
  case (Suc k)
  define gs where "gs = map (\<lambda>j. grp_of (ms ! j)) (mapped_by ms (am_rp_addr (ms ! i)))"
  have ne: "mapped_by ms (am_rp_addr (ms ! i)) = [] \<longleftrightarrow> gs = []" by (simp add: gs_def)
  have "12 \<le> 6 + 6 * length gs" if "gs \<noteq> []" using that by (cases gs) simp_all
  then show ?case using Suc.IH [of "Suc i" room] Suc.IH [of "Suc i" "room - (6 + 6 * length gs)"]
    by (auto simp: Let_def ne gs_def [symmetric])
qed simp

lemma hdr_reads:
  assumes "n < 256"
  shows "autorp_parse_hdr (hdr_bytes 2 (of_nat n) holdtime @ post) =
    Some (Inr (\<lparr>c_p = 8, c_left = length (hdr_bytes 2 (of_nat n) holdtime @ post) - 8, ac_rpcnt = n, ac_grpcnt = 0, ac_rp_addr = 0\<rparr>,
      \<lparr>ah_version = 1, ah_type = 2, ah_rpcnt = n, ah_holdtime = holdtime\<rparr>))"
proof -
  have "unat (of_nat n :: u8) = n" using assms by (simp add: unat_of_nat)
  then show ?thesis
    by (simp add: autorp_parse_hdr_def autorp_lens hdr_bytes_def be16b_def rd_def get_hostshort_def autorp_version_of_def autorp_type_of_def)
qed

definition mapped_blocks :: "autorp_state \<Rightarrow> (u32 \<times> autorp_grp list) list" where
  "mapped_blocks st = blocks (autorp_announced st) (length (autorp_announced st)) 0 (autorp_msg_max - 8)"

definition mapping_hdr :: "autorp_state \<Rightarrow> autorp_hdr" where
  "mapping_hdr st = \<lparr>ah_version = 1, ah_type = 2, ah_rpcnt = length (mapped_blocks st), ah_holdtime = autorp_agent_holdtime st\<rparr>"

lemma mapping_reads:
  "\<exists>c. autorp_parse_hdr (mapping_bytes st) = Some (Inr (c, mapping_hdr st)) \<and>
     autorp_prefixes (length (mapping_bytes st)) (mapping_bytes st) c pfx = Some (AUTORP_PARSE_DONE, wires (mapped_blocks st))"
proof -
  let ?bs = "mapped_blocks st" and ?h = "hdr_bytes 2 (of_nat (length (mapped_blocks st))) (autorp_agent_holdtime st)"
  have m: "mapping_bytes st = ?h @ concat (map block_bytes ?bs)" by (simp add: mapping_bytes_def mapped_blocks_def Let_def)
  have n: "length ?bs < 256" using blocks_few [of "autorp_announced st" "length (autorp_announced st)" 0 "autorp_msg_max - 8"]
    by (simp add: mapped_blocks_def autorp_msg_max_def)
  have s: "\<forall>b\<in>set ?bs. length (snd b) < 256" using blocks_small [of _ "autorp_announced st" "length (autorp_announced st)" 0 "autorp_msg_max - 8"]
    by (fastforce simp: mapped_blocks_def autorp_msg_max_def)
  have w: "length (wires bs) \<le> length (concat (map block_bytes bs))" for bs by (induction bs) (auto simp: wires_def split_def)
  have "length (wires ?bs) < length (mapping_bytes st)" using w [of ?bs] unfolding m by simp
  then show ?thesis
    using hdr_reads [OF n, of "autorp_agent_holdtime st" "concat (map block_bytes ?bs)"]
      blocks_read [of "mapping_bytes st" ?h "[]" ?bs 8 "length (mapping_bytes st)" 0 pfx] s unfolding m mapping_hdr_def by auto
qed


section \<open>What the rules resolve\<close>

definition covers :: "autorp_map \<Rightarrow> autorp_map \<Rightarrow> bool" where
  "covers other m \<longleftrightarrow> prefix_set (am_group_addr m) (unat (am_masklen m)) \<subseteq> prefix_set (am_group_addr other) (unat (am_masklen other))"

definition standing :: "autorp_map \<Rightarrow> nat" where
  "standing m = unat (am_masklen m) * 2 ^ 33 + (if am_negative m then 0 else 2 ^ 32) + (2 ^ 32 - 1 - unat (ntohl (am_rp_addr m)))"

lemma yields_standing:
  assumes "yields_to m other"
  shows "standing other < standing m"
proof -
  have a: "unat (ntohl (am_rp_addr m)) < 2 ^ 32" "unat (ntohl (am_rp_addr other)) < 2 ^ 32"
    using unsigned_less [of "ntohl (am_rp_addr m)", where ?'a = nat] unsigned_less [of "ntohl (am_rp_addr other)", where ?'a = nat] by simp_all
  consider "am_rp_addr other = am_rp_addr m" "am_negative other = am_negative m" "unat (am_masklen other) < unat (am_masklen m)"
    | "am_masklen other = am_masklen m" "am_negative other" "\<not> am_negative m"
    | "am_masklen other = am_masklen m" "am_negative other = am_negative m" "unat (ntohl (am_rp_addr m)) < unat (ntohl (am_rp_addr other))"
    using assms by (auto simp: yields_to_def word_less_nat_alt)
  then show ?thesis by cases (use a in \<open>auto simp: standing_def\<close>)
qed

lemma covers_trans: "covers a b \<Longrightarrow> covers b c \<Longrightarrow> covers a c"
  by (auto simp: covers_def)

lemma yields_covers:
  assumes "yields_to m other" "map_ok m" "map_ok other"
  shows "covers other m"
proof -
  have l: "unat (am_masklen m) \<le> 32" "unat (am_masklen other) \<le> 32" using assms(2,3) by (simp_all add: map_ok_def word_le_nat_alt)
  consider "am_masklen other < am_masklen m" "am_group_addr m AND am_group_mask other = am_group_addr other"
    | "am_masklen other = am_masklen m" "am_group_addr other = am_group_addr m"
    using assms(1) by (auto simp: yields_to_def)
  then show ?thesis
  proof cases
    case 1
    then have "am_group_addr m \<in> prefix_set (am_group_addr other) (unat (am_masklen other))"
      using and_masklen_eq [OF l(2), of "am_group_addr m" "am_group_addr other"] assms(3) unfolding map_ok_def by metis
    then show ?thesis using prefix_set_sub [OF l(2,1)] 1(1) by (simp add: covers_def word_less_nat_alt)
  qed (simp add: covers_def)
qed

text \<open>Whatever is announced is covered by something that stands.\<close>

lemma resolved_covers:
  assumes ok: "list_all map_ok ms"
  shows "i < length ms \<Longrightarrow> \<exists>j<length ms. autorp_resolved ms j \<and> covers (ms ! j) (ms ! i)"
proof (induction "standing (ms ! i)" arbitrary: i rule: less_induct)
  case less
  show ?case
  proof (cases "autorp_resolved ms i")
    case True
    then show ?thesis using less.prems by (auto simp: covers_def)
  next
    case False
    then obtain j where j: "j < length ms" "yields_to (ms ! i) (ms ! j)" by (auto simp: autorp_resolved_def list_all_iff)
    have c: "covers (ms ! j) (ms ! i)" using yields_covers [OF j(2)] ok less.prems j(1) by (simp add: list_all_length)
    obtain k where "k < length ms" "autorp_resolved ms k" "covers (ms ! k) (ms ! j)"
      using less.hyps [OF yields_standing [OF j(2)] j(1)] by blast
    then show ?thesis using covers_trans [OF _ c] by blast
  qed
qed

text \<open>Of the announcements of one prefix, what stands denies it where one of them does, and has the highest address of its kind.\<close>

lemma resolved_best:
  assumes "autorp_resolved ms i" "j < length ms" "i < length ms" "am_group_addr (ms ! j) = am_group_addr (ms ! i)" "am_masklen (ms ! j) = am_masklen (ms ! i)"
  shows "(am_negative (ms ! j) \<longrightarrow> am_negative (ms ! i)) \<and>
    (am_negative (ms ! j) = am_negative (ms ! i) \<longrightarrow> ntohl (am_rp_addr (ms ! j)) \<le> ntohl (am_rp_addr (ms ! i)))"
proof (cases "j = i")
  case False
  then have "\<not> yields_to (ms ! i) (ms ! j)" using assms(1,2) by (auto simp: autorp_resolved_def list_all_iff)
  then show ?thesis using assms(4,5) by (auto simp: yields_to_def not_less)
qed simp

lemma resolved_unique:
  assumes ok: "maps_ok P ms" "list_all map_ok ms" and r: "autorp_resolved ms i" "autorp_resolved ms j" "i < length ms" "j < length ms"
    and same: "am_group_addr (ms ! j) = am_group_addr (ms ! i)" "am_masklen (ms ! j) = am_masklen (ms ! i)"
  shows "i = j"
proof -
  note a = resolved_best [OF r(1,4,3) same] and b = resolved_best [OF r(2,3,4) same(1) [symmetric] same(2) [symmetric]]
  have "ntohl (am_rp_addr (ms ! i)) = ntohl (am_rp_addr (ms ! j))" using a b by (meson antisym)
  moreover have "am_group_mask (ms ! i) = am_group_mask (ms ! j)" using ok(2) r(3,4) same(2) by (simp add: list_all_length map_ok_def)
  ultimately have "map map_key ms ! i = map map_key ms ! j" using r(3,4) same by (simp add: map_key_def)
  then show ?thesis using ok(1) r(3,4) nth_eq_iff_index_eq [of "map map_key ms" i j] unfolding maps_ok_def by simp
qed


text \<open>A message that has room carries what stands, all of it and nothing else.\<close>

definition fresh :: "autorp_map list \<Rightarrow> nat \<Rightarrow> nat list" where
  "fresh ms i = filter (\<lambda>j. autorp_resolved ms j \<and> \<not> list_ex (\<lambda>m. am_rp_addr m = am_rp_addr (ms ! j)) (take i ms)) [0..<length ms]"

definition told :: "autorp_map \<Rightarrow> autorp_wire_prefix" where
  "told m = wire (am_rp_addr m) (grp_of m)"

lemma told_simps [simp]:
  "ap_rp_addr (told m) = am_rp_addr m" "ap_group_addr (told m) = am_group_addr m" "ap_masklen (told m) = am_masklen m"
  "ap_negative (told m) \<noteq> 0 \<longleftrightarrow> am_negative m"
  by (simp_all add: told_def wire_def grp_of_def)

lemma blocks_all:
  assumes "i + k = length ms" "12 * length (fresh ms i) \<le> room"
  shows "set (wires (blocks ms k i room)) = (\<lambda>j. told (ms ! j)) ` set (fresh ms i)"
  using assms
proof (induction k arbitrary: i room)
  case 0
  then have "fresh ms i = []" by (auto simp: fresh_def filter_empty_conv list_ex_iff)
  then show ?case by (simp add: wires_def)
next
  case (Suc k)
  let ?rp = "am_rp_addr (ms ! i)" and ?seen = "list_ex (\<lambda>m. am_rp_addr m = am_rp_addr (ms ! i)) (take i ms)"
  have i: "i < length ms" "Suc i + k = length ms" using Suc.prems(1) by simp_all
  have f: "fresh ms (Suc i) = filter (\<lambda>j. am_rp_addr (ms ! j) \<noteq> ?rp) (fresh ms i)"
    unfolding fresh_def filter_filter using i(1) by (intro filter_cong refl) (auto simp: take_Suc_conv_app_nth)
  show ?case
  proof (cases "?seen")
    case True
    then have "fresh ms (Suc i) = fresh ms i" unfolding f by (intro filter_True) (auto simp: fresh_def)
    then show ?thesis using Suc.IH [OF i(2)] Suc.prems(2) True by (simp add: Let_def)
  next
    case False
    have m: "mapped_by ms ?rp = filter (\<lambda>j. am_rp_addr (ms ! j) = ?rp) (fresh ms i)"
      unfolding fresh_def filter_filter mapped_by_def using False by (intro filter_cong refl) auto
    let ?n = "length (mapped_by ms ?rp)"
    have len: "length (fresh ms i) = ?n + length (fresh ms (Suc i))"
      unfolding f m using sum_length_filter_compl [of "\<lambda>j. am_rp_addr (ms ! j) = ?rp" "fresh ms i"] by simp
    have un: "set (fresh ms i) = set (mapped_by ms ?rp) \<union> set (fresh ms (Suc i))" unfolding f m by auto
    show ?thesis
    proof (cases "mapped_by ms ?rp = []")
      case True
      then show ?thesis using Suc.IH [OF i(2), of room] Suc.prems(2) False len un by (simp add: Let_def)
    next
      case ne: False
      then have "6 + 6 * ?n \<le> 12 * ?n" by (cases "mapped_by ms ?rp") simp_all
      then have r: "6 + 6 * ?n \<le> room" "12 * length (fresh ms (Suc i)) \<le> room - (6 + 6 * ?n)" using Suc.prems(2) len by simp_all
      have "(wire ?rp \<circ> (\<lambda>j. grp_of (ms ! j))) ` set (mapped_by ms ?rp) = (\<lambda>j. told (ms ! j)) ` set (mapped_by ms ?rp)"
        by (rule image_cong) (auto simp: mapped_by_def told_def)
      then show ?thesis using Suc.IH [OF i(2) r(2)] r(1) False ne un by (simp add: Let_def wires_def image_Un image_comp)
    qed
  qed
qed

lemma mapped_all:
  assumes "length (autorp_announced st) \<le> 84"
  shows "set (wires (mapped_blocks st)) = told ` {autorp_announced st ! j |j. j < length (autorp_announced st) \<and> autorp_resolved (autorp_announced st) j}"
proof -
  have l: "length (fresh (autorp_announced st) 0) \<le> length (autorp_announced st)" unfolding fresh_def by (rule order.trans [OF length_filter_le]) simp
  then have "12 * length (fresh (autorp_announced st) 0) \<le> autorp_msg_max - 8" using assms by (simp add: autorp_msg_max_def)
  then have "set (wires (mapped_blocks st)) = (\<lambda>j. told (autorp_announced st ! j)) ` set (fresh (autorp_announced st) 0)"
    unfolding mapped_blocks_def by (intro blocks_all) simp
  also have "set (fresh (autorp_announced st) 0) = {j. j < length (autorp_announced st) \<and> autorp_resolved (autorp_announced st) j}" by (auto simp: fresh_def)
  finally show ?thesis by blast
qed

lemma nothing_mapped_iff:
  assumes "length (autorp_announced st) \<le> 84" "list_all map_ok (autorp_announced st)"
  shows "nothing_mapped st \<longleftrightarrow> autorp_announced st = []"
proof
  assume n: "nothing_mapped st"
  show "autorp_announced st = []"
  proof (rule ccontr)
    assume "autorp_announced st \<noteq> []"
    then obtain j where "j < length (autorp_announced st)" "autorp_resolved (autorp_announced st) j"
      using resolved_covers [OF assms(2), of 0] by auto
    then have "set (wires (mapped_blocks st)) \<noteq> {}" unfolding mapped_all [OF assms(1)] by auto
    then show False using n by (simp add: nothing_mapped_def mapped_blocks_def wires_def)
  qed
qed (simp add: nothing_mapped_def)


section \<open>Properties\<close>



text \<open>10.0.0.1 announces 239.0.0.0/8 and 239.1.0.0/16 and denies 239.9.0.0/16, and 10.0.0.2 announces 239.0.0.0/8 as well.\<close>

definition announced_map :: "u32 \<Rightarrow> u32 \<Rightarrow> u8 \<Rightarrow> bool \<Rightarrow> autorp_map" where
  "announced_map rp g masklen negative = \<lparr>am_rp_addr = rp, am_group_addr = g, am_group_mask = masklen_to_mask (unat masklen),
     am_masklen = masklen, am_negative = negative, am_holdtime = 180, am_origin = rp\<rparr>"

definition two_announcers :: autorp_state where
  "two_announcers = autorp_globals\<lparr>autorp_agent_flag := True, autorp_agent_addr := 0x0300000a, autorp_socket := True, autorp_entries := 4,
     autorp_announced := [announced_map 0x0100000a 0x000000ef 8 False, announced_map 0x0100000a 0x000001ef 16 False,
       announced_map 0x0100000a 0x000009ef 16 True, announced_map 0x0200000a 0x000000ef 8 False]\<rparr>"

lemma two_announcers_resolved: "map (autorp_resolved (autorp_announced two_announcers)) [0, 1, 2, 3] = [False, False, True, True]"
  by code_simp


end
