(* ===== verification/Autorp_Run.thy ===== *)
theory Autorp_Run
  imports Autorp_Agent
begin

text \<open>
  Auto-RP as it runs: its messages and its clock together with those of the bootstrap mechanism, the silence of an agent
  that hears a better one, and the relay of the listener.
\<close>


section \<open>The clock and the lists\<close>

lemma age_list:
  assumes "maps_ok P ms" "unat entries = length ms + n" and P: "\<And>m x. P m \<Longrightarrow> P (m\<lparr>am_holdtime := x\<rparr>)"
    and aged: "age_autorp_list entries ms = (entries', ms')"
  shows "maps_ok P ms' \<and> map_key ` set ms' \<subseteq> map_key ` set ms \<and> unat entries' = length ms' + n \<and> entries' \<le> entries"
  using assms(1,2) aged
proof (induction entries ms arbitrary: entries' ms' n rule: age_autorp_list.induct)
  case (2 entries m ms)
  have k: "map_key (m\<lparr>am_holdtime := x\<rparr>) = map_key m" for x by (simp add: map_key_def)
  have ok: "maps_ok P ms" "map_key m \<notin> map_key ` set ms" "P m" using "2.prems"(1) by (auto simp: maps_ok_def)
  show ?case
  proof (cases "am_holdtime m = autorp_holdtime_forever \<or> am_holdtime m > timer_interval")
    case True
    define m' where "m' = (if am_holdtime m = autorp_holdtime_forever then m else m\<lparr>am_holdtime := am_holdtime m - timer_interval\<rparr>)"
    obtain e t where t: "age_autorp_list entries ms = (e, t)" by fastforce
    have r: "entries' = e" "ms' = m' # t" using "2.prems"(3) True t by (auto simp: m'_def split: if_splits)
    have "maps_ok P t \<and> map_key ` set t \<subseteq> map_key ` set ms \<and> unat e = length t + Suc n \<and> e \<le> entries"
      using "2.IH"(1) [OF _ ok(1) _ t, of "Suc n"] "2.IH"(2) [OF _ _ ok(1) _ t, of "Suc n"] "2.prems"(2) True by auto
    moreover have "P m'" "map_key m' = map_key m" using ok(3) P k by (simp_all add: m'_def)
    ultimately show ?thesis using ok(2) r by (auto simp: maps_ok_def)
  next
    case False
    have e: "0 < entries" using "2.prems"(2) by (simp add: word_less_nat_alt)
    then have "unat (entries - 1) = length ms + n" "entries - 1 \<le> entries" using "2.prems"(2) unat_dec [OF e] by (simp_all add: word_le_nat_alt)
    moreover have "age_autorp_list (entries - 1) ms = (entries', ms')" using "2.prems"(3) False e by simp
    ultimately show ?thesis using "2.IH"(3) [of n entries' ms'] ok(1) False e by (auto intro: order.trans)
  qed
qed simp

lemma map_ok_holdtime [simp]: "map_ok (m\<lparr>am_holdtime := x\<rparr>) = map_ok m"
  by (simp add: map_ok_def)

lemma mapping_holdtime: "mapping_ok m \<Longrightarrow> mapping_ok (m\<lparr>am_holdtime := x\<rparr>)" "announcement_ok m \<Longrightarrow> announcement_ok (m\<lparr>am_holdtime := x\<rparr>)"
  by (simp_all add: mapping_ok_def announcement_ok_def)

text \<open>The state once the lists have lists_aged.\<close>

definition lists_aged :: "autorp_state \<Rightarrow> autorp_state" where
  "lists_aged st =
     (let (e, maps) = age_autorp_list (autorp_entries st) (autorp_maps st); (e, announced) = age_autorp_list e (autorp_announced st)
      in st\<lparr>ar_rp := (ar_rp st)\<lparr>rs_autorp := maps\<rparr>, autorp_announced := announced, autorp_entries := e\<rparr>)"

lemma aged_ok:
  assumes "autorp_ok st"
  shows "autorp_ok (lists_aged st)"
proof -
  obtain e maps where m: "age_autorp_list (autorp_entries st) (autorp_maps st) = (e, maps)" by fastforce
  obtain e' announced where a: "age_autorp_list e (autorp_announced st) = (e', announced)" by fastforce
  have ok: "maps_ok mapping_ok (autorp_maps st)" "maps_ok announcement_ok (autorp_announced st)"
    "unat (autorp_entries st) = length (autorp_maps st) + length (autorp_announced st)" using assms by (simp_all add: autorp_ok_def)
  note 1 = age_list [OF ok(1,3) mapping_holdtime(1) m]
  have "unat e = length (autorp_announced st) + length maps" using 1 by simp
  note 2 = age_list [OF ok(2) this mapping_holdtime(2) a]
  show ?thesis using 1 2 assms m a by (auto simp: lists_aged_def autorp_ok_def Let_def intro: order.trans)
qed


section \<open>Announcing\<close>

definition recounts :: "autorp_state \<Rightarrow> autorp_state \<Rightarrow> bool" where
  "recounts st st' \<longleftrightarrow> st' = st\<lparr>autorp_entries := autorp_entries st', autorp_announced := autorp_announced st'\<rparr>"

lemma recounts_simps [simp]: "recounts st st" "recounts st (st\<lparr>autorp_entries := e, autorp_announced := a\<rparr>)"
  by (simp_all add: recounts_def)

lemma recounts_trans: "recounts a b \<Longrightarrow> recounts b c \<Longrightarrow> recounts a c"
  by (cases a; cases b; cases c) (simp add: recounts_def)

lemma announced_learn_recounts: "recounts st (autorp_announced_learn mem from_addr rp holdtime grp masklen negative st)"
  by (simp add: autorp_announced_learn_def Let_def split: option.split)

lemma accept_loop_recounts:
  "accept_loop n mem from_addr hdr buf c pfx st = Some st' \<Longrightarrow> ah_type hdr = autorp_type_announce \<Longrightarrow> recounts st st'"
proof (induction n arbitrary: c pfx st)
  case (Suc n)
  obtain rc c1 p1 where nx: "autorp_parse_next buf c pfx = Some (rc, c1, p1)" using Suc.prems(1) by (auto split: bind_splits)
  show ?case
  proof (cases "rc = AUTORP_PARSE_PREFIX")
    case True
    let ?s = "autorp_prefix_heard (mem n) from_addr hdr p1 st"
    have "recounts st ?s" using Suc.prems(2) by (simp add: autorp_prefix_heard_def announced_learn_recounts)
    moreover have "recounts ?s st'" using Suc.IH [of c1 p1 ?s] Suc.prems nx True by auto
    ultimately show ?thesis by (rule recounts_trans)
  next
    case False
    then show ?thesis using Suc.prems(1) nx by auto
  qed
qed simp

lemma announce_hdr_reads:
  "autorp_parse_hdr (hdr_bytes 1 1 holdtime @ post) =
    Some (Inr (\<lparr>c_p = 8, c_left = length (hdr_bytes 1 1 holdtime @ post) - 8, ac_rpcnt = 1, ac_grpcnt = 0, ac_rp_addr = 0\<rparr>,
      \<lparr>ah_version = 1, ah_type = 1, ah_rpcnt = 1, ah_holdtime = holdtime\<rparr>))"
  by (simp add: autorp_parse_hdr_def autorp_lens hdr_bytes_def be16b_def rd_def get_hostshort_def autorp_version_of_def autorp_type_of_def)

definition announce_bytes :: "autorp_state \<Rightarrow> bytes" where
  "announce_bytes st = hdr_bytes 1 1 (autorp_announce_holdtime st) @ block_bytes (autorp_announce_addr st, map px_grp (autorp_prefix_list st))"

lemma send_announce_eq:
  assumes "autorp_msg_max \<le> length buf" "autorp_prefix_list st \<noteq> []" "length (autorp_prefix_list st) \<le> 168"
  shows "autorp_send_announce mem sel uvifs buf st =
    (let acts = autorp_send sel uvifs autorp_announce_group (autorp_announce_ttl st) (announce_bytes st) st in
     if autorp_agent_flag st then do { st \<leftarrow> accept_autorp mem (autorp_announce_addr st) (announce_bytes st) st; Some (st, acts) }
     else Some (st, acts))"
proof -
  let ?w = "pim_writer_init buf 0 autorp_msg_max" and ?l = "autorp_prefix_list st"
  have i: "writer_inv 0 autorp_msg_max buf ?w" "\<not> w_full ?w" "w_left ?w = autorp_msg_max" "written 0 ?w = []"
    using assms(1) by (simp_all add: writer_inv_def pim_writer_init_def written_def)
  obtain w1 where w1: "autorp_encode_hdr ?w (of_nat autorp_type_announce) 1 (autorp_announce_holdtime st) = Some (True, w1)"
      "wrote autorp_msg_max buf ?w (hdr_bytes 1 1 (autorp_announce_holdtime st)) w1"
    using encode_hdr_fits [OF i(1,2), of 1 1 "autorp_announce_holdtime st"] i(3) by (auto simp: autorp_msg_max_def autorp_type_announce_def)
  have l1: "writer_inv 0 autorp_msg_max buf w1" "\<not> w_full w1" "w_left w1 = 1016" using w1(2) i(3) by (simp_all add: wrote_def autorp_msg_max_def)
  obtain w2 where w2: "autorp_encode_rp w1 (autorp_announce_addr st) (of_nat (length ?l)) = Some (True, w2)"
      "wrote autorp_msg_max buf w1 (mem32 (autorp_announce_addr st) @ [2, ucast (of_nat (length ?l) :: u32)]) w2"
    using encode_rp_fits [OF l1(1,2), of "autorp_announce_addr st" "of_nat (length ?l)"] l1(3) by auto
  have l2: "writer_inv 0 autorp_msg_max buf w2" "\<not> w_full w2" "6 * length (map px_grp ?l) \<le> w_left w2"
    using w2(2) l1(3) assms(3) by (simp_all add: wrote_def)
  obtain w3 where w3: "put_grps (map px_grp ?l) w2 = Some w3" "wrote autorp_msg_max buf w2 (concat (map grp_bytes (map px_grp ?l))) w3"
    using put_grps_fit [OF l2] by blast
  have "written 0 w3 = announce_bytes st" "\<not> w_full w3"
    using w1(2) w2(2) w3(2) i(4) by (simp_all add: wrote_def announce_bytes_def block_bytes_def ucast_count)
  moreover have "\<not> autorp_hdr_len + autorp_rp_len + length ?l * autorp_grp_len > autorp_msg_max" using assms(3) by (simp add: autorp_lens autorp_msg_max_def)
  ultimately show ?thesis using assms(2) w1(1) w2(1) w3(1) by (simp add: autorp_send_announce_def announce_prefixes_eq Let_def)
qed


lemma announce_accept_recounts: "accept_autorp mem from_addr (hdr_bytes 1 1 holdtime @ post) st = Some st' \<Longrightarrow> recounts st st'"
  unfolding accept_autorp_def announce_hdr_reads
  by (auto simp: agent_heard_def autorp_type_mapping_def autorp_version_def dest!: accept_loop_recounts split: if_splits)

lemma send_announce_returns:
  assumes "autorp_msg_max \<le> length buf" "autorp_ok st"
  shows "\<exists>st' acts. autorp_send_announce mem sel uvifs buf st = Some (st', acts) \<and> autorp_ok st' \<and> recounts st st'"
proof (cases "autorp_prefix_list st = [] \<or> 168 < length (autorp_prefix_list st)")
  case True
  then have "autorp_send_announce mem sel uvifs buf st = Some (st, [])" by (auto simp: autorp_send_announce_def autorp_lens autorp_msg_max_def Let_def)
  then show ?thesis using assms(2) by simp
next
  case False
  then have e: "autorp_prefix_list st \<noteq> []" "length (autorp_prefix_list st) \<le> 168" by auto
  obtain st' where st': "accept_autorp mem (autorp_announce_addr st) (announce_bytes st) st = Some st'" "autorp_ok st'"
    using accept_autorp_ok [OF assms(2)] by blast
  then have "recounts st st'" using announce_accept_recounts unfolding announce_bytes_def by blast
  then show ?thesis using st' assms(2) unfolding send_announce_eq [OF assms(1) e] by (simp add: Let_def)
qed

text \<open>A turn of the clock: the lists age, the announcement goes out when its time has come, and the timer of a better agent runs.\<close>

lemma recounts_fields:
  assumes "recounts st st'"
  shows "autorp_agent_better st' = autorp_agent_better st" "autorp_agent_better_timer st' = autorp_agent_better_timer st"
    "autorp_agent_flag st' = autorp_agent_flag st" "autorp_agent_timer st' = autorp_agent_timer st"
    "autorp_agent_interval st' = autorp_agent_interval st" "autorp_agent_addr st' = autorp_agent_addr st" "autorp_limit st' = autorp_limit st"
    "ar_rp st' = ar_rp st"
  using assms by (cases st; cases st'; simp add: recounts_def)+

lemma aged_fields [simp]:
  "autorp_agent_better (lists_aged st) = autorp_agent_better st" "autorp_agent_better_timer (lists_aged st) = autorp_agent_better_timer st"
  "autorp_agent_flag (lists_aged st) = autorp_agent_flag st" "autorp_agent_timer (lists_aged st) = autorp_agent_timer st"
  "autorp_agent_interval (lists_aged st) = autorp_agent_interval st" "autorp_agent_addr (lists_aged st) = autorp_agent_addr st"
  by (simp_all add: lists_aged_def Let_def split_def)

lemma autorp_ok_timers [simp]:
  "autorp_ok (st\<lparr>autorp_announce_timer := x\<rparr>) = autorp_ok st" "autorp_ok (st\<lparr>autorp_agent_timer := x\<rparr>) = autorp_ok st"
  "autorp_ok (st\<lparr>autorp_agent_better_timer := x\<rparr>) = autorp_ok st" "autorp_ok (st\<lparr>autorp_agent_better := y\<rparr>) = autorp_ok st"
  by (simp_all add: autorp_ok_def)

definition announces :: "(nat \<Rightarrow> bool) \<Rightarrow> (nat \<Rightarrow> bool) \<Rightarrow> uvif list \<Rightarrow> bytes \<Rightarrow> autorp_state \<Rightarrow> (autorp_state \<times> autorp_act list) option" where
  "announces mem sel uvifs buf st =
     (if autorp_announce_flag st then
        let st = st\<lparr>autorp_announce_timer := timer_tick (autorp_announce_timer st)\<rparr> in
        if autorp_announce_timer st = 0 then do {
          (st, acts) \<leftarrow> autorp_send_announce mem sel uvifs buf st;
          Some (st\<lparr>autorp_announce_timer := autorp_announce_interval st\<rparr>, acts) }
        else Some (st, [])
      else Some (st, []))"

lemma announces_returns:
  assumes "autorp_msg_max \<le> length buf" "autorp_ok st"
  shows "\<exists>st' acts x. announces mem sel uvifs buf st = Some (st', acts) \<and> autorp_ok st' \<and> recounts (st\<lparr>autorp_announce_timer := x\<rparr>) st'"
proof -
  let ?s = "st\<lparr>autorp_announce_timer := timer_tick (autorp_announce_timer st)\<rparr>"
  obtain st' acts where s: "autorp_send_announce mem sel uvifs buf ?s = Some (st', acts)" "autorp_ok st'" "recounts ?s st'"
    using send_announce_returns [OF assms(1), of ?s mem sel uvifs] assms(2) by auto
  have t: "recounts (st\<lparr>autorp_announce_timer := y\<rparr>) (st'\<lparr>autorp_announce_timer := y\<rparr>)" for y
    using s(3) by (cases st; cases st') (simp add: recounts_def)
  show ?thesis
  proof (cases "autorp_announce_flag st \<and> timer_tick (autorp_announce_timer st) = 0")
    case True
    then have "announces mem sel uvifs buf st = Some (st'\<lparr>autorp_announce_timer := autorp_announce_interval st'\<rparr>, acts)" using s(1) by (simp add: announces_def)
    then show ?thesis using s(2) t [of "autorp_announce_interval st'"] by auto
  next
    case False
    define y where "y = (if autorp_announce_flag st then timer_tick (autorp_announce_timer st) else autorp_announce_timer st)"
    have "announces mem sel uvifs buf st = Some (st\<lparr>autorp_announce_timer := y\<rparr>, [])" using False by (auto simp: announces_def y_def)
    then show ?thesis using assms(2) recounts_simps(1) [of "st\<lparr>autorp_announce_timer := y\<rparr>"] autorp_ok_timers(1) by blast
  qed
qed

definition better_ticks :: "autorp_state \<Rightarrow> autorp_state" where
  "better_ticks st =
     (if autorp_agent_better st \<noteq> 0 then
        let st = st\<lparr>autorp_agent_better_timer := timer_tick (autorp_agent_better_timer st)\<rparr> in
        if autorp_agent_better_timer st = 0 then st\<lparr>autorp_agent_better := 0\<rparr> else st
      else st)"

lemma age_autorp_eq:
  "age_autorp mem sel uvifs buf st = do {
     (st, acts) \<leftarrow> announces mem sel uvifs buf (lists_aged st);
     let st = better_ticks st;
     (if autorp_agent_flag st then
        let st = st\<lparr>autorp_agent_timer := timer_tick (autorp_agent_timer st)\<rparr> in
        if autorp_agent_timer st = 0 then do {
          acts' \<leftarrow> autorp_send_mapping sel uvifs buf st;
          Some (st\<lparr>autorp_agent_timer := autorp_agent_interval st\<rparr>, acts @ acts') }
        else Some (st, acts)
      else Some (st, acts)) }"
  by (simp add: age_autorp_def announces_def better_ticks_def lists_aged_def Let_def split_def)


lemma better_ticks_fields [simp]:
  "autorp_ok (better_ticks st) = autorp_ok st" "autorp_agent_flag (better_ticks st) = autorp_agent_flag st"
  "autorp_agent_timer (better_ticks st) = autorp_agent_timer st" "autorp_agent_interval (better_ticks st) = autorp_agent_interval st"
  "autorp_agent_addr (better_ticks st) = autorp_agent_addr st"
  by (simp_all add: better_ticks_def Let_def)

lemma send_mapping_returns:
  assumes "autorp_msg_max \<le> length buf"
  shows "\<exists>acts. autorp_send_mapping sel uvifs buf st = Some acts \<and> (autorp_agent_better st \<noteq> 0 \<longrightarrow> acts = [])"
  using send_mapping_eq [OF assms, of st sel uvifs] by (cases "autorp_agent_better st = 0") (auto simp: autorp_send_mapping_def)

text \<open>A better agent is remembered until its timer has run out, and then no more.\<close>

definition is_mapping :: "autorp_act \<Rightarrow> bool" where
  "is_mapping a = (case a of AUTORP_SEND vifi grp ttl msg \<Rightarrow> grp = htonl autorp_discovery_group | _ \<Rightarrow> False)"

lemma autorp_groups_differ: "autorp_announce_group \<noteq> autorp_discovery_group"
  by (simp add: autorp_announce_group_def autorp_discovery_group_def)

lemma announce_acts:
  assumes "autorp_msg_max \<le> length buf" "autorp_ok st" "announces mem sel uvifs buf st = Some (st', acts)"
  shows "\<not> list_ex is_mapping acts"
proof -
  have send: "\<not> list_ex is_mapping (autorp_send sel uvifs autorp_announce_group ttl msg s)" for ttl msg s
    using autorp_groups_differ by (auto simp: autorp_send_def is_mapping_def list_ex_iff)
  have "\<not> list_ex is_mapping acts" if "autorp_send_announce mem sel uvifs buf s = Some (s', acts)" for s s' acts
  proof (cases "autorp_prefix_list s = [] \<or> 168 < length (autorp_prefix_list s)")
    case True
    then have "autorp_send_announce mem sel uvifs buf s = Some (s, [])" by (auto simp: autorp_send_announce_def autorp_lens autorp_msg_max_def Let_def)
    then show ?thesis using that by simp
  next
    case False
    then have e: "autorp_prefix_list s \<noteq> []" "length (autorp_prefix_list s) \<le> 168" by auto
    show ?thesis using that send unfolding send_announce_eq [OF assms(1) e] by (auto simp: Let_def split: if_splits bind_splits)
  qed
  then show ?thesis using assms(3) by (auto simp: announces_def Let_def split: if_splits bind_splits)
qed

lemma age_autorp_turn:
  assumes "autorp_msg_max \<le> length buf" "autorp_ok st"
  shows "\<exists>st' acts. age_autorp mem sel uvifs buf st = Some (st', acts) \<and> autorp_ok st' \<and>
    autorp_agent_better st' = (if timer_tick (autorp_agent_better_timer st) = 0 then 0 else autorp_agent_better st) \<and>
    (autorp_agent_better st \<noteq> 0 \<longrightarrow> autorp_agent_better_timer st' = timer_tick (autorp_agent_better_timer st)) \<and>
    autorp_agent_flag st' = autorp_agent_flag st \<and> autorp_agent_interval st' = autorp_agent_interval st \<and>
    autorp_agent_addr st' = autorp_agent_addr st \<and>
    (autorp_agent_better st' \<noteq> 0 \<longrightarrow> \<not> list_ex is_mapping acts) \<and>
    (autorp_agent_flag st \<longrightarrow> autorp_agent_timer st' =
      (if timer_tick (autorp_agent_timer st) = 0 then autorp_agent_interval st else timer_tick (autorp_agent_timer st)))"
proof -
  obtain s acts x where s: "announces mem sel uvifs buf (lists_aged st) = Some (s, acts)" "autorp_ok s" "recounts ((lists_aged st)\<lparr>autorp_announce_timer := x\<rparr>) s"
    using announces_returns [OF assms(1) aged_ok [OF assms(2)]] by blast
  note f = recounts_fields [OF s(3), simplified]
  let ?s = "better_ticks s"
  let ?t = "?s\<lparr>autorp_agent_timer := timer_tick (autorp_agent_timer ?s)\<rparr>"
  obtain acts' where a: "autorp_send_mapping sel uvifs buf ?t = Some acts'" "autorp_agent_better ?t \<noteq> 0 \<longrightarrow> acts' = []"
    using send_mapping_returns [OF assms(1)] by blast
  have b: "autorp_agent_better ?s = (if timer_tick (autorp_agent_better_timer st) = 0 then 0 else autorp_agent_better st)"
    "autorp_agent_better st \<noteq> 0 \<longrightarrow> autorp_agent_better_timer ?s = timer_tick (autorp_agent_better_timer st)"
    using f by (auto simp: better_ticks_def Let_def)
  have n: "\<not> list_ex is_mapping acts" by (rule announce_acts [OF assms(1) aged_ok [OF assms(2)] s(1)])
  define r where "r = (if autorp_agent_flag st then if timer_tick (autorp_agent_timer st) = 0
      then (?t\<lparr>autorp_agent_timer := autorp_agent_interval st\<rparr>, acts @ acts') else (?t, acts) else (?s, acts))"
  have "age_autorp mem sel uvifs buf st = Some r" using s(1) a(1) f by (cases "timer_tick (autorp_agent_timer st) = 0") (simp_all add: age_autorp_eq r_def Let_def)
  moreover have "autorp_ok (fst r)" using s(2) by (simp add: r_def)
  moreover have "autorp_agent_better (fst r) = autorp_agent_better ?s" "autorp_agent_better_timer (fst r) = autorp_agent_better_timer ?s"
    "autorp_agent_flag (fst r) = autorp_agent_flag st" "autorp_agent_interval (fst r) = autorp_agent_interval st" "autorp_agent_addr (fst r) = autorp_agent_addr st"
    using f by (simp_all add: r_def)
  moreover have "autorp_agent_better ?s \<noteq> 0 \<longrightarrow> \<not> list_ex is_mapping (snd r)" using n a(2) by (auto simp: r_def)
  moreover have "autorp_agent_flag st \<longrightarrow> autorp_agent_timer (fst r) =
      (if timer_tick (autorp_agent_timer st) = 0 then autorp_agent_interval st else timer_tick (autorp_agent_timer st))" using f by (simp add: r_def)
  ultimately show ?thesis unfolding b(1) using b(2) by (intro exI [of _ "fst r"] exI [of _ "snd r"]) simp
qed



section \<open>A better agent\<close>

definition agent_part :: "autorp_state \<Rightarrow> bool \<times> u32 \<times> u16 \<times> u32 \<times> u16" where
  "agent_part st = (autorp_agent_flag st, autorp_agent_addr st, autorp_agent_interval st, autorp_agent_better st, autorp_agent_better_timer st)"

lemma heard_agent_part [simp]: "agent_part (autorp_prefix_heard mem from_addr hdr pfx st) = agent_part st"
  by (auto simp: agent_part_def autorp_prefix_heard_def autorp_learn_def autorp_announced_learn_def Let_def split: option.split)

lemma accept_loop_agent_part: "accept_loop n mem from_addr hdr buf c pfx st = Some st' \<Longrightarrow> agent_part st' = agent_part st"
proof (induction n arbitrary: c pfx st)
  case (Suc n)
  then show ?case by (fastforce split: bind_splits if_splits)
qed simp

fun autorp_turns ::
    "(nat \<Rightarrow> bool) \<Rightarrow> (nat \<Rightarrow> bool) \<Rightarrow> uvif list \<Rightarrow> bytes \<Rightarrow> nat \<Rightarrow> autorp_state \<Rightarrow> (autorp_state \<times> autorp_act list) option" where
  "autorp_turns mem sel uvifs buf 0 st = Some (st, [])"
| "autorp_turns mem sel uvifs buf (Suc n) st = do {
     (st, a) \<leftarrow> age_autorp mem sel uvifs buf st;
     (st, b) \<leftarrow> autorp_turns mem sel uvifs buf n st;
     Some (st, a @ b) }"

lemma autorp_turns_quiet:
  assumes "autorp_msg_max \<le> length buf"
  shows "autorp_ok st \<Longrightarrow> autorp_agent_better st \<noteq> 0 \<Longrightarrow> \<exists>st' acts. autorp_turns mem sel uvifs buf n st = Some (st', acts) \<and> autorp_ok st' \<and>
    (5 * n < unat (autorp_agent_better_timer st) \<longrightarrow> autorp_agent_better st' = autorp_agent_better st \<and> \<not> list_ex is_mapping acts \<and>
      unat (autorp_agent_better_timer st') = unat (autorp_agent_better_timer st) - 5 * n)"
proof (induction n arbitrary: st)
  case (Suc n)
  note t = age_autorp_turn [OF assms Suc.prems(1), of mem sel uvifs]
  then obtain s a where s: "age_autorp mem sel uvifs buf st = Some (s, a)" "autorp_ok s"
    "autorp_agent_better s = (if timer_tick (autorp_agent_better_timer st) = 0 then 0 else autorp_agent_better st)"
    "autorp_agent_better_timer s = timer_tick (autorp_agent_better_timer st)" "autorp_agent_better s \<noteq> 0 \<longrightarrow> \<not> list_ex is_mapping a"
    using Suc.prems(2) by blast
  show ?case
  proof (cases "timer_tick (autorp_agent_better_timer st) = 0")
    case True
    then have "unat (autorp_agent_better_timer st) \<le> 5" using tick_unat [of "autorp_agent_better_timer st"] by simp
    moreover have "\<exists>st' acts. autorp_turns mem sel uvifs buf n s = Some (st', acts) \<and> autorp_ok st'" using s(2)
    proof (induction n arbitrary: s)
      case (Suc n)
      then show ?case using age_autorp_turn [OF assms Suc.prems, of mem sel uvifs] by fastforce
    qed simp
    ultimately show ?thesis using s(1) by auto
  next
    case False
    from Suc.IH [OF s(2)] False s(3) Suc.prems(2) obtain st' b where b: "autorp_turns mem sel uvifs buf n s = Some (st', b)" "autorp_ok st'"
      "5 * n < unat (autorp_agent_better_timer s) \<longrightarrow> autorp_agent_better st' = autorp_agent_better s \<and> \<not> list_ex is_mapping b \<and>
        unat (autorp_agent_better_timer st') = unat (autorp_agent_better_timer s) - 5 * n" by auto
    moreover have "unat (autorp_agent_better_timer s) = unat (autorp_agent_better_timer st) - 5" by (simp add: s(4) tick_unat)
    ultimately show ?thesis using s(1,3,5) False Suc.prems(2) by auto
  qed
qed simp

lemma autorp_turns_speaks:
  assumes "autorp_msg_max \<le> length buf"
  shows "autorp_ok st \<Longrightarrow> autorp_agent_better st = 0 \<or> unat (autorp_agent_better_timer st) \<le> 5 * n \<and> 0 < n \<Longrightarrow>
    autorp_turns mem sel uvifs buf n st = Some (st', acts) \<Longrightarrow> autorp_agent_better st' = 0"
proof (induction n arbitrary: st st' acts)
  case (Suc n)
  obtain s a where s: "age_autorp mem sel uvifs buf st = Some (s, a)" "autorp_ok s"
    "autorp_agent_better s = (if timer_tick (autorp_agent_better_timer st) = 0 then 0 else autorp_agent_better st)"
    "autorp_agent_better st \<noteq> 0 \<longrightarrow> autorp_agent_better_timer s = timer_tick (autorp_agent_better_timer st)"
    using age_autorp_turn [OF assms Suc.prems(1), of mem sel uvifs] by blast
  obtain b where b: "autorp_turns mem sel uvifs buf n s = Some (st', b)" using Suc.prems(3) s(1) by (auto split: bind_splits)
  have "autorp_agent_better s = 0 \<or> unat (autorp_agent_better_timer s) \<le> 5 * n \<and> 0 < n"
  proof (cases "autorp_agent_better s = 0")
    case False
    then have "timer_tick (autorp_agent_better_timer st) \<noteq> 0" "autorp_agent_better st \<noteq> 0" using s(3) by (auto split: if_splits)
    moreover have "unat (timer_tick (autorp_agent_better_timer st)) \<noteq> 0" using calculation(1) by (simp add: unat_eq_0)
    ultimately show ?thesis using Suc.prems(2) s(4) tick_unat [of "autorp_agent_better_timer st"] by auto
  qed simp
  then show ?case using Suc.IH [OF s(2) _ b] by simp
qed simp


section \<open>The relay\<close>

definition udp_pseudo :: "u32 \<Rightarrow> u32 \<Rightarrow> nat \<Rightarrow> bytes" where
  "udp_pseudo src dst n = mem32 src @ mem32 dst @ [0, 17] @ be16b (of_nat n)"

lemma udp_cksum_eq:
  assumes "12 + autorp_relay_max \<le> length buf" "length udp \<le> autorp_relay_max"
  shows "autorp_udp_cksum buf src dst udp = Some (inet_cksum (udp_pseudo src dst (length udp) @ udp))"
proof -
  let ?w = "pim_writer_init buf 0 (12 + autorp_relay_max)"
  let ?cs = "[mem32 src, mem32 dst, [0], [17], be16b (of_nat (length udp)), udp]"
  have i: "writer_inv 0 (12 + autorp_relay_max) buf ?w" "\<not> w_full ?w" "w_left ?w = 12 + autorp_relay_max" "written 0 ?w = []"
    using assms(1) by (simp_all add: writer_inv_def pim_writer_init_def written_def)
  have c: "concat ?cs = udp_pseudo src dst (length udp) @ udp" "length (udp_pseudo src dst (length udp) @ udp) = 12 + length udp"
    by (simp_all add: udp_pseudo_def be16b_def)
  obtain w where w: "puts pim_put ?w ?cs = Some w" "wrote (12 + autorp_relay_max) buf ?w (concat ?cs) w"
    using wrote_puts [OF i(1,2), of ?cs] assms(2) i(3) unfolding c by auto
  have p: "w_p w = 12 + length udp" "\<not> w_full w" "written 0 w = udp_pseudo src dst (length udp) @ udp"
    using w(2) assms(2) i(3,4) c unfolding wrote_def writer_inv_def by auto
  then have "take (12 + length udp) (w_mem w) = udp_pseudo src dst (length udp) @ udp" by (simp add: written_def)
  then show ?thesis using w(1) p(2) assms(2) by (auto simp: autorp_udp_cksum_def put_simps split_def split: bind_splits)
qed

lemma mem16_zero: "mem16 0 = [0, 0]"
  by (simp add: mem16_def)

lemma relay_udp_split: "relay_udp n c msg = (be16b autorp_port @ be16b autorp_port @ be16b (of_nat n)) @ mem16 c @ msg"
  by (simp add: relay_udp_def)

lemma relay_cksum:
  assumes "12 + autorp_relay_max \<le> length buf" "28 + length msg \<le> autorp_relay_max"
  shows "\<exists>c. autorp_udp_cksum buf src dst (relay_udp (8 + length msg) 0 msg) = Some c \<and>
    inet_cksum (udp_pseudo src dst (8 + length msg) @ relay_udp (8 + length msg) c msg) = 0"
proof -
  let ?n = "8 + length msg"
  let ?pre = "udp_pseudo src dst ?n @ be16b autorp_port @ be16b autorp_port @ be16b (of_nat ?n)"
  have l: "length (relay_udp ?n 0 msg) = ?n" "even (length ?pre)" "length ?pre = 18" by (simp_all add: relay_udp_def be16b_def mem16_def udp_pseudo_def)
  have "inet_cksum (?pre @ [ucast c, ucast (drop_bit 8 c)] @ msg) = 0" if "c = inet_cksum (?pre @ [0, 0] @ msg)" for c
    by (rule inet_cksum_complement [OF l(2) _ that]) (use l(3) assms(2) in \<open>simp add: autorp_relay_max_def\<close>)
  note v = this [OF refl]
  have e: "udp_pseudo src dst ?n @ relay_udp ?n c msg = ?pre @ mem16 c @ msg" for c by (simp add: relay_udp_split)
  have "length (relay_udp ?n 0 msg) \<le> autorp_relay_max" using assms(2) l(1) by simp
  from udp_cksum_eq [OF assms(1) this, of src dst] have "autorp_udp_cksum buf src dst (relay_udp ?n 0 msg) = Some (inet_cksum (?pre @ [0, 0] @ msg))"
    unfolding l(1) e mem16_zero .
  then show ?thesis using v unfolding e mem16_def by blast
qed

lemma relay_returns:
  assumes "12 + autorp_relay_max \<le> length buf"
  shows "\<exists>acts x. autorp_relay buf uvifs from_addr grp ttl iif msg st = Some (st\<lparr>autorp_relay_id := x\<rparr>, acts)"
proof (cases "\<not> autorp_relay_socket st \<or> ttl \<le> 1 \<or> 28 + length msg > autorp_relay_max")
  case True
  then have "autorp_relay buf uvifs from_addr grp ttl iif msg st = Some (st\<lparr>autorp_relay_id := autorp_relay_id st\<rparr>, [])"
    by (auto simp: autorp_relay_def Let_def)
  then show ?thesis by blast
next
  case False
  then show ?thesis using relay_cksum [OF assms, of msg from_addr grp] by (auto simp: autorp_relay_def Let_def)
qed


section \<open>Every turn of events\<close>

interpretation held: rp_invariant "\<lambda>st. rp_shape_ok st \<and> rs_autorp st = M" for M
proof
  fix st st' :: rp_state assume "rs_main st' = rs_main st" "rs_set_entries st' = rs_set_entries st" "rs_set_limit st' = rs_set_limit st" "rs_autorp st' = rs_autorp st"
  then show "(rp_shape_ok st' \<and> rs_autorp st' = M) = (rp_shape_ok st \<and> rs_autorp st = M)" using rp_shape_frame [of st' st] by simp
next
  fix st g assume "rp_shape_ok st \<and> rs_autorp st = M"
  then show "rp_shape_ok (remap_grpentry g st) \<and> rs_autorp (remap_grpentry g st) = M" using shp.remap rest_autorp [OF rest_remap] by metis
next
  fix st n i assume "rp_shape_ok st \<and> rs_autorp st = M" "n < length (ranges st)" "i < length (gm_grp_rp (ranges st ! n))"
  then show "rp_shape_ok (delete_rp_grp_entry False n i st) \<and> rs_autorp (delete_rp_grp_entry False n i st) = M"
    using shp.delete_entry retimes_autorp [OF retimes_delete_entry] by metis
next
  fix st n assume "rp_shape_ok st \<and> rs_autorp st = M" "n < length (ranges st)"
  then show "rp_shape_ok (delete_grp_mask_entry False n st) \<and> rs_autorp (delete_grp_mask_entry False n st) = M"
    using shp.delete_range rest_autorp [OF rest_delete_mask] by metis
next
  fix st n i and e :: rp_grp_entry assume "rp_shape_ok st \<and> rs_autorp st = M" "n < length (ranges st)" "i < length (gm_grp_rp (ranges st ! n))"
    "re_rp e = re_rp (gm_grp_rp (ranges st ! n) ! i)" "re_priority e = re_priority (gm_grp_rp (ranges st ! n) ! i)"
    "re_grplink e = re_grplink (gm_grp_rp (ranges st ! n) ! i)"
  then show "rp_shape_ok (put_lists False (upd_entry n i (\<lambda>_. e) (used_lists False st)) st) \<and>
      rs_autorp (put_lists False (upd_entry n i (\<lambda>_. e) (used_lists False st)) st) = M"
    using shp.put_entry [of st n i e] by (simp add: put_lists_def)
next
  fix st k b p t a h tag origin assume "rp_shape_ok st \<and> rs_autorp st = M" "inet_valid_mask (ntohl k)"
  then show "rp_shape_ok (snd (add_rp_grp_entry_from False b p t a k h tag origin st)) \<and>
      rs_autorp (snd (add_rp_grp_entry_from False b p t a k h tag origin st)) = M" using shp.add by simp
qed (simp add: rp_shape_ok_def set_shape_def)

lemma rp_step_autorp:
  assumes "rp_step (ar_rp st) rp" "autorp_ok st"
  shows "autorp_ok (st\<lparr>ar_rp := rp\<rparr>)"
proof -
  have "rp_shape_ok rp \<and> rs_autorp rp = autorp_maps st"
    by (rule held.step [OF assms(1)]) (use assms(2) in \<open>simp_all add: autorp_ok_def rp_shape_ok_def\<close>)
  then show ?thesis using assms(2) by (simp add: autorp_ok_def)
qed

text \<open>What happens to a router: what happens to its RP set, a datagram, the clock, and a change of the configuration.\<close>

inductive autorp_step :: "autorp_state \<Rightarrow> autorp_state \<Rightarrow> bool" where
  rp_set: "rp_step (ar_rp st) rp \<Longrightarrow> autorp_step st (st\<lparr>ar_rp := rp\<rparr>)"
| datagram: "autorp_read mem buf uvifs from_addr iif ttl msg st = Some (st', acts) \<Longrightarrow> 12 + autorp_relay_max \<le> length buf \<Longrightarrow> autorp_step st st'"
| clock: "age_autorp mem sel uvifs buf st = Some (st', acts) \<Longrightarrow> autorp_msg_max \<le> length buf \<Longrightarrow> autorp_step st st'"
| announce: "autorp_step st (autorp_announce_set addr interval holdtime scope st)"
| agent: "autorp_step st (fst (autorp_agent_set uvifs addr interval holdtime scope st))"
| listener: "autorp_step st (autorp_listener_set on st)"
| accept_from: "autorp_step st (snd (autorp_accept_add mem' addr masklen st))"
| prefix: "autorp_step st (snd (autorp_prefix_add mem' grp masklen8 negative st))"
| reset: "autorp_step st (autorp_config_reset st)"
| start: "autorp_step st (fst (init_autorp opened relay uvifs st))"
| stop: "autorp_step st (stop_autorp st)"
| limit: "autorp_maps st = [] \<Longrightarrow> autorp_announced st = [] \<Longrightarrow> autorp_step st (st\<lparr>autorp_limit := l\<rparr>)"

lemma autorp_read_ok:
  assumes "autorp_ok st" "12 + autorp_relay_max \<le> length buf"
  shows "\<exists>st' acts. autorp_read mem buf uvifs from_addr iif ttl msg st = Some (st', acts) \<and> autorp_ok st'"
proof -
  define R where "R r \<longleftrightarrow> (\<exists>x acts. r = Some (st\<lparr>autorp_relay_id := x\<rparr>, acts))" for r :: "(autorp_state \<times> autorp_act list) option"
  have "R (Some (st, []))" unfolding R_def by (intro exI [of _ "autorp_relay_id st"] exI [of _ "[]"]) simp
  moreover have "R (autorp_relay buf uvifs from_addr grp ttl vifi msg st)" for grp vifi unfolding R_def using relay_returns [OF assms(2)] by blast
  moreover have "autorp_relay_group msg \<noteq> None" by (cases "msg = []") (simp_all add: autorp_relay_group_def autorp_lens)
  ultimately have "R (if \<not> autorp_listener_flag st then Some (st, [])
        else case iif of
          None \<Rightarrow> Some (st, [])
        | Some vifi \<Rightarrow>
            if ttl < 0 then Some (st, [])
            else if \<not> autorp_accepted_from (autorp_acl_list st) from_addr then Some (st, [])
            else do {
              g \<leftarrow> autorp_relay_group msg;
              (case g of None \<Rightarrow> Some (st, []) | Some grp \<Rightarrow> autorp_relay buf uvifs from_addr grp ttl vifi msg st) })" (is "R ?relay")
    by (auto split: option.split)
  then obtain x acts where r: "?relay = Some (st\<lparr>autorp_relay_id := x\<rparr>, acts)" by (auto simp: R_def)
  have "autorp_ok (st\<lparr>autorp_relay_id := x\<rparr>)" using assms(1) by (simp add: autorp_ok_def)
  then obtain st' where "accept_autorp mem from_addr msg (st\<lparr>autorp_relay_id := x\<rparr>) = Some st'" "autorp_ok st'" using accept_autorp_ok by blast
  then show ?thesis unfolding autorp_read_def r by simp
qed

lemma stop_ok: "autorp_ok st \<Longrightarrow> autorp_ok (stop_autorp st)"
proof -
  have "snd (autorp_list_clear e ms) = []" for e ms by (induction e ms rule: autorp_list_clear.induct) simp_all
  then show "autorp_ok st \<Longrightarrow> autorp_ok (stop_autorp st)"
    by (simp add: stop_autorp_def autorp_maps_clear_def autorp_ok_def maps_ok_def Let_def split_def)
qed

lemma autorp_step_ok: "autorp_step st st' \<Longrightarrow> autorp_ok st \<Longrightarrow> autorp_ok st'"
proof (induction rule: autorp_step.induct)
  case (rp_set st rp)
  then show ?case by (simp add: rp_step_autorp)
next
  case (datagram mem buf uvifs from_addr iif ttl msg st st' acts)
  then show ?case using autorp_read_ok [of st buf mem uvifs from_addr iif ttl msg] by auto
next
  case (clock mem sel uvifs buf st st' acts)
  then show ?case using age_autorp_turn [of buf st mem sel uvifs] by auto
next
  case (stop st)
  then show ?case by (rule stop_ok)
next
  case (limit st l)
  then have "autorp_entries st = 0" by (simp add: autorp_ok_def unat_eq_0)
  then show ?case using limit by (simp add: autorp_ok_def)
qed (simp_all add: autorp_ok_def autorp_announce_set_def autorp_agent_set_def autorp_listener_set_def autorp_accept_add_def
    autorp_prefix_add_def autorp_config_reset_def init_autorp_def Let_def)

lemma autorp_globals_ok: "autorp_ok autorp_globals"
  by code_simp


section \<open>Properties\<close>

text \<open>
  C10: Nothing that reaches a router makes Auto-RP lose count or hold more than its limit.  From the state the daemon starts in, and
  after any sequence of datagrams to the Auto-RP port, Bootstraps and advertisements, turns of the clock and changes of the
  configuration, the mappings and the announcements held are as many as counted and no more than the limit, each is a
  group prefix of a length up to 32 with its host bits clear and is there once for its RP, a denial names no
  RP and every other names a valid host; and the RP set is in shape: ranges and RPs sorted, counted and within the limit,
  the candidate RPs in agreement with them.  In every such state the datagram handler and the clock return.
\<close>
theorem autorp_always_bounded:
  assumes "autorp_step\<^sup>*\<^sup>* autorp_globals st"
  shows "autorp_ok st \<and> (12 + autorp_relay_max \<le> length buf \<longrightarrow> autorp_read mem buf uvifs from_addr iif ttl msg st \<noteq> None) \<and>
    (autorp_msg_max \<le> length buf' \<longrightarrow> age_autorp mem sel uvifs buf' st \<noteq> None)"
proof -
  have ok: "autorp_ok st" using assms by (induction rule: rtranclp_induct) (simp_all add: autorp_globals_ok autorp_step_ok)
  then show ?thesis
    using autorp_read_ok [OF ok, of buf mem uvifs from_addr iif ttl msg] age_autorp_turn [of buf' st mem sel uvifs] by auto
qed

definition heard_mapping :: bytes where
  "heard_mapping = [0x12, 1, 0, 180, 0, 0, 0, 0, 10, 0, 0, 1, 2, 2, 0, 8, 239, 0, 0, 0, 1, 16, 239, 9, 0, 0]"

text \<open>The datagram says two things: 10.0.0.1 for 239.0.0.0/8, and no RP for 239.9.0.0/16.\<close>

theorem autorp_always_bounded_witness:
  "\<exists>st acts. autorp_read (\<lambda>_. True) (replicate 2060 0) [] 0x0500000a None 1 heard_mapping autorp_globals = Some (st, acts) \<and> autorp_ok st \<and>
     age_autorp (\<lambda>_. True) (\<lambda>_. True) [] (replicate 1024 0) st \<noteq> None"
proof -
  obtain st acts where st: "autorp_read (\<lambda>_. True) (replicate 2060 0) [] 0x0500000a None 1 heard_mapping autorp_globals = Some (st, acts)"
    using autorp_read_ok [OF autorp_globals_ok, of "replicate 2060 0" "\<lambda>_. True" "[]" "0x0500000a" None 1 heard_mapping] by (auto simp: autorp_relay_max_def)
  then have "autorp_step autorp_globals st" by (rule autorp_step.datagram) (simp add: autorp_relay_max_def)
  then have "autorp_step\<^sup>*\<^sup>* autorp_globals st" by (rule r_into_rtranclp)
  from autorp_always_bounded [OF this, of _ _ _ _ _ _ _ "replicate 1024 0"] show ?thesis using st by (auto simp: autorp_msg_max_def)
qed


definition relaying :: autorp_state where
  "relaying = autorp_globals\<lparr>autorp_relay_socket := True\<rparr>"

definition two_links :: "uvif list" where
  "two_links = [example_vif 0 0x0100000a 1 [] None, example_vif 0 0x0101000a 1 [] None]"

lemma two_links_served: "in_service two_links = [0, 1]"
  by code_simp




definition quiet_agent :: autorp_state where
  "quiet_agent = autorp_globals\<lparr>autorp_agent_flag := True, autorp_agent_addr := 0x0200000a, autorp_agent_timer := 60, autorp_socket := True\<rparr>"



end
