(* ===== verification/Spec2Isabelle.thy ===== *)
theory Spec2Isabelle
  imports Pimd_Prelude Inet Pim_Encode Pim_Parse Autorp_Parse Igmp_Parse Election Pim_Jp Pim_Assert
    Timer Text Pim_Roundtrip Ranges Rp_Set Rp_Match Rp_Order Rp_Remap Rp_Inv Rp_Delete Rp_Keep
    Rp_Cand Vif Pim_Nbr Dr_Election Nbr_Keep Bsr Bsr_Send Bsr_Keep Bsr_Elect
    Autorp Autorp_Keep Autorp_Agent Autorp_Run
begin

text \<open>
  A verification development for pimd, the PIM Sparse Mode multicast routing daemon.
\<close>

end
